(* ===== verification/Prelude.thy ===== *)
theory Prelude
  imports Main "HOL-Library.Word"
begin

text \<open>
  Shared vocabulary of the development: the machine integers of the Rust code as words,
  the checked and saturating operations of \<open>core\<close> that the kernel calls, page rounding,
  the scan "first index that satisfies a test" that most of the kernel's fixed-size tables
  use, in-place slice writes, and big-endian encodings.

  Integer conventions: \<open>u8\<close>, \<open>u16\<close>, \<open>u32\<close> and \<open>u64\<close> values are words, so \<open>+\<close>, \<open>-\<close> and
  \<open>*\<close> wrap as they do in a build without overflow checks (\<^verbatim>\<open>make build CARGO_FLAGS=--release\<close>).
  Where the theorems need that no wrap-around happens, the range is a hypothesis, and then a
  build with overflow checks computes the same values. \<open>usize\<close> counters and array indices,
  which every caller bounds by an array length, are \<open>nat\<close>.
\<close>

unbundle bit_operations_syntax

type_synonym u8 = "8 word"
type_synonym u16 = "16 word"
type_synonym u32 = "32 word"
type_synonym u64 = "64 word"
type_synonym bytes = "u8 list"

text \<open>An IPv4 address, the \<open>[u8; 4]\<close> of the network code.\<close>

type_synonym ip4 = "u8 \<times> u8 \<times> u8 \<times> u8"

named_theorems page_simps \<open>page rounding and other word operations, read as natural numbers\<close>
named_theorems slice_simps \<open>reading back slices and buffers\<close>

section \<open>Integer operations of core\<close>

definition checked_add :: "'a::len word \<Rightarrow> 'a word \<Rightarrow> 'a word option" where
  "checked_add a b = (if uint a + uint b < 2 ^ LENGTH('a) then Some (a + b) else None)"

definition saturating_add :: "'a::len word \<Rightarrow> 'a word \<Rightarrow> 'a word" where
  "saturating_add a b = (if uint a + uint b < 2 ^ LENGTH('a) then a + b else - 1)"

definition saturating_sub :: "'a::len word \<Rightarrow> 'a word \<Rightarrow> 'a word" where
  "saturating_sub a b = (if a < b then 0 else a - b)"

lemma unat_bound [simp]: "unat (x :: 'a::len word) < 2 ^ LENGTH('a)"
  by (rule unsigned_less)

lemma unat_u64_bound: "unat (x :: u64) < 2 ^ 64"
  using unat_bound [of x] by simp

lemma uint_add_less_iff:
  "uint (a :: 'a::len word) + uint b < 2 ^ LENGTH('a) \<longleftrightarrow> unat a + unat b < 2 ^ LENGTH('a)"
proof -
  have "uint a + uint b = int (unat a + unat b)" by simp
  then show ?thesis by (simp only: of_nat_less_iff [symmetric, where 'a = int]) simp
qed

lemma checked_add_u64: "checked_add (a :: u64) b = (if unat a + unat b < 2 ^ 64 then Some (a + b) else None)"
  using uint_add_less_iff [of a b] by (simp add: checked_add_def)

lemma saturating_add_u64: "saturating_add (a :: u64) b = (if unat a + unat b < 2 ^ 64 then a + b else - 1)"
  using uint_add_less_iff [of a b] by (simp add: saturating_add_def)

lemma unat_add_no_wrap:
  "unat (a :: 'a::len word) + unat b < 2 ^ LENGTH('a) \<Longrightarrow> unat (a + b) = unat a + unat b"
  by (simp add: unat_add_lem)

lemma unat_sub_no_wrap: "unat b \<le> unat a \<Longrightarrow> unat (a - b) = unat a - unat b"
  by (simp add: unat_sub word_le_nat_alt)

lemma checked_add_Some_iff:
  "checked_add a b = Some c \<longleftrightarrow>
     unat a + unat b < 2 ^ LENGTH('a) \<and> unat (c :: 'a::len word) = unat a + unat b"
proof (cases "unat a + unat b < 2 ^ LENGTH('a)")
  case True
  then have "unat (a + b) = unat a + unat b" by (rule unat_add_no_wrap)
  with True show ?thesis by (auto simp: checked_add_def uint_add_less_iff word_unat_eq_iff)
next
  case False
  then show ?thesis by (simp add: checked_add_def uint_add_less_iff)
qed

lemma unat_minus_one_word: "unat (- 1 :: 'a::len word) = 2 ^ LENGTH('a) - 1"
  by (simp add: unsigned_minus_1_eq_mask mask_eq_exp_minus_1)

lemma unat_saturating_add:
  "unat (saturating_add a (b :: 'a::len word)) = min (unat a + unat b) (2 ^ LENGTH('a) - 1)"
  by (auto simp: saturating_add_def uint_add_less_iff unat_add_no_wrap unat_minus_one_word min_def)

lemma unat_saturating_sub: "unat (saturating_sub a b) = unat a - unat b"
  by (auto simp: saturating_sub_def word_less_nat_alt unat_sub_no_wrap)

lemma unat_max_word: "unat (max a b) = max (unat a) (unat b)"
  by (simp add: max_def word_le_nat_alt)

lemma unat_min_word: "unat (min a b) = min (unat a) (unat b)"
  by (simp add: min_def word_le_nat_alt)

section \<open>Rounding to pages\<close>

definition PAGE_SIZE :: u64 where
  "PAGE_SIZE = 4096"

definition page_down :: "u64 \<Rightarrow> u64" where
  "page_down x = x AND NOT 0xFFF"

definition page_up :: "u64 \<Rightarrow> u64" where
  "page_up x = (x + 0xFFF) AND NOT 0xFFF"

lemma and_not_mask_eq: "x AND NOT (mask n) = push_bit n (drop_bit n (x :: 'a::len word))"
  by (rule bit_word_eqI) (auto simp: bit_simps)

lemma unat_and_not_mask: "unat ((x :: 'a::len word) AND NOT (mask n)) = unat x div 2 ^ n * 2 ^ n"
proof -
  have lt: "unat x div 2 ^ n * 2 ^ n < 2 ^ LENGTH('a)"
    by (rule le_less_trans [OF _ unat_bound [of x]]) (simp add: div_times_less_eq_dividend)
  have "unat (push_bit n (drop_bit n x)) =
      take_bit LENGTH('a) (push_bit n (unat (drop_bit n x)))"
    by (rule unsigned_push_bit_eq)
  also have "\<dots> = unat x div 2 ^ n * 2 ^ n"
    using lt unat_drop_bit_eq [of n x] take_bit_nat_eq_self [OF lt]
    by (simp only: push_bit_eq_mult drop_bit_eq_div)
  finally show ?thesis by (simp add: and_not_mask_eq)
qed

lemma unat_page_down [page_simps]: "unat (page_down x) = unat x div 4096 * 4096"
  using unat_and_not_mask [of x 12] by (simp add: page_down_def mask_numeral)

lemma page_up_eq: "page_up x = page_down (x + 0xFFF)"
  by (simp add: page_up_def page_down_def)

lemma unat_page_up [page_simps]:
  "unat x < 2 ^ 63 \<Longrightarrow> unat (page_up x) = (unat x + 4095) div 4096 * 4096"
  by (simp add: page_up_eq unat_page_down unat_add_no_wrap)

lemma unat_PAGE_SIZE [simp]: "unat PAGE_SIZE = 4096"
  by (simp add: PAGE_SIZE_def)

text \<open>On natural numbers, rounding down and up to a multiple of 4096.\<close>

lemma floor_page_le: "(n :: nat) div 4096 * 4096 \<le> n"
  by (simp add: div_times_less_eq_dividend)

lemma le_ceil_page: "(n :: nat) \<le> (n + 4095) div 4096 * 4096"
  by linarith

lemma ceil_page_less: "(n + 4095) div 4096 * 4096 < n + (4096 :: nat)"
  by linarith

lemma ceil_page_le_iff:
  assumes "4096 dvd (m :: nat)"
  shows "(n + 4095) div 4096 * 4096 \<le> m \<longleftrightarrow> n \<le> m"
proof -
  obtain k where m: "m = 4096 * k" using assms by (elim dvdE)
  have "(n + 4095) div 4096 \<le> k \<longleftrightarrow> n \<le> 4096 * k" by linarith
  then show ?thesis by (simp add: m mult.commute)
qed

lemma le_floor_page_iff:
  assumes "4096 dvd (m :: nat)"
  shows "m \<le> n div 4096 * 4096 \<longleftrightarrow> m \<le> n"
proof -
  obtain k where m: "m = 4096 * k" using assms by (elim dvdE)
  have "k \<le> n div 4096 \<longleftrightarrow> 4096 * k \<le> n" by linarith
  then show ?thesis by (simp add: m mult.commute)
qed

section \<open>First index that satisfies a test\<close>

text \<open>
  The loop \<^verbatim>\<open>for i in 0..n { if test(xs[i]) { return Some(i); } } None\<close>.
\<close>

primrec find_index :: "('a \<Rightarrow> bool) \<Rightarrow> 'a list \<Rightarrow> nat option" where
  "find_index P [] = None"
| "find_index P (x # xs) = (if P x then Some 0 else map_option Suc (find_index P xs))"

lemma find_index_None_iff: "find_index P xs = None \<longleftrightarrow> (\<forall>x \<in> set xs. \<not> P x)"
  by (induction xs) auto

lemma find_index_Some_iff:
  "find_index P xs = Some i \<longleftrightarrow> i < length xs \<and> P (xs ! i) \<and> (\<forall>j < i. \<not> P (xs ! j))"
proof (induction xs arbitrary: i)
  case Nil
  then show ?case by simp
next
  case (Cons x xs)
  show ?case
  proof (cases i)
    case 0
    then show ?thesis by auto
  next
    case (Suc k)
    then show ?thesis using Cons.IH [of k] by (auto simp: All_less_Suc2)
  qed
qed

lemma find_index_SomeD:
  assumes "find_index P xs = Some i"
  shows "i < length xs" and "P (xs ! i)" and "\<And>j. j < i \<Longrightarrow> \<not> P (xs ! j)"
  using assms by (auto simp: find_index_Some_iff)

lemma find_index_ex: "x \<in> set xs \<Longrightarrow> P x \<Longrightarrow> \<exists>i. find_index P xs = Some i"
  using find_index_None_iff [of P xs] by (cases "find_index P xs") auto

lemma find_index_cong:
  "(\<And>x. x \<in> set xs \<Longrightarrow> P x = Q x) \<Longrightarrow> find_index P xs = find_index Q xs"
  by (induction xs) auto

lemma in_set_take_conv: "x \<in> set (take n xs) \<longleftrightarrow> (\<exists>i. i < n \<and> i < length xs \<and> x = xs ! i)"
  by (auto simp: in_set_conv_nth)

section \<open>Slices\<close>

text \<open>
  \<^verbatim>\<open>buf[off..off + xs.len()].copy_from_slice(xs)\<close>. The source panics when the range does
  not lie inside the buffer; every use below is in range, and \<open>length_write_at\<close> needs it.
\<close>

definition write_at :: "'a list \<Rightarrow> nat \<Rightarrow> 'a list \<Rightarrow> 'a list" where
  "write_at buf off xs = take off buf @ xs @ drop (off + length xs) buf"

lemma length_write_at [slice_simps]:
  "off + length xs \<le> length buf \<Longrightarrow> length (write_at buf off xs) = length buf"
  by (simp add: write_at_def)

lemma nth_write_at:
  assumes "off + length xs \<le> length buf"
  shows "write_at buf off xs ! i =
    (if off \<le> i \<and> i < off + length xs then xs ! (i - off) else buf ! i)"
proof (cases "i < off + length xs")
  case True
  then show ?thesis using assms by (auto simp: write_at_def nth_append)
next
  case False
  then have "off + length xs \<le> i" by simp
  with assms show ?thesis
    by (cases "i < length buf") (auto simp: write_at_def nth_append)
qed

lemma take_write_at [slice_simps]:
  "off \<le> length buf \<Longrightarrow> take (length xs) (drop off (write_at buf off xs)) = xs"
  by (simp add: write_at_def)

section \<open>Big-endian encodings\<close>

definition be16 :: "u16 \<Rightarrow> bytes" where
  "be16 x = [ucast (drop_bit 8 x), ucast x]"

definition of_be16 :: "u8 \<Rightarrow> u8 \<Rightarrow> u16" where
  "of_be16 hi lo = (push_bit 8 (ucast hi)) OR ucast lo"

definition be32 :: "u32 \<Rightarrow> bytes" where
  "be32 x = [ucast (drop_bit 24 x), ucast (drop_bit 16 x), ucast (drop_bit 8 x), ucast x]"

definition of_be32 :: "u8 \<Rightarrow> u8 \<Rightarrow> u8 \<Rightarrow> u8 \<Rightarrow> u32" where
  "of_be32 a b c d =
     push_bit 24 (ucast a) OR push_bit 16 (ucast b) OR push_bit 8 (ucast c) OR ucast d"

lemma length_be16 [simp]: "length (be16 x) = 2"
  by (simp add: be16_def)

lemma length_be32 [simp]: "length (be32 x) = 4"
  by (simp add: be32_def)

lemma of_be16_split: "of_be16 (ucast (drop_bit 8 x)) (ucast x) = x"
  by (rule bit_word_eqI) (auto simp: of_be16_def bit_simps)

lemma of_be32_split:
  "of_be32 (ucast (drop_bit 24 x)) (ucast (drop_bit 16 x)) (ucast (drop_bit 8 x)) (ucast x) = x"
proof (rule bit_word_eqI)
  fix n assume "n < LENGTH(32)"
  then have "n < 32" by simp
  then consider "n < 8" | "8 \<le> n" "n < 16" "n - 8 < 8"
    | "16 \<le> n" "n < 24" "n - 16 < 8" "\<not> n - 8 < 8"
    | "24 \<le> n" "n - 24 < 8" "\<not> n - 16 < 8" "\<not> n - 8 < 8"
    by linarith
  then show "bit (of_be32 (ucast (drop_bit 24 x)) (ucast (drop_bit 16 x)) (ucast (drop_bit 8 x))
      (ucast x)) n = bit x n"
    using \<open>n < 32\<close> by cases (simp_all add: of_be32_def bit_simps)
qed

lemma unat_of_be16: "unat (of_be16 hi lo) = unat hi * 256 + unat lo"
proof -
  have h: "unat hi < 256" "unat lo < 256"
    using unat_bound [of hi] unat_bound [of lo] by simp_all
  have "of_be16 hi lo = push_bit 8 (ucast hi) + ucast lo"
    unfolding of_be16_def
    by (rule disjunctive_add [symmetric]) (auto simp: bit_simps dest: bit_imp_le_length)
  then have e: "of_be16 hi lo = ucast hi * 256 + ucast lo"
    by (simp add: push_bit_eq_mult)
  have "unat (ucast hi :: u16) = unat hi" "unat (ucast lo :: u16) = unat lo"
    using h by (simp_all add: unsigned_ucast_eq take_bit_nat_eq_self)
  then show ?thesis using h by (simp add: e unat_word_ariths)
qed

end
