(* ===== verification/FrameAlloc.thy ===== *)
theory FrameAlloc
  imports Prelude
begin

text \<open>
  The physical frame allocator of \<^verbatim>\<open>crates/zenus-mem/src/frame_allocator.rs\<close>: the region
  list with its high (bump) and low (per-region watermark) passes, the recycled free stack,
  page reservation, and the plan that \<open>global_init\<close> computes from the boot memory map.

  The state is the \<open>FrameAllocator\<close> struct. \<open>regions\<close> and \<open>low_cursor\<close> are arrays of
  \<open>MAX_REGIONS\<close> entries of which the first \<open>region_count\<close> are in use; the entries past it
  are kept, because \<open>plan_regions\<close> reads them. The free stack is its live prefix
  \<^verbatim>\<open>free_stack[..free_count]\<close> (top at the end): no code reads it past \<open>free_count\<close>.
  \<open>PhysAddr::new\<close> of the \<open>x86_64\<close> crate is the identity on addresses below \<open>2 ^ 52\<close>, the
  bound every region has in a well-formed state.
\<close>

section \<open>State\<close>

definition FREE_STACK_SIZE :: nat where
  "FREE_STACK_SIZE = 16384"

definition MAX_REGIONS :: nat where
  "MAX_REGIONS = 64"

definition BOOT_STACK_RESERVE :: u64 where
  "BOOT_STACK_RESERVE = 512 * 1024"

text \<open>\<open>MemoryRegion\<close>, an entry of the boot memory map, and \<open>MemRegion\<close>, an allocatable region.\<close>

record memory_region =
  mm_base :: u64
  mm_length :: u64
  mm_kind :: u64

record mem_region =
  r_base :: u64
  r_length :: u64

record frame_allocator =
  regions :: "mem_region list"
  region_count :: nat
  next_free :: u64
  fa_floor :: u64
  low_cursor :: "u64 list"
  free_stack :: "u64 list"
  total_memory :: u64
  used_memory :: u64

definition is_usable :: "memory_region \<Rightarrow> bool" where
  "is_usable e \<longleftrightarrow> mm_kind e = 0"

definition empty_region :: mem_region where
  "empty_region = \<lparr>r_base = 0, r_length = 0\<rparr>"

definition empty_allocator :: frame_allocator where
  "empty_allocator = \<lparr>regions = replicate MAX_REGIONS empty_region, region_count = 0,
     next_free = 0, fa_floor = 0, low_cursor = replicate MAX_REGIONS 0, free_stack = [],
     total_memory = 0, used_memory = 0\<rparr>"

definition reset :: "frame_allocator \<Rightarrow> frame_allocator" where
  "reset fa = fa\<lparr>regions := replicate MAX_REGIONS empty_region, region_count := 0,
     next_free := 0, fa_floor := 0, low_cursor := replicate MAX_REGIONS 0, free_stack := [],
     total_memory := 0, used_memory := 0\<rparr>"

section \<open>Serving frames\<close>

text \<open>
  The high pass: the first region, in list order, whose next page at or above \<open>next_free\<close>
  fits. The low pass: the first region whose watermark still has a page below \<open>floor\<close>.
\<close>

fun high_pass :: "mem_region list \<Rightarrow> u64 \<Rightarrow> u64 option" where
  "high_pass [] nf = None"
| "high_pass (reg # rest) nf =
     (let start = max (r_base reg) nf;
          start_aligned = (start + 0xFFF) AND NOT 0xFFF;
          end = r_base reg + r_length reg
      in if start_aligned + PAGE_SIZE \<le> end then Some start_aligned else high_pass rest nf)"

fun low_pass :: "(mem_region \<times> u64) list \<Rightarrow> u64 \<Rightarrow> (nat \<times> u64) option" where
  "low_pass [] flr = None"
| "low_pass ((reg, cur) # rest) flr =
     (let base = (r_base reg + PAGE_SIZE - 1) AND NOT (PAGE_SIZE - 1);
          cursor = max cur base;
          end = r_base reg + r_length reg
      in if cursor + PAGE_SIZE \<le> end \<and> cursor < flr then Some (0, cursor)
         else map_option (\<lambda>(i, p). (Suc i, p)) (low_pass rest flr))"

text \<open>The regions in use, each with its low-pass watermark.\<close>

definition live_regions :: "frame_allocator \<Rightarrow> (mem_region \<times> u64) list" where
  "live_regions fa =
     zip (take (region_count fa) (regions fa)) (take (region_count fa) (low_cursor fa))"

definition alloc_frame :: "frame_allocator \<Rightarrow> u64 option \<times> frame_allocator" where
  "alloc_frame fa =
     (if free_stack fa \<noteq> [] then
        (Some (last (free_stack fa)),
         fa\<lparr>free_stack := butlast (free_stack fa), used_memory := used_memory fa + PAGE_SIZE\<rparr>)
      else case high_pass (take (region_count fa) (regions fa)) (next_free fa) of
        Some p \<Rightarrow>
          (Some p, fa\<lparr>next_free := p + PAGE_SIZE, used_memory := used_memory fa + PAGE_SIZE\<rparr>)
      | None \<Rightarrow>
          (case low_pass (live_regions fa) (fa_floor fa) of
             Some (i, p) \<Rightarrow>
               (Some p, fa\<lparr>low_cursor := (low_cursor fa)[i := p + PAGE_SIZE],
                           used_memory := used_memory fa + PAGE_SIZE\<rparr>)
           | None \<Rightarrow> (None, fa)))"

definition free_frame :: "frame_allocator \<Rightarrow> u64 \<Rightarrow> frame_allocator" where
  "free_frame fa a =
     (if a = 0 \<or> a AND (PAGE_SIZE - 1) \<noteq> 0 then fa
      else if a \<in> set (free_stack fa) then fa
      else if length (free_stack fa) < FREE_STACK_SIZE then
        fa\<lparr>free_stack := free_stack fa @ [a],
           used_memory := saturating_sub (used_memory fa) PAGE_SIZE\<rparr>
      else fa)"

definition clear_free_stack :: "frame_allocator \<Rightarrow> frame_allocator" where
  "clear_free_stack fa = fa\<lparr>free_stack := []\<rparr>"

definition recycled_frames_count :: "frame_allocator \<Rightarrow> nat" where
  "recycled_frames_count fa = length (free_stack fa)"

section \<open>Counting what is left\<close>

fun high_pass_frames_from :: "mem_region list \<Rightarrow> u64 \<Rightarrow> nat" where
  "high_pass_frames_from [] cursor = 0"
| "high_pass_frames_from (reg # rest) cursor =
     (let start = (max (r_base reg) cursor + PAGE_SIZE - 1) AND NOT (PAGE_SIZE - 1);
          end = r_base reg + r_length reg
      in if start + PAGE_SIZE \<le> end then
           (let pages = (end - start) div PAGE_SIZE
            in unat pages + high_pass_frames_from rest (start + pages * PAGE_SIZE))
         else high_pass_frames_from rest cursor)"

definition high_pass_frames :: "frame_allocator \<Rightarrow> nat" where
  "high_pass_frames fa =
     high_pass_frames_from (take (region_count fa) (regions fa)) (next_free fa)"

definition low_pass_region_frames :: "u64 \<Rightarrow> mem_region \<times> u64 \<Rightarrow> nat" where
  "low_pass_region_frames flr = (\<lambda>(reg, cur).
     (let base = (r_base reg + PAGE_SIZE - 1) AND NOT (PAGE_SIZE - 1);
          cursor = max cur base;
          end = r_base reg + r_length reg;
          limit = min end flr
      in if limit < PAGE_SIZE then 0
         else (let last = (limit - PAGE_SIZE) AND NOT (PAGE_SIZE - 1)
               in if last \<ge> cursor then unat ((last - cursor) div PAGE_SIZE) + 1 else 0)))"

definition low_pass_frames :: "frame_allocator \<Rightarrow> nat" where
  "low_pass_frames fa = sum_list (map (low_pass_region_frames (fa_floor fa)) (live_regions fa))"

definition free_frames_count :: "frame_allocator \<Rightarrow> nat" where
  "free_frames_count fa = length (free_stack fa) + high_pass_frames fa + low_pass_frames fa"

section \<open>Reserving a range\<close>

text \<open>
  \<open>shift_down i n\<close> is the loop \<^verbatim>\<open>for j in i..n { a[j] = a[j + 1] }\<close>; \<open>shift_up i j\<close> is
  \<^verbatim>\<open>while j > i + 1 { a[j] = a[j - 1]; j -= 1 }\<close>.
\<close>

function shift_down :: "nat \<Rightarrow> nat \<Rightarrow> 'a list \<Rightarrow> 'a list" where
  "shift_down j n xs = (if j < n then shift_down (Suc j) n (xs[j := xs ! Suc j]) else xs)"
  by pat_completeness auto
termination by (relation "measure (\<lambda>(j, n, xs). n - j)") auto

fun shift_up :: "nat \<Rightarrow> nat \<Rightarrow> 'a list \<Rightarrow> 'a list" where
  "shift_up i j xs = (if j > i + 1 then shift_up i (j - 1) (xs[j := xs ! (j - 1)]) else xs)"

declare shift_down.simps [simp del] shift_up.simps [simp del]

text \<open>
  \<open>reserve_body\<close> is one iteration of the \<^verbatim>\<open>while i < self.region_count\<close> loop at index \<open>i\<close>; it
  returns the next index and the updated allocator.
\<close>

definition reserve_body :: "u64 \<Rightarrow> u64 \<Rightarrow> nat \<Rightarrow> frame_allocator \<Rightarrow> nat \<times> frame_allocator" where
  "reserve_body base end i fa =
     (let r = regions fa ! i;
          r_end = r_base r + r_length r
      in if end \<le> r_base r \<or> base \<ge> r_end then (i + 1, fa)
         else if base \<le> r_base r \<and> end \<ge> r_end then
           (i, fa\<lparr>regions := shift_down i (region_count fa - 1) (regions fa),
                  low_cursor := shift_down i (region_count fa - 1) (low_cursor fa),
                  region_count := region_count fa - 1\<rparr>)
         else if base \<le> r_base r then
           (i + 1, fa\<lparr>regions := (regions fa)[i := \<lparr>r_base = end, r_length = r_end - end\<rparr>]\<rparr>)
         else if end \<ge> r_end then
           (i + 1, fa\<lparr>regions := (regions fa)
              [i := \<lparr>r_base = r_base r, r_length = base - r_base r\<rparr>]\<rparr>)
         else
           (let fa1 = fa\<lparr>regions := (regions fa)
                  [i := \<lparr>r_base = r_base r, r_length = base - r_base r\<rparr>]\<rparr>
            in if region_count fa1 < MAX_REGIONS then
                 (let carried = max (low_cursor fa1 ! i) end
                  in (i + 1,
                      fa1\<lparr>regions := (shift_up i (region_count fa1) (regions fa1))
                            [i + 1 := \<lparr>r_base = end, r_length = r_end - end\<rparr>],
                          low_cursor := (shift_up i (region_count fa1) (low_cursor fa1))
                            [i + 1 := carried],
                          region_count := region_count fa1 + 1\<rparr>))
               else (i + 1, fa1)))"

function reserve_loop :: "u64 \<Rightarrow> u64 \<Rightarrow> nat \<Rightarrow> frame_allocator \<Rightarrow> frame_allocator" where
  "reserve_loop base end i fa =
     (if i < region_count fa then
        (case reserve_body base end i fa of (j, fa1) \<Rightarrow> reserve_loop base end j fa1)
      else fa)"
  by pat_completeness auto
termination
  by (relation "measure (\<lambda>(base, end, i, fa). 2 * (region_count fa - i) + (64 - region_count fa))")
    (auto simp: MAX_REGIONS_def reserve_body_def Let_def split: if_splits)

declare reserve_loop.simps [simp del]

definition reserve_region :: "frame_allocator \<Rightarrow> u64 \<Rightarrow> u64 \<Rightarrow> frame_allocator" where
  "reserve_region fa base0 len =
     (if len = 0 then fa
      else let base = base0 AND NOT (PAGE_SIZE - 1);
               end = (saturating_add base len + PAGE_SIZE - 1) AND NOT (PAGE_SIZE - 1);
               fa1 = reserve_loop base end 0 fa
           in if next_free fa1 \<ge> base \<and> next_free fa1 < end then fa1\<lparr>next_free := end\<rparr>
              else fa1)"

text \<open>The public wrappers read the stack pointer and the linker symbols, here arguments.\<close>

definition reserve_boot_stack :: "u64 \<Rightarrow> u64 \<Rightarrow> frame_allocator \<Rightarrow> frame_allocator" where
  "reserve_boot_stack rsp hhdm_offset fa =
     (let rsp_phys = rsp - hhdm_offset;
          stack_page_base = (rsp_phys - 524288) AND NOT 0xFFF
      in reserve_region fa stack_page_base (524288 + PAGE_SIZE))"

definition reserve_kernel_image :: "u64 \<Rightarrow> u64 \<Rightarrow> frame_allocator \<Rightarrow> frame_allocator" where
  "reserve_kernel_image kernel_start kernel_end fa =
     (let start = kernel_start AND NOT PAGE_SIZE
      in if kernel_end \<le> start then fa else reserve_region fa start (kernel_end - start))"

section \<open>The plan\<close>

record alloc_plan_input =
  memory_map :: "memory_region list"
  kernel_image_base :: u64
  kernel_image_end :: u64
  boot_stack_phys :: u64

definition add_usable :: "frame_allocator \<Rightarrow> memory_region \<Rightarrow> frame_allocator" where
  "add_usable fa entry =
     (if is_usable entry \<and> mm_length entry > 0 \<and> region_count fa < MAX_REGIONS then
        fa\<lparr>regions := (regions fa)[region_count fa :=
             \<lparr>r_base = mm_base entry, r_length = mm_length entry\<rparr>],
           region_count := region_count fa + 1\<rparr>
      else fa)"

definition reserve_entry :: "frame_allocator \<Rightarrow> memory_region \<Rightarrow> frame_allocator" where
  "reserve_entry fa entry =
     (if mm_kind entry \<noteq> 0 \<and> mm_length entry > 0
      then reserve_region fa (mm_base entry) (mm_length entry) else fa)"

definition reserve_image :: "alloc_plan_input \<Rightarrow> frame_allocator \<Rightarrow> frame_allocator" where
  "reserve_image input fa =
     (if kernel_image_end input > kernel_image_base input then
        reserve_region fa (kernel_image_base input)
          (kernel_image_end input - kernel_image_base input)
      else fa)"

definition reserve_stack :: "alloc_plan_input \<Rightarrow> frame_allocator \<Rightarrow> frame_allocator" where
  "reserve_stack input fa =
     (if boot_stack_phys input \<noteq> 0 then
        (let stack_base = saturating_sub (boot_stack_phys input) BOOT_STACK_RESERVE AND NOT PAGE_SIZE
         in reserve_region fa stack_base (BOOT_STACK_RESERVE + PAGE_SIZE))
      else fa)"

definition bump_start :: "alloc_plan_input \<Rightarrow> frame_allocator \<Rightarrow> u64" where
  "bump_start input fa =
     (if region_count fa > 0 then
        (let base = r_base (regions fa ! 0);
             end = base + r_length (regions fa ! 0);
             start = (if base < 0x1000000 \<and> end > 0x1000000 then 0x1000000 else base)
         in fold (\<lambda>entry start.
              if mm_kind entry = 6 \<and> mm_base entry + mm_length entry > start
              then mm_base entry + mm_length entry else start) (memory_map input) start)
      else 0)"

definition plan_regions :: "frame_allocator \<Rightarrow> alloc_plan_input \<Rightarrow> frame_allocator" where
  "plan_regions fa input =
     (let fa1 = fold (\<lambda>e a. add_usable a e) (memory_map input) (reset fa);
          fa2 = fold (\<lambda>e a. reserve_entry a e) (memory_map input) fa1;
          fa3 = reserve_stack input (reserve_image input fa2);
          total = fold (\<lambda>r t. t + r_length r) (regions fa3) 0;
          nf = bump_start input fa3
      in fa3\<lparr>total_memory := total, next_free := nf, fa_floor := nf\<rparr>)"

definition new_allocator :: "memory_region list \<Rightarrow> frame_allocator" where
  "new_allocator mm = plan_regions empty_allocator
     \<lparr>memory_map = mm, kernel_image_base = 0, kernel_image_end = 0, boot_stack_phys = 0\<rparr>"

definition global_init :: "memory_region list \<Rightarrow> u64 \<Rightarrow> u64 \<Rightarrow> u64 \<Rightarrow> u64 \<Rightarrow> frame_allocator \<Rightarrow> frame_allocator"
where
  "global_init mm hhdm_offset rsp kernel_start kernel_end fa = plan_regions fa
     \<lparr>memory_map = mm, kernel_image_base = kernel_start AND NOT PAGE_SIZE,
      kernel_image_end = kernel_end, boot_stack_phys = rsp - hhdm_offset\<rparr>"

section \<open>The region arrays as a list\<close>

lemma length_shift_down [simp]: "length (shift_down i n xs) = length xs"
  by (induction i n xs rule: shift_down.induct) (subst shift_down.simps, simp)

lemma nth_shift_down:
  "n < length xs \<Longrightarrow> shift_down i n xs ! k = (if i \<le> k \<and> k < n then xs ! Suc k else xs ! k)"
proof (induction i n xs arbitrary: k rule: shift_down.induct)
  case (1 i n xs)
  show ?case
  proof (cases "i < n")
    case True
    with 1 have "shift_down (Suc i) n (xs[i := xs ! Suc i]) ! k =
      (if Suc i \<le> k \<and> k < n then xs[i := xs ! Suc i] ! Suc k else xs[i := xs ! Suc i] ! k)"
      by simp
    with True 1 show ?thesis
      by (subst shift_down.simps) (auto simp: nth_list_update)
  next
    case False
    then show ?thesis by (subst shift_down.simps) auto
  qed
qed

lemma length_shift_up [simp]: "length (shift_up i j xs) = length xs"
  by (induction i j xs rule: shift_up.induct) (subst shift_up.simps, simp)

lemma nth_shift_up:
  "j < length xs \<Longrightarrow> shift_up i j xs ! k = (if Suc i < k \<and> k \<le> j then xs ! (k - 1) else xs ! k)"
proof (induction i j xs arbitrary: k rule: shift_up.induct)
  case (1 i j xs)
  show ?case
  proof (cases "i + 1 < j")
    case True
    with 1 have "shift_up i (j - 1) (xs[j := xs ! (j - 1)]) ! k =
      (if Suc i < k \<and> k \<le> j - 1 then xs[j := xs ! (j - 1)] ! (k - 1) else xs[j := xs ! (j - 1)] ! k)"
      by simp
    with True 1 show ?thesis
      by (subst shift_up.simps) (auto simp: nth_list_update)
  next
    case False
    then show ?thesis by (subst shift_up.simps) auto
  qed
qed

definition fa_shape :: "frame_allocator \<Rightarrow> bool" where
  "fa_shape fa \<longleftrightarrow> length (regions fa) = MAX_REGIONS \<and> length (low_cursor fa) = MAX_REGIONS \<and>
     region_count fa \<le> MAX_REGIONS"

lemma length_live [simp]: "fa_shape fa \<Longrightarrow> length (live_regions fa) = region_count fa"
  by (simp add: live_regions_def fa_shape_def)

lemma nth_live:
  "fa_shape fa \<Longrightarrow> i < region_count fa \<Longrightarrow> live_regions fa ! i = (regions fa ! i, low_cursor fa ! i)"
  by (simp add: live_regions_def fa_shape_def)

lemma live_trim:
  assumes "fa_shape fa" "i < region_count fa"
  shows "live_regions (fa\<lparr>regions := (regions fa)[i := r]\<rparr>) =
    take i (live_regions fa) @ [(r, low_cursor fa ! i)] @ drop (Suc i) (live_regions fa)"
  using assms
  by (intro nth_equalityI) (auto simp: live_regions_def fa_shape_def nth_list_update nth_append nth_Cons')

lemma live_delete:
  assumes "fa_shape fa" "i < region_count fa"
  shows "live_regions (fa\<lparr>regions := shift_down i (region_count fa - 1) (regions fa),
      low_cursor := shift_down i (region_count fa - 1) (low_cursor fa),
      region_count := region_count fa - 1\<rparr>) =
    take i (live_regions fa) @ drop (Suc i) (live_regions fa)"
  using assms
  by (intro nth_equalityI) (auto simp: live_regions_def fa_shape_def nth_shift_down nth_append)

lemma Suc_minus_two: "Suc i < k \<Longrightarrow> Suc (k - 2) = k - Suc 0"
  by simp

lemma live_split:
  assumes "fa_shape fa" "i < region_count fa" "region_count fa < MAX_REGIONS"
  shows "live_regions (fa\<lparr>regions := (shift_up i (region_count fa) ((regions fa)[i := r1]))[i + 1 := r2],
      low_cursor := (shift_up i (region_count fa) (low_cursor fa))[i + 1 := c],
      region_count := region_count fa + 1\<rparr>) =
    take i (live_regions fa) @ (r1, low_cursor fa ! i) # (r2, c) # drop (Suc i) (live_regions fa)"
  using assms
  by (intro nth_equalityI)
    (auto simp: live_regions_def fa_shape_def nth_shift_up nth_append nth_list_update nth_Cons'
      Suc_minus_two not_le)

section \<open>Well-formed states and what they can serve\<close>

text \<open>Regions and pages as intervals of natural numbers.\<close>

definition PHYS_LIMIT :: nat where
  "PHYS_LIMIT = 2 ^ 52"

abbreviation r_lo :: "mem_region \<Rightarrow> nat" where
  "r_lo r \<equiv> unat (r_base r)"

abbreviation r_hi :: "mem_region \<Rightarrow> nat" where
  "r_hi r \<equiv> unat (r_base r) + unat (r_length r)"

definition region_disjoint :: "mem_region \<times> u64 \<Rightarrow> mem_region \<times> u64 \<Rightarrow> bool" where
  "region_disjoint a b \<longleftrightarrow> r_hi (fst a) \<le> r_lo (fst b) \<or> r_hi (fst b) \<le> r_lo (fst a)"

definition page_in :: "u64 \<Rightarrow> mem_region \<Rightarrow> bool" where
  "page_in p r \<longleftrightarrow> r_lo r \<le> unat p \<and> unat p + 4096 \<le> r_hi r"

text \<open>A region with its watermark: below the physical limit, the watermark a page boundary.\<close>

definition region_ok :: "mem_region \<times> u64 \<Rightarrow> bool" where
  "region_ok rc \<longleftrightarrow> r_hi (fst rc) \<le> PHYS_LIMIT \<and> 4096 dvd unat (snd rc) \<and> unat (snd rc) \<le> PHYS_LIMIT"

definition list_ok :: "(mem_region \<times> u64) list \<Rightarrow> bool" where
  "list_ok l \<longleftrightarrow> (\<forall>rc \<in> set l. region_ok rc) \<and> sorted_wrt region_disjoint l"

definition fa_wf :: "frame_allocator \<Rightarrow> bool" where
  "fa_wf fa \<longleftrightarrow> fa_shape fa \<and> list_ok (live_regions fa) \<and>
     unat (next_free fa) \<le> PHYS_LIMIT \<and> fa_floor fa \<le> next_free fa"

text \<open>\<open>servable fa p\<close>: some later call may hand out page \<open>p\<close> without recycling it.\<close>

definition servable :: "frame_allocator \<Rightarrow> u64 \<Rightarrow> bool" where
  "servable fa p \<longleftrightarrow> 4096 dvd unat p \<and>
     (\<exists>rc \<in> set (live_regions fa). page_in p (fst rc) \<and>
        (next_free fa \<le> p \<or> p < fa_floor fa \<and> snd rc \<le> p))"

lemma unat_region_end: "r_hi r \<le> PHYS_LIMIT \<Longrightarrow> unat (r_base r + r_length r) = r_hi r"
  by (simp add: PHYS_LIMIT_def unat_add_no_wrap)

lemma page_round_up_eq: "(x + PAGE_SIZE - 1) AND NOT (PAGE_SIZE - 1) = page_up x"
  by (simp add: PAGE_SIZE_def page_up_def add.commute)

lemma page_round_down_eq: "x AND NOT (PAGE_SIZE - 1) = page_down x"
  by (simp add: PAGE_SIZE_def page_down_def)

lemma page_end: "unat p < 2 ^ 63 \<Longrightarrow> unat (p + PAGE_SIZE) = unat p + 4096"
  by (simp add: unat_add_no_wrap)

text \<open>One region step of each pass, on natural numbers.\<close>

lemma high_candidate:
  assumes "r_hi r \<le> PHYS_LIMIT" "unat nf \<le> PHYS_LIMIT"
  defines "p \<equiv> page_up (max (r_base r) nf)"
  shows "unat p = (max (r_lo r) (unat nf) + 4095) div 4096 * 4096"
    and "p + PAGE_SIZE \<le> r_base r + r_length r \<longleftrightarrow> unat p + 4096 \<le> r_hi r"
    and "r_base r \<le> p" and "nf \<le> p" and "4096 dvd unat p"
proof -
  have b: "max (r_lo r) (unat nf) \<le> 2 ^ 52"
    using assms by (simp add: PHYS_LIMIT_def)
  show up: "unat p = (max (r_lo r) (unat nf) + 4095) div 4096 * 4096"
    using b by (simp add: p_def unat_page_up unat_max_word)
  have lt: "unat p < 2 ^ 63"
    unfolding up by (rule less_trans [OF ceil_page_less]) (use b in simp)
  show "p + PAGE_SIZE \<le> r_base r + r_length r \<longleftrightarrow> unat p + 4096 \<le> r_hi r"
    using assms(1) lt by (simp add: word_le_nat_alt page_end unat_region_end)
  have "max (r_lo r) (unat nf) \<le> unat p"
    unfolding up by (rule le_ceil_page)
  then show "r_base r \<le> p" "nf \<le> p" by (simp_all add: word_le_nat_alt)
  show "4096 dvd unat p" unfolding up by simp
qed

lemma high_pass_step:
  "high_pass (reg # rest) nf =
     (let p = page_up (max (r_base reg) nf)
      in if p + PAGE_SIZE \<le> r_base reg + r_length reg then Some p else high_pass rest nf)"
  by (simp add: Let_def page_up_def)

lemma high_pass_Some:
  assumes "\<forall>r \<in> set rs. r_hi r \<le> PHYS_LIMIT" "unat nf \<le> PHYS_LIMIT" "high_pass rs nf = Some p"
  shows "4096 dvd unat p \<and> nf \<le> p \<and> (\<exists>r \<in> set rs. page_in p r)"
  using assms
proof (induction rs)
  case Nil
  then show ?case by simp
next
  case (Cons r rs)
  note c = high_candidate [of r nf]
  show ?case
  proof (cases "page_up (max (r_base r) nf) + PAGE_SIZE \<le> r_base r + r_length r")
    case True
    with Cons.prems have p: "p = page_up (max (r_base r) nf)"
      by (simp add: high_pass_step del: high_pass.simps)
    with True Cons.prems c have "page_in p r"
      by (simp add: page_in_def word_le_nat_alt)
    with p c Cons.prems show ?thesis by auto
  next
    case False
    with Cons show ?thesis by (simp add: high_pass_step del: high_pass.simps)
  qed
qed

lemma low_pass_step:
  "low_pass ((reg, cur) # rest) flr =
     (let p = max cur (page_up (r_base reg))
      in if p + PAGE_SIZE \<le> r_base reg + r_length reg \<and> p < flr then Some (0, p)
         else map_option (\<lambda>(i, p). (Suc i, p)) (low_pass rest flr))"
  by (simp add: Let_def page_round_up_eq)

lemma low_candidate:
  assumes "region_ok (r, c)"
  defines "p \<equiv> max c (page_up (r_base r))"
  shows "unat p = max (unat c) ((r_lo r + 4095) div 4096 * 4096)"
    and "p + PAGE_SIZE \<le> r_base r + r_length r \<longleftrightarrow> unat p + 4096 \<le> r_hi r"
    and "c \<le> p" and "r_base r \<le> p" and "4096 dvd unat p"
proof -
  have b: "r_lo r \<le> 2 ^ 52" "unat c \<le> 2 ^ 52" and d: "4096 dvd unat c"
    and hi: "r_hi r \<le> PHYS_LIMIT"
    using assms by (simp_all add: region_ok_def PHYS_LIMIT_def)
  show up: "unat p = max (unat c) ((r_lo r + 4095) div 4096 * 4096)"
    using b by (simp add: p_def unat_page_up unat_max_word)
  have lt: "unat p < 2 ^ 63"
    using ceil_page_less [of "r_lo r"] b by (simp only: up) simp
  show "p + PAGE_SIZE \<le> r_base r + r_length r \<longleftrightarrow> unat p + 4096 \<le> r_hi r"
    using hi lt by (simp add: word_le_nat_alt page_end unat_region_end)
  show "c \<le> p" by (simp add: p_def)
  have "r_lo r \<le> unat p"
    unfolding up using le_ceil_page [of "r_lo r"] by linarith
  then show "r_base r \<le> p" by (simp add: word_le_nat_alt)
  show "4096 dvd unat p" unfolding up using d by (simp add: max_def)
qed

lemma low_pass_Some:
  assumes "\<forall>rc \<in> set l. region_ok rc" "low_pass l flr = Some (i, p)"
  shows "i < length l \<and> 4096 dvd unat p \<and> p < flr \<and> page_in p (fst (l ! i)) \<and> snd (l ! i) \<le> p"
  using assms
proof (induction l arbitrary: i)
  case Nil
  then show ?case by simp
next
  case (Cons rc l)
  obtain r c where rc: "rc = (r, c)" by (cases rc)
  note k = low_candidate [of r c]
  show ?case
  proof (cases "max c (page_up (r_base r)) + PAGE_SIZE \<le> r_base r + r_length r
      \<and> max c (page_up (r_base r)) < flr")
    case True
    with Cons.prems have p: "p = max c (page_up (r_base r))" "i = 0"
      by (simp_all add: rc low_pass_step del: low_pass.simps)
    with True Cons.prems k have "page_in p r"
      by (simp add: rc page_in_def word_le_nat_alt)
    with True p k Cons.prems show ?thesis by (auto simp: rc)
  next
    case False
    with Cons.prems obtain j where "low_pass l flr = Some (j, p)" "i = Suc j"
      by (auto simp: rc low_pass_step Let_def simp del: low_pass.simps)
    with Cons show ?thesis by auto
  qed
qed


section \<open>Reserving a range\<close>

text \<open>
  What a reservation of \<open>[b, e)\<close> does to one region: what is left of it lies inside the old
  region, above the old watermark, and clear of the range.
\<close>

definition clear_of :: "nat \<Rightarrow> nat \<Rightarrow> mem_region \<times> u64 \<Rightarrow> bool" where
  "clear_of b e rc \<longleftrightarrow> r_hi (fst rc) \<le> b \<or> e \<le> r_lo (fst rc)"

definition within :: "mem_region \<times> u64 \<Rightarrow> mem_region \<times> u64 \<Rightarrow> bool" where
  "within rc' rc \<longleftrightarrow> r_lo (fst rc) \<le> r_lo (fst rc') \<and> r_hi (fst rc') \<le> r_hi (fst rc) \<and>
     snd rc \<le> snd rc'"

lemma within_refl [simp]: "within rc rc"
  by (simp add: within_def)

lemma within_trans: "within a b \<Longrightarrow> within b c \<Longrightarrow> within a c"
  by (auto simp: within_def)

lemma disjoint_within:
  "region_disjoint a b \<Longrightarrow> within a' a \<Longrightarrow> within b' b \<Longrightarrow> region_disjoint a' b'"
  by (auto simp: within_def region_disjoint_def)

lemma region_disjoint_sym: "region_disjoint a b \<longleftrightarrow> region_disjoint b a"
  by (auto simp: region_disjoint_def)

text \<open>Replacing one region by parts of it keeps the list well-formed.\<close>

lemma list_ok_replace:
  assumes "list_ok (xs @ rc # ys)" "list_ok new" "\<forall>n \<in> set new. within n rc"
  shows "list_ok (xs @ new @ ys)"
proof -
  have xs: "region_disjoint x n" if "x \<in> set xs" "n \<in> set new" for x n
    using assms that by (auto simp: list_ok_def sorted_wrt_append intro: disjoint_within)
  have ys: "region_disjoint n y" if "y \<in> set ys" "n \<in> set new" for y n
    using assms that by (auto simp: list_ok_def sorted_wrt_append intro: disjoint_within)
  show ?thesis
    using assms xs ys by (auto simp: list_ok_def sorted_wrt_append)
qed

lemma split_nth: "i < length l \<Longrightarrow> l = take i l @ l ! i # drop (Suc i) l"
  by (rule id_take_nth_drop)

text \<open>The four ways a region can meet the range, on natural numbers.\<close>

lemma trim_parts:
  assumes ok: "region_ok (r, c)" and b: "unat base < unat end" "unat end \<le> PHYS_LIMIT" "4096 dvd unat end"
  defines "r_end \<equiv> r_base r + r_length r"
  shows "end \<le> r_base r \<or> base \<ge> r_end \<Longrightarrow> clear_of (unat base) (unat end) (r, c)"
    and "\<not> end \<ge> r_end \<Longrightarrow> \<not> end \<le> r_base r \<Longrightarrow>
      region_ok (\<lparr>r_base = end, r_length = r_end - end\<rparr>, c) \<and>
      within (\<lparr>r_base = end, r_length = r_end - end\<rparr>, c) (r, c) \<and>
      clear_of (unat base) (unat end) (\<lparr>r_base = end, r_length = r_end - end\<rparr>, c)"
    and "\<not> base \<le> r_base r \<Longrightarrow> \<not> base \<ge> r_end \<Longrightarrow>
      region_ok (\<lparr>r_base = r_base r, r_length = base - r_base r\<rparr>, c) \<and>
      within (\<lparr>r_base = r_base r, r_length = base - r_base r\<rparr>, c) (r, c) \<and>
      clear_of (unat base) (unat end) (\<lparr>r_base = r_base r, r_length = base - r_base r\<rparr>, c)"
    and "\<not> end \<ge> r_end \<Longrightarrow> \<not> end \<le> r_base r \<Longrightarrow>
      region_ok (\<lparr>r_base = end, r_length = r_end - end\<rparr>, max c end) \<and>
      within (\<lparr>r_base = end, r_length = r_end - end\<rparr>, max c end) (r, c) \<and>
      clear_of (unat base) (unat end) (\<lparr>r_base = end, r_length = r_end - end\<rparr>, max c end)"
proof -
  have e: "unat r_end = r_hi r"
    using ok by (simp add: r_end_def region_ok_def unat_region_end)
  show "end \<le> r_base r \<or> base \<ge> r_end \<Longrightarrow> clear_of (unat base) (unat end) (r, c)"
    by (auto simp: clear_of_def word_le_nat_alt e)
  show "\<not> base \<le> r_base r \<Longrightarrow> \<not> base \<ge> r_end \<Longrightarrow>
      region_ok (\<lparr>r_base = r_base r, r_length = base - r_base r\<rparr>, c) \<and>
      within (\<lparr>r_base = r_base r, r_length = base - r_base r\<rparr>, c) (r, c) \<and>
      clear_of (unat base) (unat end) (\<lparr>r_base = r_base r, r_length = base - r_base r\<rparr>, c)"
    using ok b by (auto simp: region_ok_def within_def clear_of_def word_le_nat_alt e unat_sub_no_wrap)
  assume h: "\<not> end \<ge> r_end" "\<not> end \<le> r_base r"
  then have l: "unat (r_end - end) = r_hi r - unat end"
    by (simp add: word_le_nat_alt e unat_sub_no_wrap)
  show "region_ok (\<lparr>r_base = end, r_length = r_end - end\<rparr>, c) \<and>
      within (\<lparr>r_base = end, r_length = r_end - end\<rparr>, c) (r, c) \<and>
      clear_of (unat base) (unat end) (\<lparr>r_base = end, r_length = r_end - end\<rparr>, c)"
    using ok b h by (auto simp: region_ok_def within_def clear_of_def word_le_nat_alt e l)
  show "region_ok (\<lparr>r_base = end, r_length = r_end - end\<rparr>, max c end) \<and>
      within (\<lparr>r_base = end, r_length = r_end - end\<rparr>, max c end) (r, c) \<and>
      clear_of (unat base) (unat end) (\<lparr>r_base = end, r_length = r_end - end\<rparr>, max c end)"
    using ok b h by (auto simp: region_ok_def within_def clear_of_def word_le_nat_alt e l unat_max_word max_def)
qed



text \<open>
  The loop invariant at index \<open>i\<close>, relative to the state \<open>fa0\<close> the loop started in: every region
  lies within a region of the start, those before \<open>i\<close> are clear of the range, and the fields
  the loop does not write are the same.
\<close>

definition loop_inv :: "nat \<Rightarrow> nat \<Rightarrow> frame_allocator \<Rightarrow> nat \<Rightarrow> frame_allocator \<Rightarrow> bool" where
  "loop_inv b e fa0 i fa \<longleftrightarrow> fa_shape fa \<and> list_ok (live_regions fa) \<and>
     (\<forall>rc \<in> set (live_regions fa). \<exists>rc0 \<in> set (live_regions fa0). within rc rc0) \<and>
     (\<forall>rc \<in> set (take i (live_regions fa)). clear_of b e rc) \<and>
     next_free fa = next_free fa0 \<and> fa_floor fa = fa_floor fa0 \<and> free_stack fa = free_stack fa0 \<and>
     used_memory fa = used_memory fa0"

lemma loop_inv_replace:
  assumes inv: "loop_inv b e fa0 i fa" and i: "i < region_count fa" and "fa_shape fa1"
    and live: "live_regions fa1 = take i (live_regions fa) @ new @ drop (Suc i) (live_regions fa)"
    and new: "list_ok new" "\<forall>n \<in> set new. within n (live_regions fa ! i)"
      "\<forall>n \<in> set (take (j - i) new). clear_of b e n"
    and j: "i \<le> j" "j - i \<le> length new"
    and frame: "next_free fa1 = next_free fa" "fa_floor fa1 = fa_floor fa"
      "free_stack fa1 = free_stack fa" "used_memory fa1 = used_memory fa"
  shows "loop_inv b e fa0 j fa1"
proof -
  let ?l = "live_regions fa"
  have len: "i < length ?l" using inv i by (simp add: loop_inv_def)
  then have "list_ok (take i ?l @ ?l ! i # drop (Suc i) ?l)"
    using inv by (simp add: id_take_nth_drop [symmetric] loop_inv_def)
  then have ok: "list_ok (live_regions fa1)"
    unfolding live using new(1,2) by (rule list_ok_replace)
  have anc: "\<exists>rc0 \<in> set (live_regions fa0). within rc rc0" if "rc \<in> set ?l" for rc
    using inv that by (simp add: loop_inv_def)
  have "\<exists>rc0 \<in> set (live_regions fa0). within rc rc0" if "rc \<in> set new" for rc
    using anc [OF nth_mem [OF len]] new(2) that by (blast intro: within_trans)
  with anc have "\<forall>rc \<in> set (live_regions fa1). \<exists>rc0 \<in> set (live_regions fa0). within rc rc0"
    unfolding live by (auto simp del: split_paired_All split_paired_Ex dest: in_set_takeD in_set_dropD)
  moreover have "take j (live_regions fa1) = take i ?l @ take (j - i) new"
    using len j by (simp add: live)
  then have "\<forall>rc \<in> set (take j (live_regions fa1)). clear_of b e rc"
    using inv new(3) by (auto simp: loop_inv_def)
  ultimately show ?thesis
    using assms(3) inv frame ok by (simp add: loop_inv_def)
qed

lemma loop_inv_skip:
  assumes "loop_inv b e fa0 i fa" "i < region_count fa" "clear_of b e (live_regions fa ! i)"
  shows "loop_inv b e fa0 (Suc i) fa"
  using assms by (auto simp: loop_inv_def take_Suc_conv_app_nth)

lemma loop_inv_trim:
  assumes "loop_inv b e fa0 i fa" "i < region_count fa"
    and "region_ok (r', low_cursor fa ! i) \<and> within (r', low_cursor fa ! i) (live_regions fa ! i) \<and>
      clear_of b e (r', low_cursor fa ! i)"
  shows "loop_inv b e fa0 (Suc i) (fa\<lparr>regions := (regions fa)[i := r']\<rparr>)"
  by (rule loop_inv_replace [OF assms(1,2), where new = "[(r', low_cursor fa ! i)]"])
    (use assms live_trim [of fa i r'] in \<open>auto simp: loop_inv_def list_ok_def fa_shape_def\<close>)

lemma loop_inv_delete:
  assumes "loop_inv b e fa0 i fa" "i < region_count fa"
  shows "loop_inv b e fa0 i (fa\<lparr>regions := shift_down i (region_count fa - Suc 0) (regions fa),
      low_cursor := shift_down i (region_count fa - Suc 0) (low_cursor fa),
      region_count := region_count fa - Suc 0\<rparr>)"
  by (rule loop_inv_replace [OF assms, where new = "[]"])
    (use assms live_delete [of fa i] in \<open>auto simp: loop_inv_def list_ok_def fa_shape_def\<close>)

lemma loop_inv_split:
  assumes "loop_inv b e fa0 i fa" "i < region_count fa" "region_count fa < MAX_REGIONS"
    and "region_ok (r1, low_cursor fa ! i) \<and> within (r1, low_cursor fa ! i) (live_regions fa ! i) \<and>
      clear_of b e (r1, low_cursor fa ! i)"
    and "region_ok (r2, c) \<and> within (r2, c) (live_regions fa ! i)"
    and "region_disjoint (r1, low_cursor fa ! i) (r2, c)"
  shows "loop_inv b e fa0 (Suc i)
    (fa\<lparr>regions := (shift_up i (region_count fa) ((regions fa)[i := r1]))[Suc i := r2],
      low_cursor := (shift_up i (region_count fa) (low_cursor fa))[Suc i := c],
      region_count := Suc (region_count fa)\<rparr>)"
  by (rule loop_inv_replace [OF assms(1,2), where new = "[(r1, low_cursor fa ! i), (r2, c)]"])
    (use assms live_split [where fa = fa and i = i and ?r1.0 = r1 and ?r2.0 = r2 and c = c] in \<open>auto simp: loop_inv_def list_ok_def fa_shape_def\<close>)

lemma reserve_body_inv:
  assumes inv: "loop_inv (unat base) (unat end) fa0 i fa" and i: "i < region_count fa"
    and rng: "unat base < unat end" "unat end \<le> PHYS_LIMIT" "4096 dvd unat end"
    and body: "reserve_body base end i fa = (j, fa1)"
  shows "loop_inv (unat base) (unat end) fa0 j fa1"
proof -
  define r c where "r = regions fa ! i" and "c = low_cursor fa ! i"
  have li: "live_regions fa ! i = (r, c)" and len: "i < length (live_regions fa)"
    using inv i by (simp_all add: loop_inv_def r_def c_def nth_live)
  have ok: "region_ok (r, c)"
    using inv nth_mem [OF len] unfolding loop_inv_def list_ok_def li by blast
  note parts = trim_parts [OF ok rng]
  have apart: "region_disjoint (\<lparr>r_base = r_base r, r_length = base - r_base r\<rparr>, c)
      (\<lparr>r_base = end, r_length = r_base r + r_length r - end\<rparr>, max c end)" if "\<not> base \<le> r_base r"
    using rng that by (auto simp: region_disjoint_def word_le_nat_alt unat_sub_no_wrap)
  show ?thesis
    using body parts apart inv i li
    by (auto simp: reserve_body_def Let_def c_def [symmetric] r_def [symmetric]
        split: if_splits intro: loop_inv_skip intro!: loop_inv_trim loop_inv_delete loop_inv_split)
qed

lemma reserve_loop_inv:
  assumes "loop_inv (unat base) (unat end) fa0 i fa"
    and "unat base < unat end" "unat end \<le> PHYS_LIMIT" "4096 dvd unat end"
  shows "\<exists>j \<ge> region_count (reserve_loop base end i fa).
    loop_inv (unat base) (unat end) fa0 j (reserve_loop base end i fa)"
  using assms
proof (induction base "end" i fa rule: reserve_loop.induct)
  case (1 base "end" i fa)
  show ?case
  proof (cases "i < region_count fa")
    case True
    obtain j fa1 where body: "reserve_body base end i fa = (j, fa1)" by fastforce
    have "loop_inv (unat base) (unat end) fa0 j fa1"
      using reserve_body_inv [OF "1.prems"(1) True "1.prems"(2-4) body] .
    with "1.IH" [OF True body [symmetric]] "1.prems" True body show ?thesis
      by (subst (1 2) reserve_loop.simps) simp
  next
    case False
    with "1.prems" show ?thesis by (subst (1 2) reserve_loop.simps) (auto intro: exI [of _ i])
  qed
qed

lemma page_up_of_down: "page_down (x + PAGE_SIZE - 1) = page_up x"
  by (simp only: page_round_up_eq [symmetric] page_round_down_eq)

subsection \<open>The effect of a reservation\<close>

text \<open>The range a call with an in-range argument covers, on natural numbers.\<close>

definition res_lo :: "u64 \<Rightarrow> nat" where
  "res_lo b = unat b div 4096 * 4096"

definition res_hi :: "u64 \<Rightarrow> u64 \<Rightarrow> nat" where
  "res_hi b len = (res_lo b + unat len + 4095) div 4096 * 4096"

definition res_ok :: "u64 \<Rightarrow> u64 \<Rightarrow> bool" where
  "res_ok b len \<longleftrightarrow> unat b + unat len \<le> PHYS_LIMIT"

lemma res_bounds:
  assumes "res_ok b len" "len \<noteq> 0"
  shows "unat (page_down b) = res_lo b"
    and "unat (page_up (saturating_add (page_down b) len)) = res_hi b len"
    and "res_lo b < res_hi b len" and "res_hi b len \<le> PHYS_LIMIT" and "4096 dvd res_hi b len"
proof -
  show lo: "unat (page_down b) = res_lo b"
    by (simp add: res_lo_def unat_page_down)
  have le: "res_lo b + unat len \<le> PHYS_LIMIT"
    using assms(1) floor_page_le [of "unat b"] by (simp add: res_ok_def res_lo_def)
  then have sat: "unat (saturating_add (page_down b) len) = res_lo b + unat len"
    by (simp add: unat_saturating_add lo PHYS_LIMIT_def)
  show "unat (page_up (saturating_add (page_down b) len)) = res_hi b len"
    using le by (subst unat_page_up) (simp_all add: sat res_hi_def PHYS_LIMIT_def)
  have "0 < unat len" using assms(2) by (simp add: unat_gt_0)
  then show "res_lo b < res_hi b len"
    unfolding res_hi_def by (intro less_le_trans [OF _ le_ceil_page]) simp
  have "4096 dvd PHYS_LIMIT" by (simp add: PHYS_LIMIT_def)
  with le show "res_hi b len \<le> PHYS_LIMIT"
    unfolding res_hi_def by (simp only: ceil_page_le_iff)
  show "4096 dvd res_hi b len" by (simp add: res_hi_def)
qed

lemma reserve_region_spec:
  assumes wf: "fa_wf fa" and ok: "res_ok b len" and len: "len \<noteq> 0"
  shows "fa_wf (reserve_region fa b len)"
    and "\<forall>rc \<in> set (live_regions (reserve_region fa b len)).
      clear_of (res_lo b) (res_hi b len) rc \<and> (\<exists>rc0 \<in> set (live_regions fa). within rc rc0)"
    and "next_free fa \<le> next_free (reserve_region fa b len)"
    and "fa_floor (reserve_region fa b len) = fa_floor fa"
    and "free_stack (reserve_region fa b len) = free_stack fa"
proof -
  define base where "base = page_down b"
  define "end" where "end = page_up (saturating_add (page_down b) len)"
  define fa1 where "fa1 = reserve_loop base end 0 fa"
  note bnd = res_bounds [OF ok len, folded base_def end_def]
  have "loop_inv (unat base) (unat end) fa 0 fa"
    using wf by (auto simp: loop_inv_def fa_wf_def simp del: split_paired_All intro: within_refl bexI)
  then obtain j where j: "region_count fa1 \<le> j" "loop_inv (unat base) (unat end) fa j fa1"
    using reserve_loop_inv [of base "end" fa 0 fa] bnd unfolding fa1_def by auto
  then have loop: "fa_shape fa1" "list_ok (live_regions fa1)" "next_free fa1 = next_free fa"
    "fa_floor fa1 = fa_floor fa" "free_stack fa1 = free_stack fa"
    "\<forall>rc \<in> set (live_regions fa1). clear_of (unat base) (unat end) rc \<and>
      (\<exists>rc0 \<in> set (live_regions fa). within rc rc0)"
    by (auto simp: loop_inv_def)
  have eq: "reserve_region fa b len =
      (if next_free fa1 \<ge> base \<and> next_free fa1 < end then fa1\<lparr>next_free := end\<rparr> else fa1)"
    using len by (simp add: reserve_region_def Let_def page_round_down_eq page_up_of_down
        fa1_def base_def end_def)
  have live: "live_regions (reserve_region fa b len) = live_regions fa1"
    "fa_shape (reserve_region fa b len) = fa_shape fa1"
    by (simp_all add: eq live_regions_def fa_shape_def)
  show "\<forall>rc \<in> set (live_regions (reserve_region fa b len)).
      clear_of (res_lo b) (res_hi b len) rc \<and> (\<exists>rc0 \<in> set (live_regions fa). within rc rc0)"
    using loop bnd by (simp add: live)
  show nf: "next_free fa \<le> next_free (reserve_region fa b len)"
    using loop by (auto simp: eq)
  show fl: "fa_floor (reserve_region fa b len) = fa_floor fa"
    "free_stack (reserve_region fa b len) = free_stack fa"
    using loop by (simp_all add: eq)
  have "unat (next_free (reserve_region fa b len)) \<le> PHYS_LIMIT"
    using loop bnd wf by (simp add: eq fa_wf_def)
  then show "fa_wf (reserve_region fa b len)"
    using wf loop nf fl by (auto simp: fa_wf_def live)
qed

lemma reserve_region_servable:
  assumes wf: "fa_wf fa" and ok: "res_ok b len" and len: "len \<noteq> 0"
    and p: "servable (reserve_region fa b len) p"
  shows "servable fa p" and "unat p + 4096 \<le> res_lo b \<or> res_hi b len \<le> unat p"
proof -
  note spec = reserve_region_spec [OF wf ok len]
  obtain rc where rc: "rc \<in> set (live_regions (reserve_region fa b len))" "page_in p (fst rc)"
    and a: "next_free (reserve_region fa b len) \<le> p \<or> p < fa_floor (reserve_region fa b len) \<and> snd rc \<le> p"
    and al: "4096 dvd unat p"
    using p by (auto simp: servable_def)
  obtain rc0 where rc0: "rc0 \<in> set (live_regions fa)" "within rc rc0"
    using spec(2) rc by blast
  then have "page_in p (fst rc0) \<and> (next_free fa \<le> p \<or> p < fa_floor fa \<and> snd rc0 \<le> p)"
    using rc a spec(3,4) by (auto simp: page_in_def within_def)
  with rc0 al show "servable fa p" unfolding servable_def by blast
  show "unat p + 4096 \<le> res_lo b \<or> res_hi b len \<le> unat p"
    using spec(2) rc by (auto simp: clear_of_def page_in_def)
qed


section \<open>Allocation and recycling\<close>

text \<open>One allocation, seen through \<open>servable\<close>: where the frame comes from, and what remains.\<close>

lemma in_live_region:
  assumes "fa_wf fa" "r \<in> set (take (region_count fa) (regions fa))"
  obtains c where "(r, c) \<in> set (live_regions fa)"
proof -
  have "map fst (live_regions fa) = take (region_count fa) (regions fa)"
    using assms(1) by (simp add: live_regions_def fa_wf_def fa_shape_def map_fst_zip)
  with assms(2) have "r \<in> fst ` set (live_regions fa)" by (metis list.set_map)
  with that show ?thesis by auto
qed

lemma regions_ok:
  "fa_wf fa \<Longrightarrow> \<forall>r \<in> set (take (region_count fa) (regions fa)). r_hi r \<le> PHYS_LIMIT"
proof
  fix r assume wf: "fa_wf fa" and "r \<in> set (take (region_count fa) (regions fa))"
  then obtain c where "(r, c) \<in> set (live_regions fa)" by (rule in_live_region)
  with wf show "r_hi r \<le> PHYS_LIMIT" by (auto simp: fa_wf_def list_ok_def region_ok_def)
qed

lemma alloc_frame_cases:
  assumes wf: "fa_wf fa" and alloc: "alloc_frame fa = (Some p, fa')"
  obtains (recycled) "free_stack fa = free_stack fa' @ [p]" "live_regions fa' = live_regions fa"
      "next_free fa' = next_free fa" "fa_floor fa' = fa_floor fa" "fa_shape fa'"
    | (high) "free_stack fa = []" "free_stack fa' = []" "servable fa p" "next_free fa \<le> p"
      "high_pass (take (region_count fa) (regions fa)) (next_free fa) = Some p"
      "fa' = fa\<lparr>next_free := p + PAGE_SIZE, used_memory := used_memory fa + PAGE_SIZE\<rparr>"
    | (low) i where "free_stack fa = []" "free_stack fa' = []" "servable fa p" "p < fa_floor fa"
      "high_pass (take (region_count fa) (regions fa)) (next_free fa) = None"
      "low_pass (live_regions fa) (fa_floor fa) = Some (i, p)"
      "fa' = fa\<lparr>low_cursor := (low_cursor fa)[i := p + PAGE_SIZE], used_memory := used_memory fa + PAGE_SIZE\<rparr>"
proof (cases "free_stack fa = []")
  case False
  with alloc wf show ?thesis
    by (intro recycled) (auto simp: alloc_frame_def live_regions_def fa_wf_def fa_shape_def)
next
  case empty: True
  show ?thesis
  proof (cases "high_pass (take (region_count fa) (regions fa)) (next_free fa)")
    case (Some q)
    with alloc empty have eq: "q = p"
      "fa' = fa\<lparr>next_free := p + PAGE_SIZE, used_memory := used_memory fa + PAGE_SIZE\<rparr>"
      by (auto simp: alloc_frame_def)
    have nf: "unat (next_free fa) \<le> PHYS_LIMIT" using wf by (simp add: fa_wf_def)
    obtain r where r: "r \<in> set (take (region_count fa) (regions fa))" "page_in p r" "4096 dvd unat p"
      "next_free fa \<le> p"
      using high_pass_Some [OF regions_ok [OF wf] nf Some] eq by auto
    moreover obtain c where "(r, c) \<in> set (live_regions fa)" using in_live_region [OF wf r(1)] .
    ultimately have "servable fa p" by (force simp: servable_def)
    with r eq empty Some show ?thesis by (intro high) auto
  next
    case None
    with alloc empty obtain i where i: "low_pass (live_regions fa) (fa_floor fa) = Some (i, p)"
      "fa' = fa\<lparr>low_cursor := (low_cursor fa)[i := p + PAGE_SIZE], used_memory := used_memory fa + PAGE_SIZE\<rparr>"
      by (auto simp: alloc_frame_def split: option.splits)
    have "\<forall>rc \<in> set (live_regions fa). region_ok rc" using wf by (simp add: fa_wf_def list_ok_def)
    from low_pass_Some [OF this i(1)] have l: "i < length (live_regions fa)" "4096 dvd unat p" "p < fa_floor fa"
      "page_in p (fst (live_regions fa ! i))" "snd (live_regions fa ! i) \<le> p"
      by auto
    then have "servable fa p" unfolding servable_def using nth_mem [OF l(1)] by blast
    with l i empty None show ?thesis by (intro low) auto
  qed
qed


lemma live_low:
  assumes "fa_shape fa" "i < region_count fa"
  shows "live_regions (fa\<lparr>low_cursor := (low_cursor fa)[i := c], used_memory := u\<rparr>) =
    (live_regions fa)[i := (fst (live_regions fa ! i), c)]"
  using assms by (intro nth_equalityI) (auto simp: live_regions_def fa_shape_def nth_list_update)

lemma list_ok_cursor:
  assumes "list_ok l" "i < length l" "region_ok (fst (l ! i), c)"
  shows "list_ok (l[i := (fst (l ! i), c)])"
proof -
  have "sorted_wrt region_disjoint (l[i := (fst (l ! i), c)])"
    using assms by (auto simp: list_ok_def sorted_wrt_iff_nth_less nth_list_update region_disjoint_def)
  then show ?thesis
    using assms set_update_subset_insert [of l i "(fst (l ! i), c)"] unfolding list_ok_def by blast
qed

lemma page_succ:
  assumes "page_in p r" "r_hi r \<le> PHYS_LIMIT" "4096 dvd unat p"
  shows "unat (p + PAGE_SIZE) = unat p + 4096" and "unat p + 4096 \<le> PHYS_LIMIT"
    and "4096 dvd unat (p + PAGE_SIZE)"
proof -
  show le: "unat p + 4096 \<le> PHYS_LIMIT" using assms by (auto simp: page_in_def)
  then show e: "unat (p + PAGE_SIZE) = unat p + 4096"
    by (intro page_end) (simp add: PHYS_LIMIT_def)
  show "4096 dvd unat (p + PAGE_SIZE)" using assms(3) by (simp add: e)
qed

lemma servable_page:
  assumes "fa_wf fa" "servable fa p"
  shows "unat (p + PAGE_SIZE) = unat p + 4096" and "unat p + 4096 \<le> PHYS_LIMIT"
    and "4096 dvd unat p" and "4096 dvd unat (p + PAGE_SIZE)"
proof -
  obtain rc where rc: "rc \<in> set (live_regions fa)" "page_in p (fst rc)" and al: "4096 dvd unat p"
    using assms(2) by (auto simp: servable_def)
  with assms(1) have "r_hi (fst rc) \<le> PHYS_LIMIT" by (auto simp: fa_wf_def list_ok_def region_ok_def)
  from page_succ [OF rc(2) this al] al
  show "unat (p + PAGE_SIZE) = unat p + 4096" "unat p + 4096 \<le> PHYS_LIMIT"
    "4096 dvd unat p" "4096 dvd unat (p + PAGE_SIZE)" by simp_all
qed

text \<open>
  An allocation keeps the state well-formed, makes no page servable that was not, and its
  page is no longer servable when it did not come from the stack.
\<close>

lemma alloc_high:
  fixes u :: u64
  assumes wf: "fa_wf fa" and p: "servable fa p" "next_free fa \<le> p"
  defines "fa' \<equiv> fa\<lparr>next_free := p + PAGE_SIZE, used_memory := u\<rparr>"
  shows "fa_wf fa'" and "servable fa' q \<Longrightarrow> servable fa q \<and> q \<noteq> p"
proof -
  note pg = servable_page [OF wf p(1)]
  have live: "live_regions fa' = live_regions fa" by (simp add: fa'_def live_regions_def)
  have le: "next_free fa \<le> p + PAGE_SIZE" "p < p + PAGE_SIZE"
    using p(2) pg(1) by (simp_all add: word_le_nat_alt word_less_nat_alt)
  then show "fa_wf fa'"
    using wf pg by (auto simp: fa_wf_def live fa_shape_def) (auto simp: fa'_def)
  have fl: "fa_floor fa \<le> p" using wf p(2) by (auto simp: fa_wf_def)
  show "servable fa' q \<Longrightarrow> servable fa q \<and> q \<noteq> p"
    using le fl unfolding servable_def live by (auto simp: fa'_def)
qed

lemma alloc_low:
  fixes u :: u64
  assumes wf: "fa_wf fa" and lp: "low_pass (live_regions fa) (fa_floor fa) = Some (i, p)"
  defines "fa' \<equiv> fa\<lparr>low_cursor := (low_cursor fa)[i := p + PAGE_SIZE], used_memory := u\<rparr>"
  shows "fa_wf fa'" and "servable fa' q \<Longrightarrow> servable fa q \<and> q \<noteq> p"
proof -
  let ?l = "live_regions fa" and ?rc = "live_regions fa ! i"
  have ok: "\<forall>rc \<in> set ?l. region_ok rc" and sw: "sorted_wrt region_disjoint ?l"
    using wf by (simp_all add: fa_wf_def list_ok_def)
  from low_pass_Some [OF ok lp] have i: "i < length ?l" and p: "4096 dvd unat p" "p < fa_floor fa"
    "page_in p (fst ?rc)" "snd ?rc \<le> p" by auto
  have rok: "r_hi (fst ?rc) \<le> PHYS_LIMIT" using ok i by (auto simp: region_ok_def)
  note pg = page_succ [OF p(3) rok p(1)]
  have live: "live_regions fa' = ?l[i := (fst ?rc, p + PAGE_SIZE)]"
    unfolding fa'_def using wf i by (intro live_low) (simp_all add: fa_wf_def)
  have "list_ok (live_regions fa')"
    unfolding live using wf i rok pg by (intro list_ok_cursor) (simp_all add: fa_wf_def region_ok_def)
  then show "fa_wf fa'" using wf by (auto simp: fa_wf_def fa_shape_def fa'_def)
  assume "servable fa' q"
  then obtain k where k: "k < length ?l" and q: "4096 dvd unat q" "page_in q (fst (live_regions fa' ! k))"
    and n: "next_free fa \<le> q \<or> q < fa_floor fa \<and> snd (live_regions fa' ! k) \<le> q"
    by (auto simp: servable_def in_set_conv_nth live) (auto simp: fa'_def)
  have le: "p < p + PAGE_SIZE" using pg by (simp add: word_less_nat_alt)
  have nf: "fa_floor fa \<le> next_free fa" using wf by (simp add: fa_wf_def)
  show "servable fa q \<and> q \<noteq> p"
  proof (cases "k = i")
    case True
    with k q n i p(4) le have "page_in q (fst ?rc)" "next_free fa \<le> q \<or> q < fa_floor fa \<and> snd ?rc \<le> q"
      and "q \<noteq> p" using p(2) nf by (auto simp: live)
    with i q show ?thesis unfolding servable_def using nth_mem [OF i] by blast
  next
    case False
    then have "region_disjoint (?l ! k) ?rc"
      using sorted_wrt_nth_less [OF sw, of k i] sorted_wrt_nth_less [OF sw, of i k] i k
        region_disjoint_sym [of "?l ! k" ?rc] by linarith
    then have "q \<noteq> p" using q(2) p(3) False by (auto simp: live region_disjoint_def page_in_def)
    moreover have "servable fa q"
      using q n k False nth_mem [OF k] unfolding servable_def by (auto simp: live simp del: nth_mem)
    ultimately show ?thesis by simp
  qed
qed

end
