(* ===== verification/FrameSafety.thy ===== *)
theory FrameSafety
  imports FrameAlloc
begin

text \<open>
  What the frame allocator guarantees over its whole life: the plan that \<open>global_init\<close> computes
  from the boot memory map, the states reachable from it by allocating, freeing, clearing and
  reserving, and the count of frames it can still serve. The interface other components use is
  the locale \<open>frame_source\<close>, interpreted at the end on the allocator of \<open>FrameAlloc\<close>.
\<close>

section \<open>The plan\<close>

text \<open>\<open>covered fa p\<close>: the page \<open>p\<close> lies in a region of the list. Whatever is servable is covered.\<close>

definition covered :: "frame_allocator \<Rightarrow> u64 \<Rightarrow> bool" where
  "covered fa p \<longleftrightarrow> 4096 dvd unat p \<and> (\<exists>rc \<in> set (live_regions fa). page_in p (fst rc))"

lemma servable_covered: "servable fa p \<Longrightarrow> covered fa p"
  by (auto simp: servable_def covered_def)

text \<open>\<open>avoids p b len\<close>: the page \<open>p\<close> has no byte in the range that reserving \<open>(b, len)\<close> covers.\<close>

definition avoids :: "u64 \<Rightarrow> u64 \<Rightarrow> u64 \<Rightarrow> bool" where
  "avoids p b len \<longleftrightarrow> unat p + 4096 \<le> res_lo b \<or> res_hi b len \<le> unat p"

lemma reserve_region_covered:
  assumes wf: "fa_wf fa" and ok: "res_ok b len" and len: "len \<noteq> 0"
    and p: "covered (reserve_region fa b len) p"
  shows "covered fa p" and "avoids p b len"
proof -
  note spec = reserve_region_spec [OF wf ok len]
  obtain rc where rc: "rc \<in> set (live_regions (reserve_region fa b len))" "page_in p (fst rc)"
    and al: "4096 dvd unat p"
    using p by (auto simp: covered_def)
  obtain rc0 where rc0: "rc0 \<in> set (live_regions fa)" "within rc rc0"
    using spec(2) rc by blast
  then have "page_in p (fst rc0)" using rc by (auto simp: page_in_def within_def)
  with rc0 al show "covered fa p" unfolding covered_def by blast
  show "avoids p b len"
    using spec(2) rc by (auto simp: clear_of_def page_in_def avoids_def)
qed

text \<open>The first loop of the plan: the non-empty usable entries, as many as the table holds.\<close>

definition usable_entries :: "memory_region list \<Rightarrow> memory_region list" where
  "usable_entries mm = filter (\<lambda>e. is_usable e \<and> mm_length e > 0) mm"

definition entry_region :: "memory_region \<Rightarrow> mem_region \<times> u64" where
  "entry_region e = (\<lparr>r_base = mm_base e, r_length = mm_length e\<rparr>, 0)"

lemma live_add_usable:
  assumes "fa_shape fa" "low_cursor fa = replicate MAX_REGIONS 0"
  shows "live_regions (add_usable fa e) =
      take MAX_REGIONS (live_regions fa @ map entry_region (usable_entries [e]))"
    and "fa_shape (add_usable fa e)" and "low_cursor (add_usable fa e) = low_cursor fa"
    and "next_free (add_usable fa e) = next_free fa" "fa_floor (add_usable fa e) = fa_floor fa"
    and "free_stack (add_usable fa e) = free_stack fa"
proof -
  have "live_regions (add_usable fa e) = live_regions fa @ map entry_region (usable_entries [e])"
    if "region_count fa < MAX_REGIONS"
    using assms that
    by (intro nth_equalityI)
      (auto simp: live_regions_def fa_shape_def add_usable_def usable_entries_def entry_region_def
        nth_append nth_list_update)
  moreover have "add_usable fa e = fa" if "\<not> region_count fa < MAX_REGIONS"
    using that by (simp add: add_usable_def)
  ultimately show "live_regions (add_usable fa e) =
      take MAX_REGIONS (live_regions fa @ map entry_region (usable_entries [e]))"
    using assms by (cases "region_count fa < MAX_REGIONS") (auto simp: fa_shape_def usable_entries_def)
qed (use assms in \<open>auto simp: add_usable_def fa_shape_def\<close>)

lemma take_take_append: "take n (take n xs @ ys) = take n (xs @ ys)"
  by (simp add: min_def)

lemma live_add_all:
  assumes "fa_shape fa" "low_cursor fa = replicate MAX_REGIONS 0"
  shows "live_regions (fold (\<lambda>e a. add_usable a e) mm fa) =
      take MAX_REGIONS (live_regions fa @ map entry_region (usable_entries mm)) \<and>
    fa_shape (fold (\<lambda>e a. add_usable a e) mm fa) \<and>
    next_free (fold (\<lambda>e a. add_usable a e) mm fa) = next_free fa \<and>
    fa_floor (fold (\<lambda>e a. add_usable a e) mm fa) = fa_floor fa \<and>
    free_stack (fold (\<lambda>e a. add_usable a e) mm fa) = free_stack fa"
  using assms
proof (induction mm arbitrary: fa)
  case Nil
  then show ?case by (simp add: usable_entries_def fa_shape_def)
next
  case (Cons e mm)
  note add = live_add_usable [OF Cons.prems, of e]
  have "usable_entries (e # mm) = usable_entries [e] @ usable_entries mm"
    by (simp add: usable_entries_def)
  then show ?case
    using Cons.IH [OF add(2)] add Cons.prems(2)
    by (simp only: fold_Cons comp_apply map_append append_assoc [symmetric] take_take_append)
qed

text \<open>The plan's assumptions on the boot protocol's map and on the image and stack addresses.\<close>

definition entry_disjoint :: "memory_region \<Rightarrow> memory_region \<Rightarrow> bool" where
  "entry_disjoint a b \<longleftrightarrow> unat (mm_base a) + unat (mm_length a) \<le> unat (mm_base b) \<or>
     unat (mm_base b) + unat (mm_length b) \<le> unat (mm_base a)"

definition plan_ok :: "alloc_plan_input \<Rightarrow> bool" where
  "plan_ok input \<longleftrightarrow>
     (\<forall>e \<in> set (memory_map input). unat (mm_base e) + unat (mm_length e) \<le> PHYS_LIMIT) \<and>
     sorted_wrt entry_disjoint (usable_entries (memory_map input)) \<and>
     (unat (kernel_image_end input) \<le> PHYS_LIMIT \<or> PHYS_LIMIT < res_lo (kernel_image_base input)) \<and>
     unat (boot_stack_phys input) + 4096 \<le> PHYS_LIMIT"

lemma plan_usable:
  fixes fa :: frame_allocator
  assumes "plan_ok input"
  defines "fa1 \<equiv> fold (\<lambda>e a. add_usable a e) (memory_map input) (reset fa)"
  shows "fa_wf fa1" and "free_stack fa1 = []"
    and "covered fa1 p \<Longrightarrow> \<exists>e \<in> set (memory_map input). is_usable e \<and>
      unat (mm_base e) \<le> unat p \<and> unat p + 4096 \<le> unat (mm_base e) + unat (mm_length e)"
proof -
  let ?us = "usable_entries (memory_map input)"
  have "fa_shape (reset fa)" "low_cursor (reset fa) = replicate MAX_REGIONS 0"
    "live_regions (reset fa) = []" by (simp_all add: reset_def fa_shape_def live_regions_def)
  with live_add_all [of "reset fa" "memory_map input"]
  have live: "live_regions fa1 = take MAX_REGIONS (map entry_region ?us)"
    and shape: "fa_shape fa1" and nf: "next_free fa1 = 0" "fa_floor fa1 = 0" "free_stack fa1 = []"
    by (simp_all add: fa1_def reset_def)
  have us: "\<forall>e \<in> set ?us. unat (mm_base e) + unat (mm_length e) \<le> PHYS_LIMIT"
    using assms(1) by (auto simp: plan_ok_def usable_entries_def)
  have "sorted_wrt region_disjoint (map entry_region ?us)"
    using assms(1) by (simp add: plan_ok_def sorted_wrt_map region_disjoint_def entry_region_def
        entry_disjoint_def [abs_def])
  moreover have "\<forall>rc \<in> set (map entry_region ?us). region_ok rc"
    using us by (auto simp: region_ok_def entry_region_def)
  ultimately have "list_ok (live_regions fa1)"
    using set_take_subset [of MAX_REGIONS "map entry_region ?us"] unfolding live list_ok_def
    by (blast intro: sorted_wrt_take)
  with shape nf show "fa_wf fa1" by (simp add: fa_wf_def)
  show "free_stack fa1 = []" by (rule nf)
  assume "covered fa1 p"
  then obtain rc where "rc \<in> set (map entry_region ?us)" "page_in p (fst rc)"
    unfolding covered_def live by (blast dest: in_set_takeD)
  then obtain e where "e \<in> set ?us" "page_in p (fst (entry_region e))" unfolding set_map by blast
  then show "\<exists>e \<in> set (memory_map input). is_usable e \<and>
      unat (mm_base e) \<le> unat p \<and> unat p + 4096 \<le> unat (mm_base e) + unat (mm_length e)"
    by (intro bexI [of _ e]) (simp_all add: page_in_def entry_region_def usable_entries_def)
qed

text \<open>What a phase of the plan that only reserves promises: \<open>R\<close> is what its pages satisfy after it.\<close>

definition shrinks :: "(u64 \<Rightarrow> bool) \<Rightarrow> frame_allocator \<Rightarrow> frame_allocator \<Rightarrow> bool" where
  "shrinks R fa fa' \<longleftrightarrow> fa_wf fa' \<and> free_stack fa' = free_stack fa \<and>
     (\<forall>p. covered fa' p \<longrightarrow> covered fa p \<and> R p)"

lemma shrinks_refl: "fa_wf fa \<Longrightarrow> shrinks (\<lambda>p. True) fa fa"
  by (simp add: shrinks_def)

lemma shrinks_trans: "shrinks R fa fa1 \<Longrightarrow> shrinks S fa1 fa2 \<Longrightarrow> shrinks (\<lambda>p. R p \<and> S p) fa fa2"
  by (simp add: shrinks_def)

lemma shrinks_mono: "shrinks R fa fa' \<Longrightarrow> (\<And>p. R p \<Longrightarrow> S p) \<Longrightarrow> shrinks S fa fa'"
  by (auto simp: shrinks_def)

lemma shrinks_reserve:
  "fa_wf fa \<Longrightarrow> res_ok b len \<Longrightarrow> len \<noteq> 0 \<Longrightarrow> shrinks (\<lambda>p. avoids p b len) fa (reserve_region fa b len)"
  by (auto simp: shrinks_def reserve_region_spec reserve_region_covered)

lemma shrinks_entry:
  assumes "fa_wf fa" "unat (mm_base e) + unat (mm_length e) \<le> PHYS_LIMIT"
  shows "shrinks (\<lambda>p. mm_kind e \<noteq> 0 \<and> mm_length e > 0 \<longrightarrow> avoids p (mm_base e) (mm_length e)) fa (reserve_entry fa e)"
  using assms shrinks_reserve [of fa "mm_base e" "mm_length e"] shrinks_refl [of fa]
  by (auto simp: reserve_entry_def res_ok_def elim: shrinks_mono)

lemma shrinks_entries:
  assumes "fa_wf fa" "\<forall>e \<in> set mm. unat (mm_base e) + unat (mm_length e) \<le> PHYS_LIMIT"
  shows "shrinks (\<lambda>p. \<forall>e \<in> set mm. mm_kind e \<noteq> 0 \<and> mm_length e > 0 \<longrightarrow> avoids p (mm_base e) (mm_length e))
    fa (fold (\<lambda>e a. reserve_entry a e) mm fa)"
  using assms
proof (induction mm arbitrary: fa)
  case Nil
  then show ?case by (simp add: shrinks_refl)
next
  case (Cons e mm)
  have step: "shrinks (\<lambda>p. mm_kind e \<noteq> 0 \<and> mm_length e > 0 \<longrightarrow> avoids p (mm_base e) (mm_length e)) fa (reserve_entry fa e)"
    using Cons.prems by (intro shrinks_entry) auto
  then have "fa_wf (reserve_entry fa e)" by (simp add: shrinks_def)
  with Cons have "shrinks (\<lambda>p. \<forall>e \<in> set mm. mm_kind e \<noteq> 0 \<and> mm_length e > 0 \<longrightarrow> avoids p (mm_base e) (mm_length e))
      (reserve_entry fa e) (fold (\<lambda>e a. reserve_entry a e) mm (reserve_entry fa e))" by simp
  from shrinks_trans [OF step this] show ?case by (auto elim: shrinks_mono)
qed

text \<open>A range above physical memory is skipped by every iteration: the call changes nothing.\<close>

lemma reserve_loop_above:
  assumes "\<forall>r \<in> set (take (region_count fa) (regions fa)). r_hi r \<le> PHYS_LIMIT" "PHYS_LIMIT \<le> unat base"
    and "region_count fa \<le> length (regions fa)"
  shows "reserve_loop base end i fa = fa"
  using assms
proof (induction base "end" i fa rule: reserve_loop.induct)
  case (1 base "end" i fa)
  show ?case
  proof (cases "i < region_count fa")
    case True
    with "1.prems"(3) nth_mem [of i "take (region_count fa) (regions fa)"]
    have "regions fa ! i \<in> set (take (region_count fa) (regions fa))" by simp
    with "1.prems"(1) have "r_hi (regions fa ! i) \<le> PHYS_LIMIT" by blast
    then have "r_base (regions fa ! i) + r_length (regions fa ! i) \<le> base"
      using "1.prems"(2) by (simp add: word_le_nat_alt unat_region_end)
    then have body: "reserve_body base end i fa = (i + 1, fa)" by (simp add: reserve_body_def)
    with "1.IH" [OF True body [symmetric]] "1.prems" True show ?thesis
      by (subst reserve_loop.simps) simp
  next
    case False
    then show ?thesis by (subst reserve_loop.simps) simp
  qed
qed

lemma reserve_region_above:
  assumes "fa_wf fa" "PHYS_LIMIT < res_lo b"
  shows "reserve_region fa b len = fa"
proof -
  have "reserve_loop (page_down b) e 0 fa = fa" for e
    using assms regions_ok [OF assms(1)]
    by (intro reserve_loop_above) (simp_all add: res_lo_def unat_page_down fa_wf_def fa_shape_def)
  moreover have "\<not> next_free fa \<ge> page_down b"
    using assms by (simp add: fa_wf_def word_le_nat_alt unat_page_down res_lo_def)
  ultimately show ?thesis by (simp add: reserve_region_def Let_def page_round_down_eq)
qed

lemma covered_bound: "fa_wf fa \<Longrightarrow> covered fa p \<Longrightarrow> unat p + 4096 \<le> PHYS_LIMIT"
  by (force simp: covered_def page_in_def fa_wf_def list_ok_def region_ok_def)

lemma shrinks_image:
  assumes wf: "fa_wf fa"
    and "unat (kernel_image_end input) \<le> PHYS_LIMIT \<or> PHYS_LIMIT < res_lo (kernel_image_base input)"
  shows "shrinks (\<lambda>p. kernel_image_base input < kernel_image_end input \<longrightarrow>
      avoids p (kernel_image_base input) (kernel_image_end input - kernel_image_base input)) fa (reserve_image input fa)"
proof (cases "kernel_image_base input < kernel_image_end input")
  case img: True
  let ?b = "kernel_image_base input" and ?len = "kernel_image_end input - kernel_image_base input"
  have eq: "reserve_image input fa = reserve_region fa ?b ?len" using img by (simp add: reserve_image_def)
  from assms(2) show ?thesis
  proof
    assume "unat (kernel_image_end input) \<le> PHYS_LIMIT"
    then have "res_ok ?b ?len"
      using img by (auto simp: res_ok_def unat_sub_no_wrap word_less_nat_alt)
    moreover have "?len \<noteq> 0" using img by auto
    ultimately show ?thesis
      using shrinks_reserve [OF wf] img by (auto simp: eq)
  next
    assume hi: "PHYS_LIMIT < res_lo ?b"
    then show ?thesis
      using wf covered_bound [OF wf] by (fastforce simp: eq reserve_region_above shrinks_def avoids_def)
  qed
next
  case False
  with assms show ?thesis by (auto simp: reserve_image_def shrinks_def)
qed

definition stack_base_of :: "u64 \<Rightarrow> u64" where
  "stack_base_of sp = saturating_sub sp BOOT_STACK_RESERVE AND NOT PAGE_SIZE"

lemma unat_stack_base_le: "unat (stack_base_of sp) \<le> unat sp - 524288"
proof -
  have "stack_base_of sp \<le> saturating_sub sp BOOT_STACK_RESERVE"
    unfolding stack_base_of_def by (rule word_and_le2)
  then show ?thesis by (simp add: word_le_nat_alt unat_saturating_sub BOOT_STACK_RESERVE_def)
qed

lemma shrinks_stack:
  assumes "fa_wf fa" "unat (boot_stack_phys input) + 4096 \<le> PHYS_LIMIT"
  shows "shrinks (\<lambda>p. boot_stack_phys input \<noteq> 0 \<longrightarrow>
      avoids p (stack_base_of (boot_stack_phys input)) (BOOT_STACK_RESERVE + PAGE_SIZE)) fa (reserve_stack input fa)"
proof (cases "boot_stack_phys input = 0")
  case True
  with assms show ?thesis by (auto simp: reserve_stack_def shrinks_def)
next
  case False
  have "res_ok (stack_base_of (boot_stack_phys input)) (BOOT_STACK_RESERVE + PAGE_SIZE)"
    using assms(2) unat_stack_base_le [of "boot_stack_phys input"]
    by (simp add: res_ok_def BOOT_STACK_RESERVE_def PAGE_SIZE_def PHYS_LIMIT_def)
  moreover have "BOOT_STACK_RESERVE + PAGE_SIZE \<noteq> 0" by (simp add: BOOT_STACK_RESERVE_def PAGE_SIZE_def)
  ultimately show ?thesis
    using shrinks_reserve [OF assms(1)] False
    by (auto simp: reserve_stack_def stack_base_of_def [symmetric])
qed

lemma bump_start_bound:
  assumes "fa_wf fa" "plan_ok input"
  shows "unat (bump_start input fa) \<le> PHYS_LIMIT"
proof (cases "region_count fa > 0")
  case True
  then have "(regions fa ! 0, low_cursor fa ! 0) \<in> set (live_regions fa)"
    using assms(1) nth_live [of fa 0] nth_mem [of 0 "live_regions fa"] by (simp add: fa_wf_def)
  then have hi: "r_hi (regions fa ! 0) \<le> PHYS_LIMIT"
    using assms(1) by (auto simp: fa_wf_def list_ok_def region_ok_def)
  have "unat (fold (\<lambda>entry start. if mm_kind entry = 6 \<and> mm_base entry + mm_length entry > start
      then mm_base entry + mm_length entry else start) mm start) \<le> PHYS_LIMIT"
    if "unat start \<le> PHYS_LIMIT" "\<forall>e \<in> set mm. unat (mm_base e) + unat (mm_length e) \<le> PHYS_LIMIT" for mm start
    using that by (induction mm arbitrary: start) (simp_all add: unat_add_no_wrap PHYS_LIMIT_def)
  moreover have "unat (if r_base (regions fa ! 0) < 0x1000000 \<and>
      r_base (regions fa ! 0) + r_length (regions fa ! 0) > 0x1000000
      then 0x1000000 else r_base (regions fa ! 0)) \<le> PHYS_LIMIT"
    using hi by (simp add: PHYS_LIMIT_def)
  ultimately show ?thesis
    using True assms(2) by (auto simp only: bump_start_def Let_def plan_ok_def if_True)
next
  case False
  then show ?thesis by (simp add: bump_start_def)
qed

text \<open>The plan's result: a well-formed allocator with an empty stack, whose pages all lie in
  usable memory and off every range the plan must protect.\<close>

definition plan_page :: "alloc_plan_input \<Rightarrow> u64 \<Rightarrow> bool" where
  "plan_page input p \<longleftrightarrow> 4096 dvd unat p \<and>
     (\<exists>e \<in> set (memory_map input). is_usable e \<and> unat (mm_base e) \<le> unat p \<and>
        unat p + 4096 \<le> unat (mm_base e) + unat (mm_length e)) \<and>
     (\<forall>e \<in> set (memory_map input). mm_kind e \<noteq> 0 \<and> mm_length e > 0 \<longrightarrow>
        avoids p (mm_base e) (mm_length e)) \<and>
     (kernel_image_base input < kernel_image_end input \<longrightarrow>
        avoids p (kernel_image_base input) (kernel_image_end input - kernel_image_base input)) \<and>
     (boot_stack_phys input \<noteq> 0 \<longrightarrow>
        avoids p (stack_base_of (boot_stack_phys input)) (BOOT_STACK_RESERVE + PAGE_SIZE))"

lemma plan_regions_spec:
  assumes ok: "plan_ok input"
  shows "fa_wf (plan_regions fa input)" and "free_stack (plan_regions fa input) = []"
    and "next_free (plan_regions fa input) = fa_floor (plan_regions fa input)"
    and "covered (plan_regions fa input) p \<Longrightarrow> plan_page input p"
proof -
  define fa1 where "fa1 = fold (\<lambda>e a. add_usable a e) (memory_map input) (reset fa)"
  define fa2 where "fa2 = fold (\<lambda>e a. reserve_entry a e) (memory_map input) fa1"
  define fa3 where "fa3 = reserve_stack input (reserve_image input fa2)"
  define fa4 where "fa4 = plan_regions fa input"
  note us = plan_usable [OF ok, of fa, folded fa1_def]
  have lim: "\<forall>e \<in> set (memory_map input). unat (mm_base e) + unat (mm_length e) \<le> PHYS_LIMIT"
    "unat (kernel_image_end input) \<le> PHYS_LIMIT \<or> PHYS_LIMIT < res_lo (kernel_image_base input)"
    "unat (boot_stack_phys input) + 4096 \<le> PHYS_LIMIT"
    using ok by (simp_all add: plan_ok_def)
  note s2 = shrinks_entries [OF us(1) lim(1), folded fa2_def]
  then have "fa_wf fa2" by (simp add: shrinks_def)
  note s3 = shrinks_image [OF this lim(2)]
  then have "fa_wf (reserve_image input fa2)" by (simp add: shrinks_def)
  note s4 = shrinks_stack [OF this lim(3), folded fa3_def]
  note s = shrinks_trans [OF shrinks_trans [OF s2 s3] s4]
  then have wf3: "fa_wf fa3" by (simp add: shrinks_def)
  have eq: "fa4 = fa3\<lparr>total_memory := fold (\<lambda>r t. t + r_length r) (regions fa3) 0,
      next_free := bump_start input fa3, fa_floor := bump_start input fa3\<rparr>"
    by (simp add: fa4_def plan_regions_def Let_def fa3_def fa2_def fa1_def)
  then have live: "live_regions fa4 = live_regions fa3" "fa_shape fa4 = fa_shape fa3"
    by (simp_all add: live_regions_def fa_shape_def)
  show "fa_wf (plan_regions fa input)"
    using wf3 bump_start_bound [OF wf3 ok] live eq unfolding fa4_def [symmetric] by (simp add: fa_wf_def)
  show "free_stack (plan_regions fa input) = []"
    using s us(2) unfolding fa4_def [symmetric] by (simp add: eq shrinks_def)
  show "next_free (plan_regions fa input) = fa_floor (plan_regions fa input)"
    unfolding fa4_def [symmetric] by (simp add: eq)
  assume "covered (plan_regions fa input) p"
  then have "covered fa3 p" unfolding fa4_def [symmetric] by (simp add: covered_def live)
  with s us(3) [of p] show "plan_page input p"
    unfolding plan_page_def shrinks_def by (auto simp: covered_def)
qed


section \<open>Reachable states\<close>

text \<open>
  The kernel's use of the allocator as a step relation. The second component is the set of
  frames that are handed out: a frame is freed only while it is in that set. Reserving takes
  an in-range argument.
\<close>

inductive fa_step :: "frame_allocator \<times> u64 set \<Rightarrow> frame_allocator \<times> u64 set \<Rightarrow> bool" where
  step_alloc: "alloc_frame fa = (Some p, fa') \<Longrightarrow> fa_step (fa, L) (fa', insert p L)"
| step_full: "alloc_frame fa = (None, fa') \<Longrightarrow> fa_step (fa, L) (fa', L)"
| step_free: "p \<in> L \<Longrightarrow> fa_step (fa, L) (free_frame fa p, L - {p})"
| step_clear: "fa_step (fa, L) (clear_free_stack fa, L)"
| step_reserve: "res_ok b len \<Longrightarrow> fa_step (fa, L) (reserve_region fa b len, L)"

inductive fa_reach :: "alloc_plan_input \<Rightarrow> frame_allocator \<times> u64 set \<Rightarrow> bool" for input where
  reach_plan: "fa_reach input (plan_regions fa input, {})"
| reach_step: "fa_reach input s \<Longrightarrow> fa_step s s' \<Longrightarrow> fa_reach input s'"

inductive_cases fa_stepE: "fa_step (fa, L) s'"

text \<open>
  The invariant: recycled frames are distinct and not handed out, no frame that is handed out
  or recycled can be served again, and every page the allocator knows satisfies \<open>P\<close>.
\<close>

definition fa_inv :: "(u64 \<Rightarrow> bool) \<Rightarrow> frame_allocator \<times> u64 set \<Rightarrow> bool" where
  "fa_inv P = (\<lambda>(fa, L). fa_wf fa \<and> distinct (free_stack fa) \<and> set (free_stack fa) \<inter> L = {} \<and>
     (\<forall>p \<in> L \<union> set (free_stack fa). \<not> servable fa p \<and> P p) \<and> (\<forall>p. covered fa p \<longrightarrow> P p))"

lemma alloc_frame_inv:
  assumes inv: "fa_inv P (fa, L)" and alloc: "alloc_frame fa = (Some p, fa')"
  shows "fa_inv P (fa', insert p L)" and "p \<notin> L" and "P p"
proof -
  have wf: "fa_wf fa" using inv by (simp add: fa_inv_def)
  have new: "fa_inv P (fa', insert p L) \<and> p \<notin> L \<and> P p"
    if "fa_wf fa'" "\<forall>q. servable fa' q \<longrightarrow> servable fa q \<and> q \<noteq> p" "\<forall>q. covered fa' q \<longrightarrow> covered fa q"
      "free_stack fa' = []" "free_stack fa = []" "servable fa p"
    using inv that servable_covered [of fa p] by (auto simp: fa_inv_def)
  from wf alloc have "fa_inv P (fa', insert p L) \<and> p \<notin> L \<and> P p"
  proof (cases rule: alloc_frame_cases)
    case recycled
    then have "fa_wf fa'" "\<And>q. servable fa' q = servable fa q" "\<And>q. covered fa' q = covered fa q"
      using wf by (simp_all add: fa_wf_def servable_def covered_def)
    then show ?thesis using inv recycled(1) by (auto simp: fa_inv_def)
  next
    case high
    then show ?thesis
      using alloc_high [OF wf high(3,4)] by (intro new) (auto simp: covered_def live_regions_def)
  next
    case (low i)
    have "i < length (live_regions fa)"
      using low_pass_Some [of "live_regions fa"] wf low(6) by (auto simp: fa_wf_def list_ok_def)
    then have "map fst (live_regions fa') = map fst (live_regions fa)"
      using wf by (simp add: low(7) live_low fa_wf_def map_update list_update_same_conv)
    then have "fst ` set (live_regions fa') = fst ` set (live_regions fa)"
      unfolding set_map [symmetric] by simp
    then have "covered fa' q = covered fa q" for q
      unfolding covered_def bex_simps(7) [symmetric] by simp
    then show ?thesis
      using alloc_low [OF wf low(6)] low by (intro new) auto
  qed
  then show "fa_inv P (fa', insert p L)" "p \<notin> L" "P p" by simp_all
qed

lemma free_frame_inv:
  assumes "fa_inv P (fa, L)" "p \<in> L"
  shows "fa_inv P (free_frame fa p, L - {p})"
proof -
  have "live_regions (free_frame fa p) = live_regions fa" "next_free (free_frame fa p) = next_free fa"
    "fa_floor (free_frame fa p) = fa_floor fa" "fa_shape (free_frame fa p) = fa_shape fa"
    by (simp_all add: free_frame_def live_regions_def fa_shape_def)
  then have "fa_wf (free_frame fa p) = fa_wf fa" "\<And>q. servable (free_frame fa p) q = servable fa q"
    "\<And>q. covered (free_frame fa p) q = covered fa q"
    by (simp_all add: fa_wf_def servable_def covered_def)
  moreover have "free_stack (free_frame fa p) \<in> {free_stack fa, free_stack fa @ [p]}"
    by (simp add: free_frame_def)
  ultimately show ?thesis using assms by (auto simp: fa_inv_def)
qed

lemma fa_step_inv:
  assumes "fa_inv P s" "fa_step s s'"
  shows "fa_inv P s'"
  using assms(2,1)
proof cases
  case (step_alloc fa p fa' L)
  with assms(1) show ?thesis by (simp add: alloc_frame_inv)
next
  case (step_full fa fa' L)
  then have "fa' = fa" by (auto simp: alloc_frame_def split: if_splits option.splits)
  with step_full assms(1) show ?thesis by simp
next
  case (step_free p L fa)
  with assms(1) show ?thesis by (simp add: free_frame_inv)
next
  case (step_clear fa L)
  with assms(1) show ?thesis
    by (auto simp: fa_inv_def clear_free_stack_def fa_wf_def fa_shape_def servable_def covered_def live_regions_def)
next
  case (step_reserve b len fa L)
  show ?thesis
  proof (cases "len = 0")
    case True
    with step_reserve assms(1) show ?thesis by (simp add: reserve_region_def)
  next
    case False
    have wf: "fa_wf fa" using step_reserve assms(1) by (simp add: fa_inv_def)
    note spec = reserve_region_spec [OF wf step_reserve(3) False]
    have "\<forall>p. (servable (reserve_region fa b len) p \<longrightarrow> servable fa p) \<and>
        (covered (reserve_region fa b len) p \<longrightarrow> covered fa p)"
      using reserve_region_servable(1) [OF wf step_reserve(3) False]
        reserve_region_covered(1) [OF wf step_reserve(3) False] by blast
    with step_reserve assms(1) spec(1,5) show ?thesis
      unfolding fa_inv_def by (simp only: split_conv) blast
  qed
qed

lemma fa_reach_inv:
  assumes "fa_reach input s" "plan_ok input"
  shows "fa_inv (plan_page input) s"
  using assms
proof (induction rule: fa_reach.induct)
  case (reach_plan fa)
  then show ?case by (simp add: fa_inv_def plan_regions_spec)
next
  case (reach_step s s')
  then show ?case by (blast intro: fa_step_inv)
qed

section \<open>Counting\<close>

lemma high_frames_step:
  assumes "r_hi r \<le> PHYS_LIMIT" "unat nf \<le> PHYS_LIMIT"
  defines "p \<equiv> page_up (max (r_base r) nf)"
  shows "high_pass_frames_from (r # rs) nf =
    (if unat p + 4096 \<le> r_hi r then (r_hi r - unat p) div 4096 +
       high_pass_frames_from rs (word_of_nat (unat p + (r_hi r - unat p) div 4096 * 4096))
     else high_pass_frames_from rs nf)"
proof -
  note c = high_candidate [OF assms(1,2), folded p_def]
  have e: "unat (r_base r + r_length r) = r_hi r" by (rule unat_region_end [OF assms(1)])
  have "unat ((r_base r + r_length r - p) div PAGE_SIZE) = (r_hi r - unat p) div 4096"
    if "unat p + 4096 \<le> r_hi r"
    using that e by (simp add: unat_div unat_sub_no_wrap word_le_nat_alt)
  moreover have "(r_base r + r_length r - p) div PAGE_SIZE = word_of_nat ((r_hi r - unat p) div 4096)"
    if "unat p + 4096 \<le> r_hi r"
    by (simp flip: calculation [OF that])
  ultimately show ?thesis
    unfolding high_pass_frames_from.simps page_round_up_eq p_def [symmetric] Let_def c(2)
    by (simp add: PAGE_SIZE_def algebra_simps)
qed

lemma high_pass_None:
  assumes "\<forall>r \<in> set rs. r_hi r \<le> PHYS_LIMIT" "unat nf \<le> PHYS_LIMIT"
  shows "high_pass rs nf = None \<longleftrightarrow> high_pass_frames_from rs nf = 0"
  using assms
proof (induction rs)
  case Nil
  then show ?case by simp
next
  case (Cons r rs)
  have r: "r_hi r \<le> PHYS_LIMIT" using Cons.prems by simp
  note c = high_candidate(2) [OF r Cons.prems(2)] and f = high_frames_step [OF r Cons.prems(2), of rs]
  show ?case
  proof (cases "unat (page_up (max (r_base r) nf)) + 4096 \<le> r_hi r")
    case True
    then have "0 < (r_hi r - unat (page_up (max (r_base r) nf))) div 4096"
      by (simp add: div_greater_zero_iff)
    with True show ?thesis unfolding f high_pass_step Let_def c by simp
  next
    case False
    with Cons show ?thesis unfolding f high_pass_step Let_def c by simp
  qed
qed

lemma high_pass_mono:
  assumes "r_hi r \<le> PHYS_LIMIT" "unat nf' \<le> PHYS_LIMIT" "nf \<le> nf'"
    and "\<not> unat (page_up (max (r_base r) nf)) + 4096 \<le> r_hi r"
  shows "\<not> unat (page_up (max (r_base r) nf')) + 4096 \<le> r_hi r"
proof -
  have le: "unat nf \<le> unat nf'" using assms(3) by (simp add: word_le_nat_alt)
  then have "unat nf \<le> PHYS_LIMIT" using assms(2) by simp
  note c = high_candidate(1) [OF assms(1) this] high_candidate(1) [OF assms(1,2)]
  have "unat (page_up (max (r_base r) nf)) \<le> unat (page_up (max (r_base r) nf'))"
    unfolding c using le by (intro mult_le_mono div_le_mono) auto
  with assms(4) show ?thesis by simp
qed


lemma page_up_aligned: "unat x < 2 ^ 63 \<Longrightarrow> 4096 dvd unat x \<Longrightarrow> page_up x = x"
  using ceil_page_le_iff [of "unat x" "unat x"] le_ceil_page [of "unat x"]
  by (simp add: word_unat_eq_iff unat_page_up)

lemma high_pass_count:
  assumes "\<forall>r \<in> set rs. r_hi r \<le> PHYS_LIMIT" "unat nf \<le> PHYS_LIMIT" "high_pass rs nf = Some p"
  shows "high_pass_frames_from rs nf = Suc (high_pass_frames_from rs (p + PAGE_SIZE))"
  using assms
proof (induction rs)
  case Nil
  then show ?case by simp
next
  case (Cons r rs)
  let ?p = "page_up (max (r_base r) nf)"
  have r: "r_hi r \<le> PHYS_LIMIT" and nf: "unat nf \<le> PHYS_LIMIT" using Cons.prems by simp_all
  note c = high_candidate [OF r nf] and f = high_frames_step [OF r nf, of rs]
  obtain r' where "r' \<in> set (r # rs)" "page_in p r'" "4096 dvd unat p" "nf \<le> p"
    using high_pass_Some [OF Cons.prems] by blast
  then have ps: "unat (p + PAGE_SIZE) = unat p + 4096" "unat (p + PAGE_SIZE) \<le> PHYS_LIMIT"
    "4096 dvd unat (p + PAGE_SIZE)" "nf \<le> p + PAGE_SIZE"
    using page_succ [of p r'] Cons.prems(1) by (auto simp: word_le_nat_alt)
  show ?case
  proof (cases "unat ?p + 4096 \<le> r_hi r")
    case True
    then have p: "p = ?p" using Cons.prems(3) unfolding high_pass_step Let_def c(2) by simp
    have "r_base r \<le> p + PAGE_SIZE" using c(3) ps(1) p by (simp add: word_le_nat_alt)
    then have nxt: "page_up (max (r_base r) (p + PAGE_SIZE)) = p + PAGE_SIZE"
      using ps by (simp add: max_def page_up_aligned PHYS_LIMIT_def)
    note f' = high_frames_step [OF r ps(2), of rs, unfolded nxt ps(1)]
    show ?thesis
    proof (cases "unat p + 8192 \<le> r_hi r")
      case more: True
      then obtain d where d: "r_hi r = unat p + 8192 + d" using le_Suc_ex by blast
      have "(8192 + d) div 4096 = Suc (Suc (d div 4096))" "(4096 + d) div 4096 = Suc (d div 4096)"
        by simp_all
      then show ?thesis
        unfolding f f' p [symmetric] d by (simp add: add.assoc)
    next
      case last: False
      then have "(r_hi r - unat p) div 4096 = 1" using True p by (intro div_nat_eqI) simp_all
      with last True show ?thesis
        unfolding f f' p [symmetric] by (simp add: PAGE_SIZE_def)
    qed
  next
    case False
    with high_pass_mono [OF r ps(2) ps(4)] have "\<not> unat (page_up (max (r_base r) (p + PAGE_SIZE))) + 4096 \<le> r_hi r"
      by simp
    with False Cons show ?thesis
      unfolding f high_frames_step [OF r ps(2), of rs] high_pass_step Let_def c(2) by simp
  qed
qed


lemma aligned_less: "4096 dvd (a :: nat) \<Longrightarrow> 4096 dvd b \<Longrightarrow> a < b \<longleftrightarrow> a + 4096 \<le> b"
  by (elim dvdE) (simp, linarith)

lemma low_region_frames:
  assumes ok: "region_ok (r, c)" and flr: "4096 dvd unat flr"
  defines "p \<equiv> max c (page_up (r_base r))"
  shows "low_pass_region_frames flr (r, c) =
      (if unat p + 4096 \<le> min (r_hi r) (unat flr) then (min (r_hi r) (unat flr) - unat p) div 4096 else 0)"
    and "p + PAGE_SIZE \<le> r_base r + r_length r \<and> p < flr \<longleftrightarrow> unat p + 4096 \<le> min (r_hi r) (unat flr)"
proof -
  note k = low_candidate [OF ok, folded p_def]
  define m where "m = min (r_hi r) (unat flr)"
  have m: "unat (min (r_base r + r_length r) flr) = m"
    using ok by (simp add: m_def unat_min_word unat_region_end region_ok_def)
  show fit: "p + PAGE_SIZE \<le> r_base r + r_length r \<and> p < flr \<longleftrightarrow> unat p + 4096 \<le> min (r_hi r) (unat flr)"
    using k(2) aligned_less [OF k(5) flr] by (simp add: word_less_nat_alt)
  let ?last = "page_down (min (r_base r + r_length r) flr - PAGE_SIZE)"
  have last: "unat ?last = (m - 4096) div 4096 * 4096" if "4096 \<le> m"
    using that m by (simp add: unat_page_down unat_sub_no_wrap word_le_nat_alt)
  have ge: "p \<le> ?last \<longleftrightarrow> unat p + 4096 \<le> m" if "4096 \<le> m"
    using last [OF that] le_floor_page_iff [OF k(5), of "m - 4096"] that by (simp add: word_le_nat_alt le_diff_conv2)
  have "unat ((?last - p) div PAGE_SIZE) + 1 = (m - unat p) div 4096" if le: "unat p + 4096 \<le> m"
  proof -
    from le have m4: "4096 \<le> m" by simp
    obtain q where q: "unat p = 4096 * q" using k(5) by (rule dvdE)
    obtain d where d: "m = 4096 * q + 4096 + d" using le q le_Suc_ex by metis
    have "unat (?last - p) = (m - 4096) div 4096 * 4096 - unat p"
      using ge [OF m4] le last [OF m4] by (simp add: unat_sub_no_wrap word_le_nat_alt)
    then show ?thesis by (simp add: unat_div q d)
  qed
  then show "low_pass_region_frames flr (r, c) =
      (if unat p + 4096 \<le> min (r_hi r) (unat flr) then (min (r_hi r) (unat flr) - unat p) div 4096 else 0)"
    using ge m unfolding m_def [symmetric] low_pass_region_frames_def Let_def split_conv
      page_round_down_eq page_up_of_down p_def [symmetric]
    by (auto simp: word_less_nat_alt)
qed


lemma pages_step:
  assumes "p + 4096 \<le> (m :: nat)"
  shows "(m - p) div 4096 = Suc (if p + 4096 + 4096 \<le> m then (m - (p + 4096)) div 4096 else 0)"
proof -
  obtain d where "m = p + 4096 + d" using assms le_Suc_ex by blast
  moreover have "(4096 + d) div 4096 = Suc (d div 4096)" by simp
  ultimately show ?thesis by simp
qed

lemma low_region_next:
  assumes ok: "region_ok (r, c)" and flr: "4096 dvd unat flr"
  defines "p \<equiv> max c (page_up (r_base r))"
  assumes fit: "p + PAGE_SIZE \<le> r_base r + r_length r \<and> p < flr"
  shows "low_pass_region_frames flr (r, c) = Suc (low_pass_region_frames flr (r, p + PAGE_SIZE))"
proof -
  note k = low_candidate [OF ok, folded p_def]
  have le: "unat p + 4096 \<le> min (r_hi r) (unat flr)"
    using fit low_region_frames(2) [OF ok flr, folded p_def] by simp
  then have "page_in p r" using k(4) by (simp add: page_in_def word_le_nat_alt)
  with page_succ [of p r] k(5) ok
  have s: "unat (p + PAGE_SIZE) = unat p + 4096" "region_ok (r, p + PAGE_SIZE)"
    by (auto simp: region_ok_def)
  have "page_up (r_base r) \<le> p" by (simp add: p_def)
  then have "page_up (r_base r) \<le> p + PAGE_SIZE" using s(1) by (simp add: word_le_nat_alt)
  then have m: "max (p + PAGE_SIZE) (page_up (r_base r)) = p + PAGE_SIZE" by (simp add: max_def)
  show ?thesis
    unfolding low_region_frames(1) [OF ok flr, folded p_def]
      low_region_frames(1) [OF s(2) flr, unfolded m s(1)]
    using pages_step [OF le] le by simp
qed

lemma low_fit:
  assumes "region_ok (r, c)" "4096 dvd unat flr"
  shows "low_pass_region_frames flr (r, c) = 0 \<longleftrightarrow>
    \<not> (max c (page_up (r_base r)) + PAGE_SIZE \<le> r_base r + r_length r \<and> max c (page_up (r_base r)) < flr)"
  unfolding low_region_frames [OF assms] by (auto simp: div_eq_0_iff)

lemma low_pass_None:
  assumes "\<forall>rc \<in> set l. region_ok rc" "4096 dvd unat flr"
  shows "low_pass l flr = None \<longleftrightarrow> sum_list (map (low_pass_region_frames flr) l) = 0"
  using assms(1)
proof (induction l)
  case (Cons rc l)
  obtain r c where rc: "rc = (r, c)" by (cases rc)
  with Cons have ok: "region_ok (r, c)" by simp
  show ?case
    using Cons low_fit [OF ok assms(2)] unfolding rc low_pass_step Let_def by auto
qed simp

lemma low_pass_count:
  assumes "\<forall>rc \<in> set l. region_ok rc" "4096 dvd unat flr" "low_pass l flr = Some (i, p)"
  shows "sum_list (map (low_pass_region_frames flr) l) =
      Suc (sum_list (map (low_pass_region_frames flr) (l[i := (fst (l ! i), p + PAGE_SIZE)])))"
  using assms(1,3)
proof (induction l arbitrary: i)
  case (Cons rc l)
  obtain r c where rc: "rc = (r, c)" by (cases rc)
  with Cons have ok: "region_ok (r, c)" by simp
  let ?p = "max c (page_up (r_base r))"
  show ?case
  proof (cases "?p + PAGE_SIZE \<le> r_base r + r_length r \<and> ?p < flr")
    case True
    then have p: "p = ?p" "i = 0" using Cons.prems unfolding rc low_pass_step Let_def by auto
    with low_region_next [OF ok assms(2) True] show ?thesis by (simp add: rc)
  next
    case False
    then obtain j where j: "i = Suc j" "low_pass l flr = Some (j, p)"
      using Cons.prems unfolding rc low_pass_step Let_def by auto
    with Cons show ?thesis by (simp add: rc)
  qed
qed simp

text \<open>With an aligned floor, the reported count is what the allocator can still serve.\<close>

lemma free_frames_count_step:
  assumes wf: "fa_wf fa" and flr: "4096 dvd unat (fa_floor fa)"
  shows "alloc_frame fa = (Some p, fa') \<Longrightarrow> free_frames_count fa = Suc (free_frames_count fa')"
    and "alloc_frame fa = (None, fa') \<Longrightarrow> free_frames_count fa = 0"
proof -
  have nf: "unat (next_free fa) \<le> PHYS_LIMIT" and ok: "\<forall>rc \<in> set (live_regions fa). region_ok rc"
    using wf by (simp_all add: fa_wf_def list_ok_def)
  note hn = high_pass_None [OF regions_ok [OF wf] nf]
  show "alloc_frame fa = (None, fa') \<Longrightarrow> free_frames_count fa = 0"
    using hn low_pass_None [OF ok flr]
    by (auto simp: alloc_frame_def free_frames_count_def high_pass_frames_def low_pass_frames_def
        split: if_splits option.splits)
  assume "alloc_frame fa = (Some p, fa')"
  with wf show "free_frames_count fa = Suc (free_frames_count fa')"
  proof (cases rule: alloc_frame_cases)
    case recycled
    then have "fa' = fa\<lparr>free_stack := butlast (free_stack fa), used_memory := used_memory fa + PAGE_SIZE\<rparr>"
      using \<open>alloc_frame fa = (Some p, fa')\<close> by (simp add: alloc_frame_def)
    then have "regions fa' = regions fa" "region_count fa' = region_count fa" by simp_all
    with recycled show ?thesis
      by (simp add: free_frames_count_def high_pass_frames_def low_pass_frames_def)
  next
    case high
    from high_pass_count [OF regions_ok [OF wf] nf high(5)] show ?thesis
      by (simp add: high(1,6) free_frames_count_def high_pass_frames_def low_pass_frames_def live_regions_def)
  next
    case (low i)
    have i: "i < region_count fa"
      using low_pass_Some [OF ok low(6)] wf by (simp add: fa_wf_def)
    have live: "live_regions fa' = (live_regions fa)[i := (fst (live_regions fa ! i), p + PAGE_SIZE)]"
      unfolding low(7) using wf i by (intro live_low) (simp_all add: fa_wf_def)
    from low_pass_count [OF ok flr low(6)] hn low(1,5) show ?thesis
      by (simp add: free_frames_count_def high_pass_frames_def low_pass_frames_def live) (simp add: low(7))
  qed
qed

section \<open>The interface: a source of frames\<close>

text \<open>At most \<open>n\<close> allocations in a row, until one fails.\<close>

fun drain :: "('s \<Rightarrow> 'p option \<times> 's) \<Rightarrow> nat \<Rightarrow> 's \<Rightarrow> 'p list \<times> 's" where
  "drain alloc 0 s = ([], s)"
| "drain alloc (Suc n) s =
     (case alloc s of
        (None, s') \<Rightarrow> ([], s')
      | (Some p, s') \<Rightarrow> (case drain alloc n s' of (ps, s'') \<Rightarrow> (p # ps, s'')))"

text \<open>
  What a client of the allocator relies on. \<open>inv s L\<close> says that the frames of \<open>L\<close> are in the
  client's hands: an allocation returns a page-aligned frame that is in nobody's hands, and
  only a frame that is in the client's hands is given back.
\<close>

locale frame_source =
  fixes alloc :: "'s \<Rightarrow> u64 option \<times> 's"
    and free :: "'s \<Rightarrow> u64 \<Rightarrow> 's"
    and inv :: "'s \<Rightarrow> u64 set \<Rightarrow> bool"
  assumes alloc_fresh: "inv s L \<Longrightarrow> alloc s = (Some p, s') \<Longrightarrow>
      p \<notin> L \<and> 4096 dvd unat p \<and> unat p + 4096 \<le> PHYS_LIMIT \<and> inv s' (insert p L)"
    and alloc_full: "inv s L \<Longrightarrow> alloc s = (None, s') \<Longrightarrow> inv s' L"
    and free_owned: "inv s L \<Longrightarrow> p \<in> L \<Longrightarrow> inv (free s p) (L - {p})"
begin

lemma drain_fresh:
  assumes "inv s L" "drain alloc n s = (ps, s')"
  shows "distinct ps \<and> set ps \<inter> L = {} \<and> inv s' (set ps \<union> L)"
  using assms
proof (induction n arbitrary: s L ps)
  case 0
  then show ?case by simp
next
  case (Suc n)
  obtain r s1 where a: "alloc s = (r, s1)" by fastforce
  show ?case
  proof (cases r)
    case None
    with Suc.prems a alloc_full show ?thesis by auto
  next
    case (Some p)
    obtain qs where q: "drain alloc n s1 = (qs, s')" "ps = p # qs"
      using Suc.prems(2) a Some by (auto split: prod.splits)
    have "p \<notin> L" "inv s1 (insert p L)" using alloc_fresh Suc.prems(1) a Some by blast+
    with Suc.IH [OF _ q(1)] q(2) show ?thesis by fastforce
  qed
qed

end

definition source_inv :: "frame_allocator \<Rightarrow> u64 set \<Rightarrow> bool" where
  "source_inv fa L \<longleftrightarrow> fa_inv (\<lambda>p. 4096 dvd unat p \<and> unat p + 4096 \<le> PHYS_LIMIT) (fa, L)"

lemma alloc_frame_full: "alloc_frame fa = (None, fa') \<Longrightarrow> fa' = fa"
  by (auto simp: alloc_frame_def split: if_splits option.splits)

interpretation frames: frame_source alloc_frame free_frame source_inv
proof
  fix s s' L p
  show "source_inv s L \<Longrightarrow> alloc_frame s = (Some p, s') \<Longrightarrow>
      p \<notin> L \<and> 4096 dvd unat p \<and> unat p + 4096 \<le> PHYS_LIMIT \<and> source_inv s' (insert p L)"
    unfolding source_inv_def by (blast dest: alloc_frame_inv)
  show "source_inv s L \<Longrightarrow> alloc_frame s = (None, s') \<Longrightarrow> source_inv s' L"
    by (auto dest: alloc_frame_full)
  show "source_inv s L \<Longrightarrow> p \<in> L \<Longrightarrow> source_inv (free_frame s p) (L - {p})"
    unfolding source_inv_def by (rule free_frame_inv)
qed

section \<open>Properties\<close>


definition sample_input :: alloc_plan_input where
  "sample_input = \<lparr>memory_map = [\<lparr>mm_base = 0x1000, mm_length = 0x5000, mm_kind = 0\<rparr>,
       \<lparr>mm_base = 0x3000, mm_length = 0x1000, mm_kind = 6\<rparr>],
     kernel_image_base = 0, kernel_image_end = 0, boot_stack_phys = 0\<rparr>"



lemma plan_page_bounds:
  "plan_ok input \<Longrightarrow> plan_page input p \<Longrightarrow> 4096 dvd unat p \<and> unat p + 4096 \<le> PHYS_LIMIT"
  by (force simp: plan_page_def plan_ok_def)

lemma fa_reach_source:
  assumes "plan_ok input" "fa_reach input (fa, L)"
  shows "source_inv fa L"
  using fa_reach_inv [OF assms(2,1)] plan_page_bounds [OF assms(1)]
  by (auto simp: source_inv_def fa_inv_def)

lemma drain_count:
  assumes "source_inv fa L" "4096 dvd unat (fa_floor fa)"
  shows "length (fst (drain alloc_frame n fa)) = min n (free_frames_count fa)"
  using assms
proof (induction n arbitrary: fa L)
  case 0
  then show ?case by simp
next
  case (Suc n)
  obtain r fa1 where a: "alloc_frame fa = (r, fa1)" by fastforce
  have wf: "fa_wf fa" using Suc.prems by (simp add: source_inv_def fa_inv_def)
  note cnt = free_frames_count_step [OF wf Suc.prems(2)]
  show ?case
  proof (cases r)
    case None
    with a cnt(2) show ?thesis by simp
  next
    case (Some p)
    with a frames.alloc_fresh [OF Suc.prems(1)] have "source_inv fa1 (insert p L)" by blast
    moreover have "fa_floor fa1 = fa_floor fa"
      using a Some by (auto simp: alloc_frame_def split: if_splits option.splits)
    ultimately have "length (fst (drain alloc_frame n fa1)) = min n (free_frames_count fa1)"
      using Suc by simp
    with a Some cnt(1) [of p fa1] show ?thesis by (auto split: prod.splits)
  qed
qed




lemma sample_wf: "fa_wf (plan_regions empty_allocator sample_input)"
  by (rule plan_regions_spec) (simp add: plan_ok_def sample_input_def usable_entries_def is_usable_def PHYS_LIMIT_def)


text \<open>
  C4: Freeing is the inverse of allocating: a freed frame is the next one served, freeing it
  twice is the same as freeing it once, and the state is otherwise as before.
\<close>

theorem free_then_alloc:
  assumes "p \<noteq> 0" "4096 dvd unat p" "p \<notin> set (free_stack fa)" "length (free_stack fa) < FREE_STACK_SIZE"
    and "PAGE_SIZE \<le> used_memory fa"
  shows "alloc_frame (free_frame fa p) = (Some p, fa) \<and> free_frame (free_frame fa p) p = free_frame fa p"
proof -
  have "unat (take_bit 12 p) = take_bit 12 (unat p)" by (rule unsigned_take_bit_eq)
  also have "\<dots> = 0" using assms(2) by (simp add: take_bit_eq_mod)
  finally have "take_bit 12 p = 0" by (simp only: unat_eq_zero)
  then have "p AND (PAGE_SIZE - 1) = 0"
    by (simp only: take_bit_eq_mask) (simp add: PAGE_SIZE_def mask_numeral)
  then show ?thesis
    using assms by (simp add: free_frame_def alloc_frame_def saturating_sub_def not_less)
qed

theorem free_then_alloc_witness:
  "alloc_frame (free_frame (empty_allocator\<lparr>used_memory := 0x2000\<rparr>) 0x5000) =
     (Some 0x5000, empty_allocator\<lparr>used_memory := 0x2000\<rparr>)"
  using free_then_alloc [of "0x5000" "empty_allocator\<lparr>used_memory := 0x2000\<rparr>"]
  by (simp add: empty_allocator_def FREE_STACK_SIZE_def PAGE_SIZE_def)

section \<open>Where the code falls short of its comments\<close>

lemma unat_and_not_ge: "unat (x :: 'a::len word) \<le> unat (x AND NOT m) + unat m"
proof -
  have "(x AND m) OR (x AND NOT m) = x" by (rule bit_word_eqI) (auto simp: bit_simps)
  moreover have "(x AND m) + (x AND NOT m) = (x AND m) OR (x AND NOT m)"
    by (rule disjunctive_add) (auto simp: bit_simps)
  ultimately have "unat x = unat ((x AND m) + (x AND NOT m))" by simp
  also have "\<dots> \<le> unat (x AND m) + unat (x AND NOT m)" by (simp add: unat_word_ariths)
  finally show ?thesis
    using word_and_le1 [of x m] by (simp add: word_le_nat_alt)
qed

text \<open>
  C5: The linker symbols \<^verbatim>\<open>__kernel_start\<close> and \<^verbatim>\<open>__kernel_end\<close> are virtual addresses of the top
  2 GiB, and \<open>reserve_kernel_image\<close> takes them for physical ones: on every well-formed allocator
  the call changes nothing, so the pages of the image are not reserved by it.
\<close>

theorem kernel_image_not_reserved:
  assumes "fa_wf fa" "0xffffffff80000000 \<le> kernel_start"
  shows "reserve_kernel_image kernel_start kernel_end fa = fa"
proof -
  define start where "start = kernel_start AND NOT PAGE_SIZE"
  have "unat kernel_start \<le> unat start + 4096"
    using unat_and_not_ge [of kernel_start PAGE_SIZE] by (simp add: start_def)
  then have "0xffffffff80000000 - 0x1000 \<le> start"
    using assms(2) by (simp add: word_le_nat_alt)
  then have "PHYS_LIMIT < res_lo start"
    by (simp add: word_le_nat_alt res_lo_def PHYS_LIMIT_def)
  from reserve_region_above [OF assms(1) this] show ?thesis
    by (simp add: reserve_kernel_image_def Let_def start_def)
qed

theorem kernel_image_not_reserved_witness:
  "reserve_kernel_image 0xffffffff80000200 0xffffffff80600000 (plan_regions empty_allocator sample_input) =
     plan_regions empty_allocator sample_input"
  using kernel_image_not_reserved [OF sample_wf, of "0xffffffff80000200"] by simp

text \<open>
  \<open>reserve_region\<close> rounds the base down before it adds the length, so an unaligned range
  loses its tail: of the bytes \<open>0x1800 .. 0x2800\<close>, the page at \<open>0x2000\<close> stays servable.
\<close>

lemma reserve_region_unaligned_tail:
  "fst (drain alloc_frame 9 (reserve_region (plan_regions empty_allocator sample_input) 0x1800 0x1000))
     = [0x4000, 0x5000, 0x2000]"
  by code_simp

text \<open>
  The plan aligns the boot stack with \<^verbatim>\<open>& !PAGE_SIZE\<close>, which clears bit 12 only. With the stack
  pointer at \<open>0x91800\<close> the page that holds it is the first frame to be served.
\<close>

lemma boot_stack_page_servable:
  "fst (alloc_frame (plan_regions empty_allocator
      \<lparr>memory_map = [\<lparr>mm_base = 0x10000, mm_length = 0x82000, mm_kind = 0\<rparr>],
       kernel_image_base = 0, kernel_image_end = 0, boot_stack_phys = 0x91800\<rparr>)) = Some 0x91000"
  by code_simp

text \<open>
  With an unaligned floor the low pass serves a page that the count does not include.
\<close>

lemma free_frames_count_short:
  "let fa = plan_regions empty_allocator
      \<lparr>memory_map = [\<lparr>mm_base = 0x1000, mm_length = 0x3000, mm_kind = 0\<rparr>,
          \<lparr>mm_base = 0x2800, mm_length = 0, mm_kind = 6\<rparr>],
       kernel_image_base = 0, kernel_image_end = 0, boot_stack_phys = 0\<rparr>
   in free_frames_count fa = 2 \<and> fst (drain alloc_frame 9 fa) = [0x3000, 0x1000, 0x2000]"
  by code_simp

end
