(* ===== verification/Vma.thy ===== *)
theory Vma
  imports Prelude
begin

text \<open>
  Virtual memory areas, \<^verbatim>\<open>crates/zenus-mem/src/vma.rs\<close>: the table of mappings of one address
  space, with insertion, lookup, removal with compaction, removal of everything that overlaps
  a range, and the search for a free range. The table is the array \<open>vt_regions\<close> of \<open>MAX_VMAS\<close>
  entries with its \<open>vt_count\<close>; \<open>vmas\<close> is its abstraction, the list of the live entries.
\<close>

section \<open>State and operations\<close>

definition MAX_VMAS :: nat where
  "MAX_VMAS = 64"

definition MAX_MAPPING_SIZE :: u64 where
  "MAX_MAPPING_SIZE = 0x7F0000000000"

definition PROT_WRITE :: u64 where
  "PROT_WRITE = 2"

definition PROT_EXEC :: u64 where
  "PROT_EXEC = 4"

definition PAGE_USER :: u64 where
  "PAGE_USER = push_bit 2 1"

definition PAGE_WRITABLE :: u64 where
  "PAGE_WRITABLE = push_bit 1 1"

definition PAGE_NO_EXECUTE :: u64 where
  "PAGE_NO_EXECUTE = push_bit 63 1"

record vma_region =
  vr_start :: u64
  vr_end :: u64
  vr_prot :: u64
  vr_flags :: u64
  vr_file_offset :: u64
  vr_inode :: u64
  vr_valid :: bool

definition new_region :: vma_region where
  "new_region = \<lparr>vr_start = 0, vr_end = 0, vr_prot = 0, vr_flags = 0, vr_file_offset = 0,
     vr_inode = 0, vr_valid = False\<rparr>"

definition vma_contains :: "vma_region \<Rightarrow> u64 \<Rightarrow> bool" where
  "vma_contains r addr \<longleftrightarrow> vr_valid r \<and> addr \<ge> vr_start r \<and> addr < vr_end r"

definition page_aligned_start :: "vma_region \<Rightarrow> u64" where
  "page_aligned_start r = vr_start r AND NOT 0xFFF"

definition page_aligned_end :: "vma_region \<Rightarrow> u64" where
  "page_aligned_end r = saturating_add (vr_end r) 0xFFF AND NOT 0xFFF"

definition to_page_flags :: "vma_region \<Rightarrow> u64" where
  "to_page_flags r =
     (let flags = PAGE_USER;
          flags = (if vr_prot r AND PROT_WRITE \<noteq> 0 then flags OR PAGE_WRITABLE else flags)
      in if vr_prot r AND PROT_EXEC = 0 then flags OR PAGE_NO_EXECUTE else flags)"

record vma_table =
  vt_regions :: "vma_region list"
  vt_count :: nat
  mmap_base :: u64

definition new_table :: vma_table where
  "new_table = \<lparr>vt_regions = replicate MAX_VMAS new_region, vt_count = 0,
     mmap_base = 0x200000000000\<rparr>"

definition vmas :: "vma_table \<Rightarrow> vma_region list" where
  "vmas t = take (vt_count t) (vt_regions t)"

definition overlaps :: "u64 \<Rightarrow> u64 \<Rightarrow> vma_region \<Rightarrow> bool" where
  "overlaps start end r \<longleftrightarrow> vr_valid r \<and> start < vr_end r \<and> end > vr_start r"

definition vma_insert :: "vma_table \<Rightarrow> u64 \<Rightarrow> u64 \<Rightarrow> u64 \<Rightarrow> u64 \<Rightarrow> nat option \<times> vma_table" where
  "vma_insert t start end prot flags =
     (if end \<le> start then (None, t)
      else if end > MAX_MAPPING_SIZE then (None, t)
      else if list_ex (overlaps start end) (vmas t) then (None, t)
      else if vt_count t \<ge> MAX_VMAS then (None, t)
      else (Some (vt_count t),
        t\<lparr>vt_regions := (vt_regions t)[vt_count t :=
             \<lparr>vr_start = start, vr_end = end, vr_prot = prot, vr_flags = flags,
              vr_file_offset = 0, vr_inode = 0, vr_valid = True\<rparr>],
          vt_count := vt_count t + 1\<rparr>))"

definition vma_find :: "vma_table \<Rightarrow> u64 \<Rightarrow> nat option" where
  "vma_find t addr = find_index (\<lambda>r. vma_contains r addr) (vmas t)"

definition vma_find_exact :: "vma_table \<Rightarrow> u64 \<Rightarrow> u64 \<Rightarrow> nat option" where
  "vma_find_exact t start end =
     find_index (\<lambda>r. vr_valid r \<and> vr_start r = start \<and> vr_end r = end) (vmas t)"

text \<open>The compaction loop of \<open>remove\<close>: \<^verbatim>\<open>for read in 0..self.count\<close>.\<close>

function compact :: "nat \<Rightarrow> nat \<Rightarrow> nat \<Rightarrow> vma_region list \<Rightarrow> nat \<times> vma_region list" where
  "compact rd wr count rs =
     (if rd < count then
        if vr_valid (rs ! rd) then
          compact (Suc rd) (wr + 1) count (if wr \<noteq> rd then rs[wr := rs ! rd] else rs)
        else compact (Suc rd) wr count rs
      else (wr, rs))"
  by pat_completeness auto
termination by (relation "measure (\<lambda>(rd, wr, count, rs). count - rd)") auto

declare compact.simps [simp del]

definition vma_remove :: "vma_table \<Rightarrow> nat \<Rightarrow> bool \<times> vma_table" where
  "vma_remove t idx =
     (if idx \<ge> vt_count t then (False, t)
      else (case compact 0 0 (vt_count t) ((vt_regions t)[idx := (vt_regions t ! idx)\<lparr>vr_valid := False\<rparr>]) of
        (wr, rs) \<Rightarrow> (True, t\<lparr>vt_regions := rs, vt_count := wr\<rparr>)))"

text \<open>
  The loop of \<open>remove_overlapping\<close>; its argument is the number of passes that the guard
  \<^verbatim>\<open>guard > MAX_VMAS\<close> still allows.
\<close>

fun remove_overlapping_loop :: "nat \<Rightarrow> vma_table \<Rightarrow> u64 \<Rightarrow> u64 \<Rightarrow> nat \<times> vma_table" where
  "remove_overlapping_loop 0 t start end = (0, t)"
| "remove_overlapping_loop (Suc guard) t start end =
     (case find_index (\<lambda>r. vr_valid r \<and> vr_start r < end \<and> vr_end r > start) (vmas t) of
        None \<Rightarrow> (0, t)
      | Some idx \<Rightarrow>
          (case remove_overlapping_loop guard (snd (vma_remove t idx)) start end of
             (removed, t') \<Rightarrow> (removed + 1, t')))"

definition remove_overlapping :: "vma_table \<Rightarrow> u64 \<Rightarrow> u64 \<Rightarrow> nat \<times> vma_table" where
  "remove_overlapping t start end = remove_overlapping_loop (MAX_VMAS + 1) t start end"

text \<open>The search (\<open>sz\<close> is the source's \<open>size\<close>): one pass of the loop per unit of the first argument (\<^verbatim>\<open>for _ in 0..=MAX_VMAS\<close>).\<close>

fun find_free_loop :: "nat \<Rightarrow> vma_table \<Rightarrow> u64 \<Rightarrow> u64 \<Rightarrow> u64 option" where
  "find_free_loop 0 t sz candidate = None"
| "find_free_loop (Suc n) t sz candidate =
     (case checked_add candidate sz of
        None \<Rightarrow> None
      | Some end \<Rightarrow>
          if end \<le> MAX_MAPPING_SIZE then
            (case find (overlaps candidate (saturating_add candidate sz)) (vmas t) of
               None \<Rightarrow> Some candidate
             | Some region \<Rightarrow>
                 (let aligned = vr_end region AND NOT 0xFFF
                  in if aligned \<le> candidate then None else find_free_loop n t sz aligned))
          else None)"

definition find_free :: "vma_table \<Rightarrow> u64 \<Rightarrow> u64 \<Rightarrow> u64 option" where
  "find_free t sz hint =
     (if sz = 0 \<or> sz > MAX_MAPPING_SIZE then None
      else find_free_loop (MAX_VMAS + 1) t sz (hint AND NOT 0xFFF))"

section \<open>The table as a list of disjoint regions\<close>

definition vma_disjoint :: "vma_region \<Rightarrow> vma_region \<Rightarrow> bool" where
  "vma_disjoint a b \<longleftrightarrow> vr_end a \<le> vr_start b \<or> vr_end b \<le> vr_start a"

definition vma_ok :: "vma_region \<Rightarrow> bool" where
  "vma_ok r \<longleftrightarrow> vr_valid r \<and> vr_start r < vr_end r \<and> vr_end r \<le> MAX_MAPPING_SIZE"

definition vma_wf :: "vma_table \<Rightarrow> bool" where
  "vma_wf t \<longleftrightarrow> length (vt_regions t) = MAX_VMAS \<and> vt_count t \<le> MAX_VMAS \<and>
     (\<forall>r \<in> set (vmas t). vma_ok r) \<and> sorted_wrt vma_disjoint (vmas t)"

lemma compact_take:
  assumes "wr \<le> rd" "rd \<le> count" "count \<le> length rs"
    and "take wr rs = filter vr_valid (take rd orig)" "drop rd rs = drop rd orig"
    and "length rs = length orig" "compact rd wr count rs = (n, rs')"
  shows "take n rs' = filter vr_valid (take count orig) \<and> length rs' = length orig \<and> n \<le> count"
  using assms
proof (induction rd wr count rs rule: compact.induct)
  case (1 rd wr count rs)
  note prems = "1.prems"
  show ?case
  proof (cases "rd < count")
    case False
    then have "(n, rs') = (wr, rs)" using prems(7) by (simp add: compact.simps [of rd wr])
    with False prems show ?thesis by simp
  next
    case True
    then have rl: "rd < length orig" using prems by simp
    have nth: "rs ! rd = orig ! rd"
      using prems(5) rl prems(6) by (metis hd_drop_conv_nth)
    have dr: "drop (Suc rd) rs = drop (Suc rd) orig"
      using prems(5) by (metis drop_Suc tl_drop)
    have tk: "take (Suc rd) orig = take rd orig @ [orig ! rd]"
      using rl by (simp add: take_Suc_conv_app_nth)
    show ?thesis
    proof (cases "vr_valid (rs ! rd)")
      case v: True
      let ?rs = "if wr \<noteq> rd then rs[wr := rs ! rd] else rs"
      have "take (wr + 1) ?rs = take wr rs @ [rs ! rd]"
        using prems rl by (auto simp: take_Suc_conv_app_nth)
      then have "take (wr + 1) ?rs = filter vr_valid (take (Suc rd) orig)"
        using prems(4) v nth tk by simp
      moreover have "drop (Suc rd) ?rs = drop (Suc rd) orig"
        using dr prems(1) by simp
      ultimately show ?thesis
        using "1.IH"(1) [OF True v] prems True v by (simp add: compact.simps [of rd wr])
    next
      case nv: False
      have "take wr rs = filter vr_valid (take (Suc rd) orig)"
        using prems(4) nv nth tk by simp
      then show ?thesis
        using "1.IH"(2) [OF True nv] prems True nv dr by (simp add: compact.simps [of rd wr])
    qed
  qed
qed


lemma vmas_remove:
  assumes wf: "vma_wf t" and i: "idx < vt_count t"
  shows "vmas (snd (vma_remove t idx)) = take idx (vmas t) @ drop (Suc idx) (vmas t)"
    and "length (vt_regions (snd (vma_remove t idx))) = MAX_VMAS"
    and "vt_count (snd (vma_remove t idx)) = vt_count t - 1" and "fst (vma_remove t idx)"
proof -
  let ?rs = "(vt_regions t)[idx := (vt_regions t ! idx)\<lparr>vr_valid := False\<rparr>]"
  obtain n rs' where c: "compact 0 0 (vt_count t) ?rs = (n, rs')" by fastforce
  have len: "vt_count t \<le> length (vt_regions t)" using wf by (simp add: vma_wf_def)
  then have n: "take n rs' = filter vr_valid (take (vt_count t) ?rs)" "length rs' = length (vt_regions t)"
    "n \<le> vt_count t"
    using compact_take [OF _ _ _ _ _ _ c, of ?rs] by simp_all
  have "take (vt_count t) ?rs = (vmas t)[idx := (vmas t ! idx)\<lparr>vr_valid := False\<rparr>]"
    using i by (simp add: vmas_def take_update_swap)
  also have "\<dots> = take idx (vmas t) @ (vmas t ! idx)\<lparr>vr_valid := False\<rparr> # drop (Suc idx) (vmas t)"
    using i len by (simp add: upd_conv_take_nth_drop vmas_def)
  finally have "filter vr_valid (take (vt_count t) ?rs) =
      filter vr_valid (take idx (vmas t)) @ filter vr_valid (drop (Suc idx) (vmas t))" by simp
  also have "\<dots> = take idx (vmas t) @ drop (Suc idx) (vmas t)"
    using wf by (intro arg_cong2 [where f = append] filter_True)
      (auto simp: vma_wf_def vma_ok_def dest: in_set_takeD in_set_dropD)
  finally have eq: "take n rs' = take idx (vmas t) @ drop (Suc idx) (vmas t)" using n(1) by simp
  have s: "snd (vma_remove t idx) = t\<lparr>vt_regions := rs', vt_count := n\<rparr>" "fst (vma_remove t idx)"
    using i by (simp_all add: vma_remove_def c)
  show "vmas (snd (vma_remove t idx)) = take idx (vmas t) @ drop (Suc idx) (vmas t)"
    using eq by (simp add: s vmas_def)
  show "length (vt_regions (snd (vma_remove t idx))) = MAX_VMAS" using n wf by (simp add: s vma_wf_def)
  have "length (take n rs') = n" using n(2,3) len by (simp only: length_take)
  with eq i len show "vt_count (snd (vma_remove t idx)) = vt_count t - 1" by (simp add: s vmas_def)
  show "fst (vma_remove t idx)" by (rule s)
qed

lemma length_vmas [simp]: "vma_wf t \<Longrightarrow> length (vmas t) = vt_count t"
  by (simp add: vmas_def vma_wf_def)

lemma sorted_wrt_delete:
  assumes "sorted_wrt P xs" "i < length xs"
  shows "sorted_wrt P (take i xs @ drop (Suc i) xs)"
proof -
  have "sorted_wrt P (take i xs @ xs ! i # drop (Suc i) xs)"
    using assms by (simp add: id_take_nth_drop [symmetric])
  then show ?thesis by (simp add: sorted_wrt_append)
qed

lemma vma_remove_wf: "vma_wf t \<Longrightarrow> vma_wf (snd (vma_remove t idx))"
proof (cases "idx < vt_count t")
  case True
  assume wf: "vma_wf t"
  have "sorted_wrt vma_disjoint (take idx (vmas t) @ drop (Suc idx) (vmas t))"
    using wf True by (intro sorted_wrt_delete) (simp_all add: vma_wf_def vmas_def)
  with wf vmas_remove [OF wf True] show ?thesis
    by (auto simp: vma_wf_def dest: in_set_takeD in_set_dropD)
qed (simp add: vma_remove_def)

lemma overlaps_iff: "vma_ok r \<Longrightarrow> overlaps s e r \<longleftrightarrow> \<not> (e \<le> vr_start r \<or> vr_end r \<le> s)"
  by (auto simp: overlaps_def vma_ok_def)

lemma vma_insert_cases:
  assumes wf: "vma_wf t" and ins: "vma_insert t s e prot flags = (r, t')"
  obtains (refused) "r = None" "t' = t"
      "e \<le> s \<or> e > MAX_MAPPING_SIZE \<or> list_ex (overlaps s e) (vmas t) \<or> vt_count t = MAX_VMAS"
    | (added) new where "r = Some (vt_count t)" "vmas t' = vmas t @ [new]" "vma_wf t'"
      "vr_start new = s" "vr_end new = e" "vr_prot new = prot" "vr_flags new = flags" "vr_valid new"
proof (cases "e \<le> s \<or> e > MAX_MAPPING_SIZE \<or> list_ex (overlaps s e) (vmas t) \<or> vt_count t \<ge> MAX_VMAS")
  case True
  with ins wf show ?thesis by (intro refused) (auto simp: vma_insert_def vma_wf_def split: if_splits)
next
  case False
  define new where "new = \<lparr>vr_start = s, vr_end = e, vr_prot = prot, vr_flags = flags,
      vr_file_offset = 0, vr_inode = 0, vr_valid = True\<rparr>"
  have r: "r = Some (vt_count t)"
    "t' = t\<lparr>vt_regions := (vt_regions t)[vt_count t := new], vt_count := vt_count t + 1\<rparr>"
    using ins False by (auto simp: vma_insert_def new_def)
  have v: "vmas t' = vmas t @ [new]"
    using wf False by (simp add: r vmas_def vma_wf_def take_Suc_conv_app_nth)
  have new: "vma_ok new" using False by (auto simp: vma_ok_def new_def)
  have "\<forall>r \<in> set (vmas t). vma_disjoint r new"
    using False wf overlaps_iff by (auto simp: list_ex_iff vma_disjoint_def vma_wf_def new_def)
  with new wf False have "vma_wf t'"
    by (simp add: vma_wf_def v sorted_wrt_append) (simp add: r)
  from added [OF r(1) v this] show ?thesis by (simp add: new_def)
qed

section \<open>Removing and searching\<close>

lemma remove_overlapping_loop_spec:
  assumes "vma_wf t" "length (filter (overlaps s e) (vmas t)) \<le> n" "remove_overlapping_loop n t s e = (k, t')"
  shows "vma_wf t' \<and> vmas t' = filter (\<lambda>r. \<not> overlaps s e r) (vmas t) \<and>
    k = length (filter (overlaps s e) (vmas t))"
  using assms
proof (induction n arbitrary: t k)
  case 0
  then show ?case by (simp add: filter_empty_conv)
next
  case (Suc n)
  have fi: "(\<lambda>r. vr_valid r \<and> vr_start r < e \<and> vr_end r > s) = overlaps s e"
    by (auto simp: overlaps_def fun_eq_iff)
  show ?case
  proof (cases "find_index (overlaps s e) (vmas t)")
    case None
    with Suc.prems show ?thesis
      by (auto simp: fi find_index_None_iff filter_id_conv filter_empty_conv)
  next
    case (Some idx)
    then have i: "idx < vt_count t" "overlaps s e (vmas t ! idx)"
      using Suc.prems(1) find_index_SomeD [OF Some] by simp_all
    define t1 where "t1 = snd (vma_remove t idx)"
    note r = vmas_remove [OF Suc.prems(1) i(1), folded t1_def]
    have "vmas t = take idx (vmas t) @ vmas t ! idx # drop (Suc idx) (vmas t)"
      using i Suc.prems(1) by (simp add: id_take_nth_drop [symmetric])
    from arg_cong [OF this, of "filter P" for P]
    have "filter P (vmas t) = filter P (take idx (vmas t)) @
        (if P (vmas t ! idx) then [vmas t ! idx] else []) @ filter P (drop (Suc idx) (vmas t))" for P
      by (simp only: filter_append filter.simps) simp
    then have f: "length (filter (overlaps s e) (vmas t)) = Suc (length (filter (overlaps s e) (vmas t1)))"
      "filter (\<lambda>r. \<not> overlaps s e r) (vmas t) = filter (\<lambda>r. \<not> overlaps s e r) (vmas t1)"
      using i(2) by (simp_all add: r)
    obtain k1 where k: "remove_overlapping_loop n t1 s e = (k1, t')" "k = k1 + 1"
      using Suc.prems(3) Some by (auto simp: fi t1_def split: prod.splits)
    have "vma_wf t1" unfolding t1_def using Suc.prems(1) by (rule vma_remove_wf)
    from Suc.IH [OF this _ k(1)] Suc.prems(2) f k(2) show ?thesis by simp
  qed
qed

text \<open>\<open>free_at t sz a\<close>: the range of \<open>sz\<close> bytes at \<open>a\<close> fits the user half and meets no mapping.\<close>

definition free_at :: "vma_table \<Rightarrow> u64 \<Rightarrow> u64 \<Rightarrow> bool" where
  "free_at t sz a \<longleftrightarrow> unat a + unat sz \<le> unat MAX_MAPPING_SIZE \<and>
     (\<forall>r \<in> set (vmas t). unat (vr_end r) \<le> unat a \<or> unat a + unat sz \<le> unat (vr_start r))"

lemma unat_MAX_MAPPING_SIZE: "unat MAX_MAPPING_SIZE = 0x7F0000000000"
  by (simp add: MAX_MAPPING_SIZE_def)

text \<open>One pass of the search, on natural numbers.\<close>

lemma find_free_step:
  assumes "vma_wf t"
  shows "find_free_loop (Suc n) t sz c =
    (if unat c + unat sz \<le> unat MAX_MAPPING_SIZE then
       (case find (\<lambda>r. \<not> (unat (vr_end r) \<le> unat c \<or> unat c + unat sz \<le> unat (vr_start r))) (vmas t) of
          None \<Rightarrow> Some c
        | Some r \<Rightarrow> if page_down (vr_end r) \<le> c then None else find_free_loop n t sz (page_down (vr_end r)))
     else None)"
proof (cases "unat c + unat sz < 2 ^ 64")
  case True
  then have sum: "checked_add c sz = Some (c + sz)" "unat (c + sz) = unat c + unat sz"
    "saturating_add c sz = c + sz"
    by (simp_all add: checked_add_u64 saturating_add_u64 unat_add_no_wrap)
  have "find (overlaps c (c + sz)) (vmas t) =
      find (\<lambda>r. \<not> (unat (vr_end r) \<le> unat c \<or> unat c + unat sz \<le> unat (vr_start r))) (vmas t)"
    using assms by (intro find_cong refl) (auto simp: vma_wf_def overlaps_iff word_le_nat_alt sum)
  then show ?thesis
    by (simp add: sum word_le_nat_alt Let_def page_down_def split: option.split)
next
  case False
  then show ?thesis
    by (simp add: checked_add_u64 unat_MAX_MAPPING_SIZE)
qed


lemma hit_not_free:
  "r \<in> set (vmas t) \<Longrightarrow> unat b < unat (vr_end r) \<Longrightarrow> unat (vr_start r) < unat b + unat sz \<Longrightarrow> \<not> free_at t sz b"
  unfolding free_at_def by (meson leD)

lemma find_free_loop_sound:
  assumes "vma_wf t" "find_free_loop n t sz c = Some a" "4096 dvd unat c"
  shows "free_at t sz a \<and> c \<le> a \<and> 4096 dvd unat a \<and> (\<forall>b. c \<le> b \<and> b < a \<longrightarrow> \<not> free_at t sz b)"
  using assms
proof (induction n arbitrary: c)
  case 0
  then show ?case by simp
next
  case (Suc n)
  let ?hit = "\<lambda>r. \<not> (unat (vr_end r) \<le> unat c \<or> unat c + unat sz \<le> unat (vr_start r))"
  have fits: "unat c + unat sz \<le> unat MAX_MAPPING_SIZE"
    using Suc.prems(2) unfolding find_free_step [OF assms(1)] by (simp split: if_splits)
  show ?case
  proof (cases "find ?hit (vmas t)")
    case None
    then have "a = c" using Suc.prems(2) fits unfolding find_free_step [OF assms(1)] by simp
    with None fits Suc.prems(3) show ?thesis by (auto simp: free_at_def find_None_iff)
  next
    case (Some r)
    then have r: "r \<in> set (vmas t)" "?hit r" by (auto simp: find_Some_iff)
    let ?c = "page_down (vr_end r)"
    have c: "\<not> ?c \<le> c" "find_free_loop n t sz ?c = Some a"
      using Suc.prems(2) fits Some unfolding find_free_step [OF assms(1)] by (auto split: if_splits)
    have "4096 dvd unat ?c" by (simp add: unat_page_down)
    note ih = Suc.IH [OF assms(1) c(2) this]
    have le: "unat ?c \<le> unat (vr_end r)" by (simp add: unat_page_down)
    have "\<not> free_at t sz b" if "c \<le> b" "b < a" for b
    proof (cases "?c \<le> b")
      case False
      then have "unat b < unat (vr_end r)" using le by (simp add: word_le_nat_alt)
      moreover have "unat (vr_start r) < unat b + unat sz" using r(2) that(1) by (simp add: word_le_nat_alt)
      ultimately show ?thesis by (rule hit_not_free [OF r(1)])
    qed (use ih that in blast)
    with ih c(1) show ?thesis by auto
  qed
qed

lemma find_free_loop_complete:
  assumes "vma_wf t" "\<forall>r \<in> set (vmas t). 4096 dvd unat (vr_end r)"
    and "find_free_loop n t sz c = None" "length (filter (\<lambda>r. c < vr_end r) (vmas t)) < n" "c \<le> b"
  shows "\<not> free_at t sz b"
  using assms(3-)
proof (induction n arbitrary: c)
  case 0
  then show ?case by simp
next
  case (Suc n)
  let ?hit = "\<lambda>r. \<not> (unat (vr_end r) \<le> unat c \<or> unat c + unat sz \<le> unat (vr_start r))"
  show ?case
  proof (cases "unat c + unat sz \<le> unat MAX_MAPPING_SIZE")
    case False
    with Suc.prems(3) show ?thesis by (simp add: free_at_def word_le_nat_alt)
  next
    case fits: True
    with Suc.prems(1) obtain r where f: "find ?hit (vmas t) = Some r"
      unfolding find_free_step [OF assms(1)] by (auto split: option.splits)
    then have r: "r \<in> set (vmas t)" "?hit r" by (auto simp: find_Some_iff)
    have al: "page_down (vr_end r) = vr_end r"
      using assms(2) r(1) by (simp add: word_unat_eq_iff unat_page_down)
    have lt: "c < vr_end r" using r(2) by (simp add: word_less_nat_alt)
    then have nxt: "find_free_loop n t sz (vr_end r) = None"
      using Suc.prems(1) fits f unfolding find_free_step [OF assms(1)] by (auto simp: al split: if_splits)
    have "filter (\<lambda>q. vr_end r < vr_end q) (vmas t) =
        filter (\<lambda>q. vr_end r < vr_end q) (filter (\<lambda>q. c < vr_end q) (vmas t))"
      using lt by (auto simp: filter_filter intro!: filter_cong)
    moreover have "r \<in> set (filter (\<lambda>q. c < vr_end q) (vmas t))" using r lt by simp
    ultimately have "length (filter (\<lambda>q. vr_end r < vr_end q) (vmas t)) < n"
      using Suc.prems(2) length_filter_less [of r "filter (\<lambda>q. c < vr_end q) (vmas t)" "\<lambda>q. vr_end r < vr_end q"]
      by simp
    note ih = Suc.IH [OF nxt this]
    show ?thesis
    proof (cases "vr_end r \<le> b")
      case False
      then have "unat b < unat (vr_end r)" by (simp add: word_le_nat_alt)
      moreover have "unat (vr_start r) < unat b + unat sz" using r(2) Suc.prems(3) by (simp add: word_le_nat_alt)
      ultimately show ?thesis by (rule hit_not_free [OF r(1)])
    qed (rule ih)
  qed
qed


section \<open>Properties\<close>

text \<open>Every table a process can build from the empty one.\<close>

inductive vma_reach :: "vma_table \<Rightarrow> bool" where
  reach_new: "vma_reach new_table"
| reach_insert: "vma_reach t \<Longrightarrow> vma_reach (snd (vma_insert t s e prot flags))"
| reach_remove: "vma_reach t \<Longrightarrow> vma_reach (snd (vma_remove t idx))"
| reach_remove_overlapping: "vma_reach t \<Longrightarrow> vma_reach (snd (remove_overlapping t s e))"

lemma vma_insert_wf:
  assumes wf: "vma_wf t"
  shows "vma_wf (snd (vma_insert t s e prot flags))"
proof -
  obtain r t' where ins: "vma_insert t s e prot flags = (r, t')" by fastforce
  from wf ins show ?thesis
    by (cases rule: vma_insert_cases) (use wf ins in simp_all)
qed

lemma remove_overlapping_spec:
  assumes "vma_wf t" "remove_overlapping t s e = (k, t')"
  shows "vma_wf t' \<and> vmas t' = filter (\<lambda>r. \<not> overlaps s e r) (vmas t) \<and>
    k = length (filter (overlaps s e) (vmas t))"
proof -
  have "length (filter (overlaps s e) (vmas t)) \<le> length (vmas t)" by (rule length_filter_le)
  also have "\<dots> \<le> MAX_VMAS" using assms(1) by (simp add: vma_wf_def)
  finally have "length (filter (overlaps s e) (vmas t)) \<le> MAX_VMAS + 1" by simp
  from remove_overlapping_loop_spec [OF assms(1) this assms(2) [unfolded remove_overlapping_def]]
  show ?thesis .
qed

lemma vma_reach_wf: "vma_reach t \<Longrightarrow> vma_wf t"
proof (induction rule: vma_reach.induct)
  case reach_new
  show ?case by (simp add: vma_wf_def new_table_def vmas_def)
next
  case (reach_remove_overlapping t s e)
  then show ?case using remove_overlapping_spec [OF _ surjective_pairing, of t s e] by blast
qed (simp_all add: vma_insert_wf vma_remove_wf)

text \<open>
  C6: In every table a process can build, the mappings are valid, non-empty, inside the user
  half and pairwise disjoint, so the lookup of an address is unambiguous: \<open>find\<close> returns an entry
  exactly when some entry contains the address, and it is the only one that does.
\<close>

theorem vma_find_unique:
  assumes "vma_reach t"
  shows "vma_wf t \<and> (vma_find t addr = Some i \<longleftrightarrow> i < vt_count t \<and> vma_contains (vmas t ! i) addr)"
proof -
  have wf: "vma_wf t" using assms by (rule vma_reach_wf)
  have "\<not> vma_contains (vmas t ! j) addr" if "i < vt_count t" "vma_contains (vmas t ! i) addr" "j < i" for j
    using sorted_wrt_nth_less [of vma_disjoint "vmas t" j i] wf that
    by (auto simp: vma_wf_def vma_disjoint_def vma_contains_def)
  with wf show ?thesis
    unfolding vma_find_def find_index_Some_iff by (simp only: length_vmas) blast
qed

theorem vma_find_unique_witness:
  "vma_find (snd (vma_insert (snd (vma_insert new_table 0x1000 0x3000 3 0)) 0x4000 0x5000 1 0)) 0x4800 = Some 1"
proof -
  let ?t = "snd (vma_insert (snd (vma_insert new_table 0x1000 0x3000 3 0)) 0x4000 0x5000 1 0)"
  have "vma_reach ?t" by (intro reach_insert reach_new)
  moreover have "1 < vt_count ?t \<and> vma_contains (vmas ?t ! 1) 0x4800" by code_simp
  ultimately show ?thesis using vma_find_unique [of ?t "0x4800" 1] by blast
qed

text \<open>
  C7: \<open>remove_overlapping\<close> removes exactly the mappings that overlap the range, keeps the others
  in order, and returns how many it removed; the pass bound is never what stops it.
\<close>

theorem remove_overlapping_exact:
  assumes "vma_reach t"
  shows "vmas (snd (remove_overlapping t s e)) = filter (\<lambda>r. \<not> overlaps s e r) (vmas t) \<and>
    fst (remove_overlapping t s e) = length (filter (overlaps s e) (vmas t))"
  using remove_overlapping_spec [OF vma_reach_wf [OF assms] surjective_pairing, of s e] by blast

theorem remove_overlapping_exact_witness:
  "let t = snd (vma_insert (snd (vma_insert new_table 0x1000 0x3000 3 0)) 0x4000 0x5000 1 0)
   in fst (remove_overlapping t 0x2000 0x3000) = 1"
proof -
  let ?t = "snd (vma_insert (snd (vma_insert new_table 0x1000 0x3000 3 0)) 0x4000 0x5000 1 0)"
  have "vma_reach ?t" by (intro reach_insert reach_new)
  moreover have "length (filter (overlaps 0x2000 0x3000) (vmas ?t)) = 1" by code_simp
  ultimately show ?thesis using remove_overlapping_exact [of ?t "0x2000" "0x3000"] by (simp add: Let_def)
qed



end
