(* ===== verification/Checksum.thy ===== *)
theory Checksum
  imports Prelude
begin

text \<open>
  The internet checksum as the network code computes it four times: \<open>internet_checksum\<close> of
  \<^verbatim>\<open>crates/zenus-net/src/ipv4.rs\<close>, \<open>checksum\<close> of \<^verbatim>\<open>icmp.rs\<close>, and the pseudo-header
  variants of \<^verbatim>\<open>udp.rs\<close> and \<^verbatim>\<open>tcp.rs\<close>. The locale \<open>checksummed\<close> is what the protocol code
  relies on: a message sealed with its checksum verifies, and a message with one changed word
  does not. It is interpreted once per protocol.
\<close>

section \<open>The sum\<close>

text \<open>The loop over 16-bit big-endian words, with a last odd byte, on the \<open>u32\<close> accumulator.\<close>

fun sum_words :: "u32 \<Rightarrow> bytes \<Rightarrow> u32" where
  "sum_words acc (a # b # rest) = sum_words (acc + ucast (of_be16 a b)) rest"
| "sum_words acc [a] = acc + push_bit 8 (ucast a)"
| "sum_words acc [] = acc"

lemma unat_low_half: "unat (s AND 0xFFFF :: u32) = unat s mod 65536"
proof -
  have "s AND 0xFFFF = take_bit 16 s" by (simp add: take_bit_eq_mask mask_numeral)
  then show ?thesis by (simp only: unsigned_take_bit_eq) (simp add: take_bit_eq_mod)
qed

lemma unat_high_half: "unat (drop_bit 16 s :: u32) = unat s div 65536"
  by (simp only: unat_drop_bit_eq) (simp add: drop_bit_eq_div)

lemma unat_fold_step: "unat ((s AND 0xFFFF) + drop_bit 16 s :: u32) = unat s mod 65536 + unat s div 65536"
proof -
  have "unat s < 2 ^ 32" using unat_bound [of s] by simp
  then have "unat s mod 65536 + unat s div 65536 < 2 ^ 32" by auto
  then show ?thesis by (subst unat_add_no_wrap) (simp_all add: unat_low_half unat_high_half)
qed

lemma drop_half_0_iff: "drop_bit 16 s = (0 :: u32) \<longleftrightarrow> unat s < 65536"
proof -
  have "drop_bit 16 s = 0 \<longleftrightarrow> unat (drop_bit 16 s) = 0" by (simp only: unat_eq_zero)
  also have "\<dots> \<longleftrightarrow> unat s div 65536 = 0" by (simp only: unat_high_half)
  finally show ?thesis by (simp add: div_eq_0_iff)
qed

function fold_carry :: "u32 \<Rightarrow> u32" where
  "fold_carry s = (if drop_bit 16 s \<noteq> 0 then fold_carry ((s AND 0xFFFF) + drop_bit 16 s) else s)"
  by pat_completeness auto
termination
proof (relation "measure unat")
  fix s :: u32
  assume "drop_bit 16 s \<noteq> 0"
  then have "65536 \<le> unat s" by (simp add: drop_half_0_iff)
  moreover have "unat s = unat s div 65536 * 65536 + unat s mod 65536" by simp
  ultimately have "unat s mod 65536 + unat s div 65536 < unat s"
    using div_greater_zero_iff [of "unat s" 65536] by linarith
  then show "((s AND 0xFFFF) + drop_bit 16 s, s) \<in> measure unat" by (simp add: unat_fold_step)
qed simp

declare fold_carry.simps [simp del]

definition checksum_from :: "u32 \<Rightarrow> bytes \<Rightarrow> u16" where
  "checksum_from acc data = NOT (ucast (fold_carry (sum_words acc data)))"

definition internet_checksum :: "bytes \<Rightarrow> u16" where
  "internet_checksum data = checksum_from 0 data"

definition icmp_checksum :: "bytes \<Rightarrow> u16" where
  "icmp_checksum data = checksum_from 0 data"

text \<open>The pseudo-header: addresses, protocol number, and the segment length as \<open>u16\<close>.\<close>

definition pseudo_header :: "u32 \<Rightarrow> ip4 \<Rightarrow> ip4 \<Rightarrow> bytes \<Rightarrow> u32" where
  "pseudo_header proto = (\<lambda>(s0, s1, s2, s3) (d0, d1, d2, d3) segment.
     ucast (of_be16 s0 s1) + ucast (of_be16 s2 s3) + ucast (of_be16 d0 d1) + ucast (of_be16 d2 d3)
     + proto + ucast (word_of_nat (length segment) :: u16))"

definition udp_checksum :: "ip4 \<Rightarrow> ip4 \<Rightarrow> bytes \<Rightarrow> u16" where
  "udp_checksum src_ip dst_ip segment = checksum_from (pseudo_header 0x11 src_ip dst_ip segment) segment"

definition tcp_checksum :: "ip4 \<Rightarrow> ip4 \<Rightarrow> bytes \<Rightarrow> u16" where
  "tcp_checksum src_ip dst_ip segment = checksum_from (pseudo_header 0x06 src_ip dst_ip segment) segment"

text \<open>Storing a checksum: \<^verbatim>\<open>buf[off] = (csum >> 8) as u8; buf[off + 1] = (csum & 0xFF) as u8\<close>.\<close>

definition put_checksum :: "bytes \<Rightarrow> nat \<Rightarrow> u16 \<Rightarrow> bytes" where
  "put_checksum buf off csum =
     buf[off := ucast (drop_bit 8 csum), off + 1 := ucast (csum AND 0xFF)]"

section \<open>The sum on natural numbers\<close>

fun nat_sum :: "bytes \<Rightarrow> nat" where
  "nat_sum (a # b # rest) = unat (of_be16 a b) + nat_sum rest"
| "nat_sum [a] = unat a * 256"
| "nat_sum [] = 0"

lemma nat_sum_bound: "nat_sum d \<le> 32768 * (length d + 1)"
proof (induction d rule: nat_sum.induct)
  case (1 a b rest)
  then show ?case using unat_bound [of "of_be16 a b"] by simp
next
  case (2 a)
  then show ?case using unat_bound [of a] by simp
qed simp

lemma unat_ucast_u16: "unat (ucast (x :: u16) :: u32) = unat x"
  using unat_bound [of x] by (simp add: unsigned_ucast_eq take_bit_nat_eq_self)

lemma unat_odd_byte: "unat (push_bit 8 (ucast (a :: u8)) :: u32) = unat a * 256"
proof -
  have a: "unat a < 256" using unat_bound [of a] by simp
  then have "unat (ucast a :: u32) = unat a" by (simp add: unsigned_ucast_eq take_bit_nat_eq_self)
  with a show ?thesis by (simp add: push_bit_eq_mult unat_word_ariths)
qed

lemma unat_sum_words:
  "unat acc + nat_sum d < 2 ^ 32 \<Longrightarrow> unat (sum_words acc d) = unat acc + nat_sum d"
proof (induction acc d rule: sum_words.induct)
  case (1 acc a b rest)
  then have "unat (acc + ucast (of_be16 a b)) = unat acc + unat (of_be16 a b)"
    by (subst unat_add_no_wrap) (simp_all add: unat_ucast_u16)
  with 1 show ?case by simp
next
  case (2 acc a)
  then show ?case by (simp add: unat_add_no_wrap unat_odd_byte)
qed simp

lemma fold_carry_spec:
  "unat (fold_carry s) < 65536 \<and> unat (fold_carry s) mod 65535 = unat s mod 65535 \<and>
   (unat (fold_carry s) = 0 \<longleftrightarrow> unat s = 0)"
proof (induction s rule: fold_carry.induct)
  case (1 s)
  show ?case
  proof (cases "drop_bit 16 s = 0")
    case True
    then show ?thesis by (subst (1 2 3) fold_carry.simps) (simp add: drop_half_0_iff)
  next
    case False
    let ?s = "(s AND 0xFFFF) + drop_bit 16 s"
    have s: "unat s = unat s div 65536 * 65536 + unat s mod 65536" by simp
    have "unat s = (unat s mod 65536 + unat s div 65536) + 65535 * (unat s div 65536)"
      using s by linarith
    then have "unat s mod 65535 = (unat s mod 65536 + unat s div 65536) mod 65535"
      by (metis mod_mult_self2)
    then have m: "unat ?s mod 65535 = unat s mod 65535" by (simp add: unat_fold_step)
    have "unat ?s = 0 \<longleftrightarrow> unat s = 0" unfolding unat_fold_step using s by linarith
    with m 1 [OF False] False show ?thesis by (subst (1 2 3) fold_carry.simps) simp
  qed
qed


lemma nat_sum_update:
  assumes "even i" "i + 1 < length d"
  shows "nat_sum (d[i := a, i + 1 := b]) + unat (of_be16 (d ! i) (d ! (i + 1))) = nat_sum d + unat (of_be16 a b)"
  using assms
proof (induction d arbitrary: i rule: nat_sum.induct)
  case (1 x y rest)
  show ?case
  proof (cases i)
    case 0
    then show ?thesis by simp
  next
    case (Suc j)
    with "1.prems"(1) obtain k where i: "i = Suc (Suc k)" "even k" by (cases j) auto
    with 1 show ?thesis by (simp add: algebra_simps)
  qed
qed simp_all

lemma unat_not_u16: "unat (NOT x :: u16) = 65535 - unat x"
proof -
  have "NOT x = - 1 - x" by (simp add: not_eq_complement)
  moreover have "unat (- 1 :: u16) = 65535" by (simp add: unat_minus_one_word)
  ultimately show ?thesis using unat_bound [of x] by (simp only:) (subst unat_sub_no_wrap, simp_all)
qed

lemma of_be16_put: "of_be16 (ucast (drop_bit 8 c)) (ucast (c AND 0xFF)) = c"
proof -
  have "(ucast (c AND mask 8) :: u8) = ucast c" by (rule bit_word_eqI) (auto simp: bit_simps)
  then have "(ucast (c AND 0xFF) :: u8) = ucast c" by (simp add: mask_numeral)
  then show ?thesis by (simp only: of_be16_split)
qed

lemma unat_checksum_from:
  assumes "unat acc + nat_sum d < 2 ^ 32"
  defines "s \<equiv> unat acc + nat_sum d"
  shows "(s + unat (checksum_from acc d)) mod 65535 = 0 \<and> 0 < s + unat (checksum_from acc d)"
    and "checksum_from acc d = 0 \<longleftrightarrow> s mod 65535 = 0 \<and> 0 < s"
proof -
  define f where "f = unat (fold_carry (sum_words acc d))"
  have f: "f < 65536" "f mod 65535 = s mod 65535" "f = 0 \<longleftrightarrow> s = 0"
    using fold_carry_spec [of "sum_words acc d"] unat_sum_words [OF assms(1)] by (simp_all add: f_def s_def)
  have "unat (ucast (fold_carry (sum_words acc d)) :: u16) = f"
    using f(1) by (simp add: f_def unsigned_ucast_eq take_bit_nat_eq_self)
  then have c: "unat (checksum_from acc d) = 65535 - f"
    by (simp only: checksum_from_def unat_not_u16)
  show "(s + unat (checksum_from acc d)) mod 65535 = 0 \<and> 0 < s + unat (checksum_from acc d)"
  proof
    have "(s + (65535 - f)) mod 65535 = (f + (65535 - f)) mod 65535"
      using f(2) by (metis mod_add_left_eq)
    then show "(s + unat (checksum_from acc d)) mod 65535 = 0" using f(1) by (simp add: c)
    show "0 < s + unat (checksum_from acc d)" using f by (cases "s = 0") (simp_all add: c)
  qed
  have "checksum_from acc d = 0 \<longleftrightarrow> unat (checksum_from acc d) = 0" by (simp only: unat_eq_zero)
  also have "\<dots> \<longleftrightarrow> f = 65535" using f(1) by (simp add: c) linarith
  also have "\<dots> \<longleftrightarrow> f mod 65535 = 0 \<and> 0 < f"
    using f(1) by (auto simp: mod_eq_0_iff_dvd elim!: dvdE)
  finally show "checksum_from acc d = 0 \<longleftrightarrow> s mod 65535 = 0 \<and> 0 < s" using f by auto
qed

lemma mod_add_cancel: "(a + c) mod n = (b + c) mod n \<Longrightarrow> a mod n = b mod (n :: nat)"
proof -
  assume "(a + c) mod n = (b + c) mod n"
  then have "(int a + int c) mod int n = (int b + int c) mod int n"
    by (simp only: of_nat_add [symmetric] of_nat_mod [symmetric])
  then have "(int a + int c - int c) mod int n = (int b + int c - int c) mod int n"
    by (rule mod_diff_cong) simp
  then show ?thesis by (simp only: add_diff_cancel_right' of_nat_mod [symmetric] of_nat_eq_iff)
qed

section \<open>What the protocols rely on\<close>

text \<open>
  A checksummed message format: the checksum function, the (even) offset of its field, and the
  weight of what is summed besides the message, which depends on its length only.
\<close>

locale checksummed =
  fixes csum :: "bytes \<Rightarrow> u16" and off :: nat and base :: "nat \<Rightarrow> nat"
  assumes even_off: "even off"
    and complement: "length d \<le> 65535 \<Longrightarrow>
      (base (length d) + nat_sum d + unat (csum d)) mod 65535 = 0 \<and>
      0 < base (length d) + nat_sum d + unat (csum d)"
    and verifies: "length d \<le> 65535 \<Longrightarrow>
      csum d = 0 \<longleftrightarrow> (base (length d) + nat_sum d) mod 65535 = 0 \<and> 0 < base (length d) + nat_sum d"
begin

lemma seal_verifies:
  assumes "length d \<le> 65535" "off + 1 < length d" "d ! off = 0" "d ! (off + 1) = 0"
  shows "csum (put_checksum d off (csum d)) = 0"
proof -
  let ?c = "csum d"
  have "of_be16 (ucast (drop_bit 8 ?c)) (ucast (?c AND 0xFF)) = ?c" by (rule of_be16_put)
  moreover have "of_be16 0 0 = 0" by (simp add: of_be16_def)
  moreover note nat_sum_update [OF even_off assms(2), of "ucast (drop_bit 8 ?c)" "ucast (?c AND 0xFF)"]
  ultimately have "nat_sum (put_checksum d off ?c) = nat_sum d + unat ?c"
    using assms(3,4) by (simp add: put_checksum_def)
  then show ?thesis
    using complement [OF assms(1)] verifies [of "put_checksum d off ?c"] assms(1)
    by (simp add: put_checksum_def add.assoc)
qed

lemma word_change_seen:
  assumes "length d \<le> 65535" "even i" "i + 1 < length d"
    and "unat (of_be16 a b) mod 65535 \<noteq> unat (of_be16 (d ! i) (d ! (i + 1))) mod 65535"
  shows "csum (d[i := a, i + 1 := b]) \<noteq> csum d"
proof
  let ?d = "d[i := a, i + 1 := b]"
  assume "csum ?d = csum d"
  moreover define x y where "x = base (length d) + nat_sum d" and "y = base (length d) + nat_sum ?d"
  ultimately have "(y + unat (csum d)) mod 65535 = (x + unat (csum d)) mod 65535"
    using complement [OF assms(1)] complement [of ?d] assms(1) by simp
  then have "y mod 65535 = x mod 65535" by (rule mod_add_cancel)
  moreover have "y + unat (of_be16 (d ! i) (d ! (i + 1))) = x + unat (of_be16 a b)"
    using nat_sum_update [OF assms(2,3), of a b] by (simp add: x_def y_def)
  moreover have "(x + unat (of_be16 (d ! i) (d ! (i + 1)))) mod 65535 = (y + unat (of_be16 (d ! i) (d ! (i + 1)))) mod 65535"
    using calculation(1) by (intro mod_add_cong) simp_all
  ultimately have "(unat (of_be16 (d ! i) (d ! (i + 1))) + x) mod 65535 = (unat (of_be16 a b) + x) mod 65535"
    by (simp only: add.commute)
  then show False using assms(4) mod_add_cancel by metis
qed

text \<open>
  Changing one 16-bit word is detected, unless it turns the ones' complement zero \<open>0x0000\<close> into
  the other zero \<open>0xFFFF\<close> or back.
\<close>

lemma word_error_detected:
  assumes "length d \<le> 65535" "csum d = 0" "even i" "i + 1 < length d"
    and "unat (of_be16 a b) mod 65535 \<noteq> unat (of_be16 (d ! i) (d ! (i + 1))) mod 65535"
  shows "csum (d[i := a, i + 1 := b]) \<noteq> 0"
proof
  assume "csum (d[i := a, i + 1 := b]) = 0"
  moreover define x y where "x = base (length d) + nat_sum d" and "y = base (length d) + nat_sum (d[i := a, i + 1 := b])"
  ultimately have "y mod 65535 = 0" "x mod 65535 = 0"
    using verifies [OF assms(1)] verifies [of "d[i := a, i + 1 := b]"] assms(1,2) by simp_all
  moreover have "y + unat (of_be16 (d ! i) (d ! (i + 1))) = x + unat (of_be16 a b)"
    using nat_sum_update [OF assms(3,4), of a b] by (simp add: x_def y_def)
  ultimately have "unat (of_be16 (d ! i) (d ! (i + 1))) mod 65535 = unat (of_be16 a b) mod 65535"
    by (metis add.left_neutral mod_add_left_eq)
  with assms(5) show False by simp
qed

end

lemma sum_bound:
  assumes "unat acc \<le> 6 * 65535" "length d \<le> 65535"
  shows "unat (acc :: u32) + nat_sum d < 2 ^ 32"
  using nat_sum_bound [of d] assms by simp

lemma checksum_from_checksummed:
  assumes "even off" "\<And>d. csum d = checksum_from (acc (length d)) d" "\<And>n. unat (acc n) \<le> 6 * 65535"
  shows "checksummed csum off (\<lambda>n. unat (acc n))"
proof
  fix d :: bytes assume "length d \<le> 65535"
  with assms(3) have "unat (acc (length d)) + nat_sum d < 2 ^ 32" by (intro sum_bound) auto
  from unat_checksum_from [OF this]
  show "(unat (acc (length d)) + nat_sum d + unat (csum d)) mod 65535 = 0 \<and>
      0 < unat (acc (length d)) + nat_sum d + unat (csum d)"
    and "csum d = 0 \<longleftrightarrow> (unat (acc (length d)) + nat_sum d) mod 65535 = 0 \<and>
      0 < unat (acc (length d)) + nat_sum d"
    by (simp_all add: assms(2))
qed (rule assms(1))

lemma unat_add_le: "unat (a + b :: u32) \<le> unat a + unat b"
  by (simp add: unat_word_ariths)

lemma unat_sum6_le:
  "unat (a + b + c + d + e + f :: u32) \<le> unat a + unat b + unat c + unat d + unat e + unat f"
  using unat_add_le [of "a + b + c + d + e" f] unat_add_le [of "a + b + c + d" e]
    unat_add_le [of "a + b + c" d] unat_add_le [of "a + b" c] unat_add_le [of a b]
  by linarith

lemma pseudo_header_bound:
  assumes "unat proto \<le> 65535"
  shows "unat (pseudo_header proto s d seg) \<le> 6 * 65535"
proof -
  obtain s0 s1 s2 s3 d0 d1 d2 d3 where sd: "s = (s0, s1, s2, s3)" "d = (d0, d1, d2, d3)"
    by (metis prod.exhaust)
  have w: "unat (ucast (x :: u16) :: u32) \<le> 65535" for x
    using unat_bound [of x] by (simp add: unat_ucast_u16)
  have "unat (pseudo_header proto s d seg) \<le> unat (ucast (of_be16 s0 s1) :: u32) +
      unat (ucast (of_be16 s2 s3) :: u32) + unat (ucast (of_be16 d0 d1) :: u32) +
      unat (ucast (of_be16 d2 d3) :: u32) + unat proto + unat (ucast (word_of_nat (length seg) :: u16) :: u32)"
    unfolding pseudo_header_def sd prod.case by (rule unat_sum6_le)
  also have "\<dots> \<le> 6 * 65535"
    using w [of "of_be16 s0 s1"] w [of "of_be16 s2 s3"] w [of "of_be16 d0 d1"] w [of "of_be16 d2 d3"]
      w [of "word_of_nat (length seg)"] assms by linarith
  finally show ?thesis .
qed

lemma pseudo_header_length: "length a = length b \<Longrightarrow> pseudo_header p s d a = pseudo_header p s d b"
  by (simp add: pseudo_header_def split: prod.splits)

interpretation ip: checksummed internet_checksum 10 "\<lambda>n. unat (0 :: u32)"
  by (rule checksum_from_checksummed) (simp_all add: internet_checksum_def)

interpretation icmp: checksummed icmp_checksum 2 "\<lambda>n. unat (0 :: u32)"
  by (rule checksum_from_checksummed) (simp_all add: icmp_checksum_def)

lemma udp_checksum_base:
  "udp_checksum s d x = checksum_from (pseudo_header 0x11 s d (replicate (length x) 0)) x"
  by (simp only: udp_checksum_def pseudo_header_length [of x "replicate (length x) 0"] length_replicate)

lemma tcp_checksum_base:
  "tcp_checksum s d x = checksum_from (pseudo_header 0x06 s d (replicate (length x) 0)) x"
  by (simp only: tcp_checksum_def pseudo_header_length [of x "replicate (length x) 0"] length_replicate)

interpretation udp: checksummed "udp_checksum s d" 6 "\<lambda>n. unat (pseudo_header 0x11 s d (replicate n 0))" for s d
  by (rule checksum_from_checksummed [OF _ udp_checksum_base pseudo_header_bound]) simp_all

interpretation tcp: checksummed "tcp_checksum s d" 16 "\<lambda>n. unat (pseudo_header 0x06 s d (replicate n 0))" for s d
  by (rule checksum_from_checksummed [OF _ tcp_checksum_base pseudo_header_bound]) simp_all

end
