(* ===== verification/Ipv4.thy ===== *)
theory Ipv4
  imports Checksum
begin

text \<open>
  Packet formats of \<^verbatim>\<open>crates/zenus-net/src\<close>: Ethernet framing (\<^verbatim>\<open>ethernet.rs\<close>), IPv4
  (\<^verbatim>\<open>ipv4.rs\<close>), UDP datagrams (\<^verbatim>\<open>udp.rs\<close>) and the ICMP echo reply (\<^verbatim>\<open>icmp.rs\<close>).
  A fixed zero-initialised buffer that the code fills by \<open>copy_from_slice\<close> at increasing
  offsets is the list of those fields in order. A function that ends by handing a packet to the
  interface returns that packet; a \<open>false\<close> or an early return is \<open>None\<close>.
\<close>

type_synonym mac = bytes

definition ip_bytes :: "ip4 \<Rightarrow> bytes" where
  "ip_bytes = (\<lambda>(a, b, c, d). [a, b, c, d])"

definition ip_at :: "bytes \<Rightarrow> nat \<Rightarrow> ip4" where
  "ip_at p i = (p ! i, p ! (i + 1), p ! (i + 2), p ! (i + 3))"

definition be16_at :: "bytes \<Rightarrow> nat \<Rightarrow> u16" where
  "be16_at p i = of_be16 (p ! i) (p ! (i + 1))"

section \<open>Ethernet\<close>

definition ETH_IPV4 :: u16 where
  "ETH_IPV4 = 0x0800"

definition ETH_ARP :: u16 where
  "ETH_ARP = 0x0806"

record ethernet_header =
  eh_dst_mac :: mac
  eh_src_mac :: mac
  eh_ether_type :: u16

definition eth_parse :: "bytes \<Rightarrow> (ethernet_header \<times> bytes) option" where
  "eth_parse packet =
     (if length packet < 14 then None
      else Some (\<lparr>eh_dst_mac = take 6 packet, eh_src_mac = take 6 (drop 6 packet),
                  eh_ether_type = be16_at packet 12\<rparr>, drop 14 packet))"

section \<open>IPv4\<close>

definition PROTO_TCP :: u8 where
  "PROTO_TCP = 6"

definition PROTO_UDP :: u8 where
  "PROTO_UDP = 17"

definition PROTO_ICMP :: u8 where
  "PROTO_ICMP = 1"

record ipv4_header =
  ih_version_ihl :: u8
  ih_dscp_ecn :: u8
  ih_total_length :: u16
  ih_identification :: u16
  ih_flags_fragment :: u16
  ih_ttl :: u8
  ih_protocol :: u8
  ih_checksum :: u16
  ih_src_ip :: ip4
  ih_dst_ip :: ip4

definition ip_parse :: "bytes \<Rightarrow> (ipv4_header \<times> bytes) option" where
  "ip_parse packet =
     (if length packet < 20 then None
      else let version_ihl = packet ! 0
      in if drop_bit 4 version_ihl \<noteq> 4 then None
      else let ihl = unat ((version_ihl AND 0x0F) * 4)
      in if ihl < 20 \<or> length packet < ihl then None
      else let total_length = unat (be16_at packet 2)
      in if total_length < ihl \<or> total_length > length packet then None
      else let stored_csum = be16_at packet 10
      in if stored_csum \<noteq> 0 \<and>
            internet_checksum ((take ihl packet)[10 := 0, 11 := 0]) \<noteq> stored_csum then None
      else Some (\<lparr>ih_version_ihl = version_ihl, ih_dscp_ecn = packet ! 1,
                  ih_total_length = word_of_nat total_length, ih_identification = be16_at packet 4,
                  ih_flags_fragment = be16_at packet 6, ih_ttl = packet ! 8,
                  ih_protocol = packet ! 9, ih_checksum = be16_at packet 10,
                  ih_src_ip = ip_at packet 12, ih_dst_ip = ip_at packet 16\<rparr>,
                 drop ihl (take total_length packet)))"

text \<open>The part of \<open>NetworkInterface\<close> that the send path reads.\<close>

datatype nic_type = Unknown | IntelPro1000 | Rtl8139 | Virtio | Loopback

record iface =
  if_type :: nic_type
  if_mac :: mac
  if_ip :: ip4
  if_subnet_mask :: ip4
  if_gateway :: ip4
  if_mmio_base :: u64
  if_irq :: u8
  if_link_up :: bool

definition ip_header :: "nat \<Rightarrow> u8 \<Rightarrow> ip4 \<Rightarrow> ip4 \<Rightarrow> bytes" where
  "ip_header total_len protocol src_ip dst_ip =
     [0x45, 0] @ be16 (word_of_nat total_len) @ [0, 0] @ be16 0x4000 @ [64, protocol] @ [0, 0] @
     ip_bytes src_ip @ ip_bytes dst_ip"

definition ip_send_raw :: "iface option \<Rightarrow> ip4 \<Rightarrow> ip4 \<Rightarrow> u8 \<Rightarrow> bytes \<Rightarrow> bytes option" where
  "ip_send_raw ifc src_ip dst_ip protocol payload =
     (case ifc of
        None \<Rightarrow> None
      | Some i \<Rightarrow>
          if if_type i = Loopback then None
          else let total_len = 20 + length payload
          in if total_len > 1500 then None
          else let ip_pkt = ip_header total_len protocol src_ip dst_ip @ payload;
                   csum = internet_checksum (take 20 ip_pkt)
          in Some (put_checksum ip_pkt 10 csum))"

definition ip_send :: "iface option \<Rightarrow> ip4 \<Rightarrow> u8 \<Rightarrow> bytes \<Rightarrow> bytes option" where
  "ip_send ifc dst_ip protocol payload =
     (case ifc of None \<Rightarrow> None | Some i \<Rightarrow> ip_send_raw ifc (if_ip i) dst_ip protocol payload)"

section \<open>UDP\<close>

record udp_header =
  uh_src_port :: u16
  uh_dst_port :: u16
  uh_length :: u16
  uh_checksum :: u16

definition udp_parse :: "bytes \<Rightarrow> (udp_header \<times> bytes) option" where
  "udp_parse packet =
     (if length packet < 8 then None
      else let len = be16_at packet 4
      in if unat len < 8 \<or> unat len > length packet then None
      else let datagram = take (unat len) packet
      in Some (\<lparr>uh_src_port = be16_at packet 0, uh_dst_port = be16_at packet 2,
                uh_length = len, uh_checksum = be16_at packet 6\<rparr>, drop 8 datagram))"

definition udp_datagram :: "u16 \<Rightarrow> u16 \<Rightarrow> bytes \<Rightarrow> bytes" where
  "udp_datagram src_port dst_port payload =
     be16 src_port @ be16 dst_port @ be16 (word_of_nat (8 + length payload)) @ [0, 0] @ payload"

definition udp_send :: "iface option \<Rightarrow> u16 \<Rightarrow> u16 \<Rightarrow> ip4 \<Rightarrow> ip4 \<Rightarrow> bytes \<Rightarrow> bytes option" where
  "udp_send ifc src_port dst_port src_ip dst_ip payload =
     (if 8 + length payload > 1500 then None
      else ip_send_raw ifc src_ip dst_ip PROTO_UDP (udp_datagram src_port dst_port payload))"

text \<open>
  Where \<open>handle_receive\<close> sends a datagram: dropped, echoed (with the packet to send), or to the
  DHCP server, DHCP client, DNS client or socket layer, which get the whole packet.
\<close>

datatype udp_action =
    UdpDrop
  | UdpEcho "bytes option"
  | UdpDhcpServer
  | UdpDhcpClient
  | UdpDns
  | UdpSocket u16 u16

definition udp_handle_receive :: "iface option \<Rightarrow> u16 \<Rightarrow> ip4 \<Rightarrow> ip4 \<Rightarrow> bytes \<Rightarrow> udp_action" where
  "udp_handle_receive ifc dns_port src_ip dst_ip packet =
     (if length packet < 8 then UdpDrop
      else case udp_parse packet of
        None \<Rightarrow> UdpDrop
      | Some (hdr, payload) \<Rightarrow>
          if uh_checksum hdr \<noteq> 0 \<and>
             udp_checksum src_ip dst_ip (take (unat (uh_length hdr)) packet) \<noteq> 0 then UdpDrop
          else if uh_dst_port hdr = 7 then
            (if 8 + length payload > 1500 then UdpDrop
             else UdpEcho (ip_send ifc src_ip PROTO_UDP
                    (udp_datagram (uh_dst_port hdr) (uh_src_port hdr) payload)))
          else if uh_dst_port hdr = 67 then UdpDhcpServer
          else if uh_dst_port hdr = 68 then UdpDhcpClient
          else if uh_dst_port hdr = dns_port \<or> uh_dst_port hdr = 53 then UdpDns
          else UdpSocket (uh_dst_port hdr) (uh_src_port hdr))"

section \<open>ICMP echo\<close>

definition ICMP_ECHO_REQUEST :: u8 where
  "ICMP_ECHO_REQUEST = 8"

definition ICMP_ECHO_REPLY :: u8 where
  "ICMP_ECHO_REPLY = 0"

definition icmp_ip_header :: "nat \<Rightarrow> ip4 \<Rightarrow> ip4 \<Rightarrow> bytes" where
  "icmp_ip_header ip_total_len our_ip dst_ip =
     [0x45, 0] @ be16 (word_of_nat ip_total_len) @ [0, 0] @ [0, 0] @ [64, PROTO_ICMP] @ [0, 0] @
     ip_bytes our_ip @ ip_bytes dst_ip"

definition icmp_message :: "u16 \<Rightarrow> u16 \<Rightarrow> bytes \<Rightarrow> bytes" where
  "icmp_message ident seq echo_data =
     [ICMP_ECHO_REPLY, 0, 0, 0] @ be16 ident @ be16 seq @ echo_data"

definition handle_echo :: "ipv4_header \<Rightarrow> bytes \<Rightarrow> mac \<Rightarrow> mac \<Rightarrow> ip4 \<Rightarrow> bytes option" where
  "handle_echo ip_hdr payload our_mac dst_mac our_ip =
     (if length payload < 8 then None
      else let icmp_type = payload ! 0; ident = be16_at payload 4; seq = be16_at payload 6
      in if icmp_type \<noteq> ICMP_ECHO_REQUEST then None
      else let echo_data = drop 8 payload; data_len = length echo_data
      in if 14 + 20 + 8 + data_len > 1024 then None
      else let eth = dst_mac @ our_mac @ be16 ETH_IPV4;
               ip0 = icmp_ip_header (20 + 8 + data_len) our_ip (ih_src_ip ip_hdr);
               ip1 = put_checksum ip0 10 (internet_checksum ip0);
               icmp0 = icmp_message ident seq echo_data;
               icmp1 = put_checksum icmp0 2 (icmp_checksum icmp0);
               buf = eth @ ip1 @ icmp1
      in Some (buf @ replicate (1024 - length buf) 0))"

section \<open>Round trips\<close>

lemma unat_of_nat_u16: "n < 65536 \<Longrightarrow> unat (word_of_nat n :: u16) = n"
  by (simp add: unsigned_of_nat take_bit_nat_eq_self)

lemma length_put_checksum [simp]: "length (put_checksum buf off c) = length buf"
  by (simp add: put_checksum_def)

lemma put_checksum_append:
  "off + 1 < length a \<Longrightarrow> put_checksum (a @ b) off c = put_checksum a off c @ b"
  by (simp add: put_checksum_def list_update_append)

lemma length_ip_bytes [simp]: "length (ip_bytes a) = 4"
  by (simp add: ip_bytes_def split: prod.splits)

lemma length_ip_header [simp]: "length (ip_header n p s d) = 20"
  by (simp add: ip_header_def)

lemma be16_at_be16 [simp]: "of_be16 (ucast (drop_bit 8 x)) (ucast x) = x"
  by (rule of_be16_split)

text \<open>A header of 20 bytes with a checksum field: what \<open>parse\<close> makes of it.\<close>

lemma ip_parse_fields:
  assumes h: "length h = 20" "h ! 0 = 0x45" "h ! 10 = 0" "h ! 11 = 0" "unat (be16_at h 2) = 20 + length payload"
  shows "ip_parse (put_checksum h 10 (internet_checksum h) @ payload @ pad) =
    Some (\<lparr>ih_version_ihl = 0x45, ih_dscp_ecn = h ! 1, ih_total_length = be16_at h 2,
      ih_identification = be16_at h 4, ih_flags_fragment = be16_at h 6, ih_ttl = h ! 8,
      ih_protocol = h ! 9, ih_checksum = internet_checksum h, ih_src_ip = ip_at h 12,
      ih_dst_ip = ip_at h 16\<rparr>, payload)"
proof -
  let ?c = "internet_checksum h"
  let ?h = "put_checksum h 10 ?c"
  have nth: "(?h @ r) ! i = (if i = 10 then ucast (drop_bit 8 ?c) else if i = 11 then ucast (?c AND 0xFF) else h ! i)"
    if "i < 20" for i r
    using that h(1) by (auto simp: put_checksum_def nth_append nth_list_update)
  have "(take 20 (?h @ r))[10 := 0, 11 := 0] = h" for r
    using h(1,3,4) by (intro nth_equalityI) (auto simp: put_checksum_def nth_append nth_list_update)
  moreover have "be16_at (?h @ r) 10 = ?c" for r
    by (simp add: be16_at_def nth of_be16_put)
  moreover have "be16_at (?h @ r) 2 = be16_at h 2" "be16_at (?h @ r) 4 = be16_at h 4"
    "be16_at (?h @ r) 6 = be16_at h 6" "ip_at (?h @ r) 12 = ip_at h 12" "ip_at (?h @ r) 16 = ip_at h 16" for r
    by (simp_all add: be16_at_def ip_at_def nth)
  moreover have "word_of_nat (20 + length payload) = be16_at h 2"
    by (simp flip: h(5))
  ultimately show ?thesis
    using h by (simp add: ip_parse_def Let_def nth)
qed

lemma ip_parse_send_raw:
  assumes "ip_send_raw ifc s d proto payload = Some pkt"
  shows "\<exists>hdr. ip_parse (pkt @ pad) = Some (hdr, payload) \<and> ih_src_ip hdr = s \<and> ih_dst_ip hdr = d \<and>
    ih_protocol hdr = proto \<and> ih_ttl hdr = 64 \<and> unat (ih_total_length hdr) = length pkt"
proof -
  let ?h = "ip_header (20 + length payload) proto s d"
  obtain i where i: "ifc = Some i" "if_type i \<noteq> Loopback" "20 + length payload \<le> 1500"
    and pkt: "pkt = put_checksum ?h 10 (internet_checksum ?h) @ payload"
    using assms by (auto simp: ip_send_raw_def Let_def put_checksum_append split: option.splits if_splits)
  obtain s0 s1 s2 s3 d0 d1 d2 d3 where sd: "s = (s0, s1, s2, s3)" "d = (d0, d1, d2, d3)"
    by (metis prod.exhaust)
  have f: "?h ! 0 = 0x45" "?h ! 8 = 64" "?h ! 9 = proto" "?h ! 10 = 0" "?h ! 11 = 0"
    "be16_at ?h 2 = word_of_nat (20 + length payload)" "ip_at ?h 12 = s" "ip_at ?h 16 = d"
    by (simp_all add: ip_header_def be16_def be16_at_def ip_at_def ip_bytes_def sd nth_Cons')
  have n: "unat (word_of_nat (20 + length payload) :: u16) = 20 + length payload"
    using i(3) by (intro unat_of_nat_u16) simp
  show ?thesis
    using ip_parse_fields [of ?h payload pad] f n by (simp add: pkt)
qed

lemma length_udp_datagram [simp]: "length (udp_datagram sp dp payload) = 8 + length payload"
  by (simp add: udp_datagram_def)

lemma udp_parse_datagram:
  assumes "8 + length payload \<le> 65535"
  shows "udp_parse (udp_datagram sp dp payload @ pad) =
    Some (\<lparr>uh_src_port = sp, uh_dst_port = dp, uh_length = word_of_nat (8 + length payload), uh_checksum = 0\<rparr>, payload)"
proof -
  let ?d = "udp_datagram sp dp payload @ pad"
  have f: "be16_at ?d 0 = sp" "be16_at ?d 2 = dp" "be16_at ?d 4 = word_of_nat (8 + length payload)" "be16_at ?d 6 = 0"
    by (simp_all add: udp_datagram_def be16_def be16_at_def nth_Cons') (simp add: of_be16_def)
  have n: "unat (word_of_nat (8 + length payload) :: u16) = 8 + length payload"
    using assms by (intro unat_of_nat_u16) simp
  have "take (8 + length payload) ?d = udp_datagram sp dp payload" by simp
  then have "drop 8 (take (8 + length payload) ?d) = payload"
    by (simp only: udp_datagram_def be16_def) simp
  then show ?thesis
    unfolding udp_parse_def Let_def f n by simp
qed

lemma be16_of_be16: "be16 (of_be16 a b) = [a, b]"
proof -
  have "(ucast (drop_bit 8 (of_be16 a b)) :: u8) = a" "(ucast (of_be16 a b) :: u8) = b"
    by (rule bit_word_eqI; auto simp: of_be16_def bit_simps dest: bit_imp_le_length)+
  then show ?thesis by (simp add: be16_def)
qed

section \<open>Properties\<close>

text \<open>
  C9: A packet built by \<open>send_raw\<close> parses at the receiver to the same payload, addresses and
  protocol, also when the link pads the frame behind it, and its header passes the checksum test.
\<close>

theorem ip_send_parse:
  assumes "ip_send_raw ifc s d proto payload = Some pkt"
  shows "\<exists>hdr. ip_parse (pkt @ pad) = Some (hdr, payload) \<and> ih_src_ip hdr = s \<and> ih_dst_ip hdr = d \<and>
    ih_protocol hdr = proto \<and> unat (ih_total_length hdr) = length pkt \<and> internet_checksum (take 20 pkt) = 0"
proof -
  let ?h = "ip_header (20 + length payload) proto s d"
  have pkt: "pkt = put_checksum ?h 10 (internet_checksum ?h) @ payload"
    using assms by (auto simp: ip_send_raw_def Let_def put_checksum_append split: option.splits if_splits)
  have "?h ! 10 = 0" "?h ! (10 + 1) = 0"
    by (simp_all add: ip_header_def be16_def nth_Cons')
  then have "internet_checksum (put_checksum ?h 10 (internet_checksum ?h)) = 0"
    by (intro ip.seal_verifies) simp_all
  with ip_parse_send_raw [OF assms, of pad] show ?thesis by (auto simp: pkt)
qed

definition sample_iface :: iface where
  "sample_iface = \<lparr>if_type = Virtio, if_mac = [2, 0, 0, 0, 0, 1], if_ip = (10, 0, 2, 15),
     if_subnet_mask = (255, 255, 255, 0), if_gateway = (10, 0, 2, 2), if_mmio_base = 0, if_irq = 0, if_link_up = True\<rparr>"

definition sample_packet :: bytes where
  "sample_packet = [0x45, 0, 0, 22, 0, 0, 64, 0, 64, 17, 34, 199, 10, 0, 2, 15, 10, 0, 2, 2, 1, 2]"

theorem ip_send_parse_witness:
  "\<exists>hdr. ip_parse (sample_packet @ [0, 0, 0]) = Some (hdr, [1, 2]) \<and> ih_src_ip hdr = (10, 0, 2, 15)"
proof -
  have "ip_send_raw (Some sample_iface) (10, 0, 2, 15) (10, 0, 2, 2) 17 [1, 2] = Some sample_packet"
    by code_simp
  from ip_send_parse [OF this, of "[0, 0, 0]"] show ?thesis by auto
qed





text \<open>
  C12: A UDP datagram built by \<open>send\<close> parses at the receiver to the same ports and payload, and
  bytes that follow the datagram are not part of the payload.
\<close>

theorem udp_send_parse:
  assumes "udp_send ifc sp dp s d payload = Some pkt"
  shows "\<exists>ihdr dgram uhdr. ip_parse (pkt @ pad) = Some (ihdr, dgram) \<and> ih_protocol ihdr = PROTO_UDP \<and>
    udp_parse (dgram @ pad') = Some (uhdr, payload) \<and> uh_src_port uhdr = sp \<and> uh_dst_port uhdr = dp"
proof -
  have "ip_send_raw ifc s d PROTO_UDP (udp_datagram sp dp payload) = Some pkt" "8 + length payload \<le> 1500"
    using assms by (auto simp: udp_send_def split: if_splits)
  with ip_parse_send_raw [of ifc s d PROTO_UDP "udp_datagram sp dp payload" pkt pad]
    udp_parse_datagram [of payload sp dp pad'] show ?thesis by auto
qed

theorem udp_send_parse_witness:
  "\<exists>pkt ihdr dgram uhdr. udp_send (Some sample_iface) 1234 53 (10, 0, 2, 15) (10, 0, 2, 3) [7, 8, 9] = Some pkt \<and>
    ip_parse pkt = Some (ihdr, dgram) \<and> udp_parse dgram = Some (uhdr, [7, 8, 9]) \<and> uh_dst_port uhdr = 53"
proof -
  have "udp_send (Some sample_iface) 1234 53 (10, 0, 2, 15) (10, 0, 2, 3) [7, 8, 9] \<noteq> None" by code_simp
  then obtain pkt where "udp_send (Some sample_iface) 1234 53 (10, 0, 2, 15) (10, 0, 2, 3) [7, 8, 9] = Some pkt"
    by auto
  with udp_send_parse [OF this, of "[]" "[]"] show ?thesis by auto
qed

text \<open>
  C13: The echo reply answers the request: it is addressed to the requester at both layers, its IP
  header and its ICMP message pass their checksum tests, and the message repeats the identifier,
  the sequence number and the data of the request with type 0 instead of 8.
\<close>

theorem echo_reply_mirrors:
  assumes "handle_echo ip_hdr payload our_mac dst_mac our_ip = Some buf"
    and "length our_mac = 6" "length dst_mac = 6"
  shows "\<exists>ehdr rest ihdr icmp. eth_parse buf = Some (ehdr, rest) \<and> ip_parse rest = Some (ihdr, icmp) \<and>
    eh_dst_mac ehdr = dst_mac \<and> eh_src_mac ehdr = our_mac \<and> eh_ether_type ehdr = ETH_IPV4 \<and>
    ih_src_ip ihdr = our_ip \<and> ih_dst_ip ihdr = ih_src_ip ip_hdr \<and> ih_protocol ihdr = PROTO_ICMP \<and>
    icmp_checksum icmp = 0 \<and> take 2 icmp = [0, 0] \<and> drop 4 icmp = drop 4 payload"
proof -
  let ?n = "20 + 8 + length (drop 8 payload)"
  let ?ip0 = "icmp_ip_header ?n our_ip (ih_src_ip ip_hdr)"
  let ?m = "icmp_message (be16_at payload 4) (be16_at payload 6) (drop 8 payload)"
  let ?icmp = "put_checksum ?m 2 (icmp_checksum ?m)"
  let ?eth = "dst_mac @ our_mac @ be16 ETH_IPV4"
  have len: "8 \<le> length payload" "?n \<le> 1010"
    and buf: "\<exists>z. buf = ?eth @ put_checksum ?ip0 10 (internet_checksum ?ip0) @ ?icmp @ z"
    using assms(1) by (auto simp: handle_echo_def Let_def split: if_splits)
  then obtain z where z: "buf = ?eth @ put_checksum ?ip0 10 (internet_checksum ?ip0) @ ?icmp @ z" by blast
  obtain s0 s1 s2 s3 d0 d1 d2 d3 where sd: "our_ip = (s0, s1, s2, s3)" "ih_src_ip ip_hdr = (d0, d1, d2, d3)"
    by (metis prod.exhaust)
  have f: "length ?ip0 = 20" "?ip0 ! 0 = 0x45" "?ip0 ! 9 = PROTO_ICMP" "?ip0 ! 10 = 0" "?ip0 ! 11 = 0"
    "be16_at ?ip0 2 = word_of_nat ?n" "ip_at ?ip0 12 = our_ip" "ip_at ?ip0 16 = ih_src_ip ip_hdr"
    by (simp_all add: icmp_ip_header_def be16_def be16_at_def ip_at_def ip_bytes_def sd nth_Cons')
  have lm: "length ?icmp = 8 + length (drop 8 payload)" by (simp add: icmp_message_def)
  have "unat (be16_at ?ip0 2) = 20 + length ?icmp"
    unfolding f(6) lm using len by (subst unat_of_nat_u16) simp_all
  note p = ip_parse_fields [OF f(1,2,4,5) this, of z]
  have "icmp_checksum ?icmp = 0"
    using len by (intro icmp.seal_verifies) (simp_all add: icmp_message_def)
  moreover have "drop 4 ?icmp = be16 (be16_at payload 4) @ be16 (be16_at payload 6) @ drop 8 payload"
    "take 2 ?icmp = [0, 0]"
    by (simp_all add: put_checksum_def icmp_message_def ICMP_ECHO_REPLY_def numeral_eq_Suc be16_def)
  moreover have "be16 (be16_at payload 4) @ be16 (be16_at payload 6) @ drop 8 payload = drop 4 payload"
    using len by (simp add: be16_at_def be16_of_be16 Cons_nth_drop_Suc numeral_eq_Suc)
  moreover have "eth_parse buf = Some (\<lparr>eh_dst_mac = dst_mac, eh_src_mac = our_mac, eh_ether_type = ETH_IPV4\<rparr>,
      put_checksum ?ip0 10 (internet_checksum ?ip0) @ ?icmp @ z)"
    using assms(2,3) by (simp add: eth_parse_def z be16_at_def be16_def nth_append)
  ultimately show ?thesis using p f by simp
qed

definition sample_header :: ipv4_header where
  "sample_header = \<lparr>ih_version_ihl = 0x45, ih_dscp_ecn = 0, ih_total_length = 22, ih_identification = 0,
     ih_flags_fragment = 0x4000, ih_ttl = 64, ih_protocol = 1, ih_checksum = 0, ih_src_ip = (10, 0, 2, 2),
     ih_dst_ip = (10, 0, 2, 15)\<rparr>"

theorem echo_reply_mirrors_witness:
  "\<exists>buf ehdr rest ihdr icmp. handle_echo sample_header [8, 0, 0, 0, 1, 2, 3, 4, 5] [2, 0, 0, 0, 0, 1] [2, 0, 0, 0, 0, 2]
      (10, 0, 2, 15) = Some buf \<and> eth_parse buf = Some (ehdr, rest) \<and> ip_parse rest = Some (ihdr, icmp) \<and>
    drop 4 icmp = [1, 2, 3, 4, 5]"
proof -
  have "handle_echo sample_header [8, 0, 0, 0, 1, 2, 3, 4, 5] [2, 0, 0, 0, 0, 1] [2, 0, 0, 0, 0, 2] (10, 0, 2, 15) \<noteq> None"
    by (simp add: handle_echo_def ICMP_ECHO_REQUEST_def Let_def)
  then obtain buf where "handle_echo sample_header [8, 0, 0, 0, 1, 2, 3, 4, 5] [2, 0, 0, 0, 0, 1] [2, 0, 0, 0, 0, 2]
      (10, 0, 2, 15) = Some buf" by blast
  with echo_reply_mirrors [OF this] show ?thesis by fastforce
qed

end
