(* ===== verification/Route.thy ===== *)
theory Route
  imports Ipv4
begin

text \<open>
  The routing table of \<^verbatim>\<open>crates/zenus-net/src/route.rs\<close>: eight optional entries, first free
  slot on insertion, longest matching prefix on lookup.
\<close>

record route =
  rt_dest :: ip4
  rt_mask :: ip4
  rt_gateway :: ip4
  rt_iface :: nat

datatype gateway_action = Direct | Via ip4

definition MAX_ROUTES :: nat where
  "MAX_ROUTES = 8"

type_synonym route_table = "route option list"

definition route_clear :: route_table where
  "route_clear = replicate MAX_ROUTES None"

definition route_add :: "route_table \<Rightarrow> ip4 \<Rightarrow> ip4 \<Rightarrow> ip4 \<Rightarrow> nat \<Rightarrow> bool \<times> route_table" where
  "route_add table dest msk gateway ifc =
     (case find_index (\<lambda>slot. slot = None) table of
        Some i \<Rightarrow> (True, table[i := Some \<lparr>rt_dest = dest, rt_mask = msk, rt_gateway = gateway, rt_iface = ifc\<rparr>])
      | None \<Rightarrow> (False, table))"

definition add_default :: "route_table \<Rightarrow> ip4 \<Rightarrow> nat \<Rightarrow> bool \<times> route_table" where
  "add_default table gateway ifc = route_add table (0, 0, 0, 0) (0, 0, 0, 0) gateway ifc"

definition add_direct :: "route_table \<Rightarrow> ip4 \<Rightarrow> ip4 \<Rightarrow> nat \<Rightarrow> bool \<times> route_table" where
  "add_direct table network msk ifc = route_add table network msk (0, 0, 0, 0) ifc"

text \<open>\<open>count_ones\<close> of \<open>core\<close>: the number of set bits.\<close>

definition count_ones :: "u8 \<Rightarrow> nat" where
  "count_ones x = length (filter (bit x) [0..<8])"

definition prefix_len :: "ip4 \<Rightarrow> nat" where
  "prefix_len = (\<lambda>(a, b, c, d). count_ones a + count_ones b + count_ones c + count_ones d)"

definition ip_masked :: "ip4 \<Rightarrow> ip4 \<Rightarrow> ip4" where
  "ip_masked = (\<lambda>(a, b, c, d) (m0, m1, m2, m3). (a AND m0, b AND m1, c AND m2, d AND m3))"

definition route_action :: "route \<Rightarrow> gateway_action" where
  "route_action r = (if rt_gateway r = (0, 0, 0, 0) then Direct else Via (rt_gateway r))"

text \<open>One iteration of the lookup loop on the best candidate so far.\<close>

definition route_better :: "ip4 \<Rightarrow> route option \<Rightarrow> (gateway_action \<times> nat \<times> nat) option \<Rightarrow> (gateway_action \<times> nat \<times> nat) option" where
  "route_better ip slot best =
     (case slot of
        None \<Rightarrow> best
      | Some r \<Rightarrow>
          let plen = prefix_len (rt_mask r)
          in if ip_masked ip (rt_mask r) = rt_dest r \<and>
                (case best of None \<Rightarrow> True | Some (_, _, b) \<Rightarrow> plen > b)
             then Some (route_action r, rt_iface r, plen) else best)"

definition route_lookup :: "route_table \<Rightarrow> ip4 \<Rightarrow> (gateway_action \<times> nat) option" where
  "route_lookup table ip =
     map_option (\<lambda>(gw, ifc, _). (gw, ifc)) (fold (route_better ip) table None)"

section \<open>Longest prefix match\<close>

definition route_matches :: "ip4 \<Rightarrow> route \<Rightarrow> bool" where
  "route_matches ip r \<longleftrightarrow> ip_masked ip (rt_mask r) = rt_dest r"

text \<open>
  \<open>best_route table ip i r\<close>: entry \<open>i\<close> holds the matching route \<open>r\<close>, no matching route has a
  longer prefix, and those before \<open>i\<close> have a shorter one.
\<close>

definition best_route :: "route_table \<Rightarrow> ip4 \<Rightarrow> nat \<Rightarrow> route \<Rightarrow> bool" where
  "best_route table ip i r \<longleftrightarrow> i < length table \<and> table ! i = Some r \<and> route_matches ip r \<and>
     (\<forall>j < length table. \<forall>q. table ! j = Some q \<and> route_matches ip q \<longrightarrow>
        prefix_len (rt_mask q) \<le> prefix_len (rt_mask r) \<and>
        (j < i \<longrightarrow> prefix_len (rt_mask q) < prefix_len (rt_mask r)))"

lemma best_routeD:
  assumes "best_route table ip i r"
  shows "i < length table" "table ! i = Some r" "route_matches ip r"
    and "\<And>j q. j < length table \<Longrightarrow> table ! j = Some q \<Longrightarrow> route_matches ip q \<Longrightarrow>
      prefix_len (rt_mask q) \<le> prefix_len (rt_mask r) \<and> (j < i \<longrightarrow> prefix_len (rt_mask q) < prefix_len (rt_mask r))"
  using assms unfolding best_route_def by blast+

lemma route_better_simps [simp]:
  "route_better ip None best = best"
  "route_better ip (Some q) None =
     (if route_matches ip q then Some (route_action q, rt_iface q, prefix_len (rt_mask q)) else None)"
  "route_better ip (Some q) (Some (g, f, n)) =
     (if route_matches ip q \<and> prefix_len (rt_mask q) > n
      then Some (route_action q, rt_iface q, prefix_len (rt_mask q)) else Some (g, f, n))"
  by (simp_all add: route_better_def route_matches_def Let_def)

lemma route_better_inv:
  "case fold (route_better ip) table None of
     None \<Rightarrow> \<forall>r. Some r \<in> set table \<longrightarrow> \<not> route_matches ip r
   | Some (gw, ifc, n) \<Rightarrow>
       \<exists>i r. best_route table ip i r \<and> gw = route_action r \<and> ifc = rt_iface r \<and> n = prefix_len (rt_mask r)"
proof (induction table rule: rev_induct)
  case Nil
  then show ?case by simp
next
  case (snoc slot table)
  let ?b = "fold (route_better ip) table None"
  have ext: "best_route (table @ [s]) ip i r"
    if "best_route table ip i r" "\<And>q. s = Some q \<Longrightarrow> route_matches ip q \<Longrightarrow> prefix_len (rt_mask q) \<le> prefix_len (rt_mask r)"
    for s i r
    using that by (auto simp: best_route_def nth_append less_Suc_eq)
  have new: "best_route (table @ [Some q]) ip (length table) q"
    if "route_matches ip q" "\<And>r. Some r \<in> set table \<Longrightarrow> route_matches ip r \<Longrightarrow> prefix_len (rt_mask r) < prefix_len (rt_mask q)" for q
    using that nth_mem by (fastforce simp: best_route_def nth_append less_Suc_eq)
  show ?case
  proof (cases slot)
    case None
    with snoc show ?thesis using ext by (fastforce split: option.splits)
  next
    case slot: (Some q)
    show ?thesis
    proof (cases ?b)
      case None
      with snoc have none: "\<not> route_matches ip r" if "Some r \<in> set table" for r using that by simp
      show ?thesis
      proof (cases "route_matches ip q")
        case True
        have "best_route (table @ [Some q]) ip (length table) q" using True none by (intro new) blast+
        with True None slot show ?thesis by auto
      qed (use None slot none in auto)
    next
      case (Some b)
      then obtain i r where r: "best_route table ip i r" "b = (route_action r, rt_iface r, prefix_len (rt_mask r))"
        using snoc by (auto split: prod.splits)
      show ?thesis
      proof (cases "route_matches ip q \<and> prefix_len (rt_mask q) > prefix_len (rt_mask r)")
        case True
        have "prefix_len (rt_mask r') \<le> prefix_len (rt_mask r)" if "Some r' \<in> set table" "route_matches ip r'" for r'
          using r(1) that by (auto simp: best_route_def in_set_conv_nth)
        then have "best_route (table @ [Some q]) ip (length table) q" using True by (intro new) fastforce+
        with True Some slot r show ?thesis by auto
      next
        case False
        then have "best_route (table @ [Some q]) ip i r" by (intro ext r) auto
        with False Some slot r show ?thesis by auto
      qed
    qed
  qed
qed

section \<open>Properties\<close>

text \<open>
  C14: \<open>lookup\<close> is the longest-prefix match: it fails exactly when no entry matches, and otherwise
  returns the gateway and interface of a matching entry whose prefix is longest, the first such
  entry of the table.
\<close>

theorem route_lookup_longest_prefix:
  "(route_lookup table ip = None \<longleftrightarrow> (\<forall>r. Some r \<in> set table \<longrightarrow> \<not> route_matches ip r)) \<and>
   (route_lookup table ip = Some (gw, ifc) \<longleftrightarrow>
      (\<exists>i r. best_route table ip i r \<and> gw = route_action r \<and> ifc = rt_iface r))"
proof -
  have "\<not> j < i" if b: "best_route table ip i r" "best_route table ip j q" for i j r q
  proof
    assume "j < i"
    with best_routeD(4) [OF b(1) best_routeD(1-3) [OF b(2)]] best_routeD(4) [OF b(2) best_routeD(1-3) [OF b(1)]]
    show False by simp
  qed
  then have uniq: "i = j" if "best_route table ip i r" "best_route table ip j q" for i j r q
    using that by (meson linorder_neqE_nat)
  have hit: "\<exists>r. Some r \<in> set table \<and> route_matches ip r" if "best_route table ip i r" for i r
    using best_routeD(1-3) [OF that] nth_mem [of i table] by auto
  show ?thesis
  proof (cases "fold (route_better ip) table None")
    case None
    then have "route_lookup table ip = None" "\<forall>r. Some r \<in> set table \<longrightarrow> \<not> route_matches ip r"
      using route_better_inv [where ip = ip and table = table] by (simp_all add: route_lookup_def)
    with hit show ?thesis by (metis option.distinct(1))
  next
    case (Some b)
    then obtain i r where r: "best_route table ip i r" "b = (route_action r, rt_iface r, prefix_len (rt_mask r))"
      using route_better_inv [where ip = ip and table = table] by (auto split: prod.splits)
    have e: "route_lookup table ip = Some (route_action r, rt_iface r)" by (simp add: route_lookup_def Some r(2))
    have "q = r" if "best_route table ip j q" for j q
      using uniq [OF r(1) that] best_routeD(2) [OF r(1)] best_routeD(2) [OF that] by simp
    then have "Some (route_action r, rt_iface r) = Some (gw, ifc) \<longleftrightarrow>
        (\<exists>i r. best_route table ip i r \<and> gw = route_action r \<and> ifc = rt_iface r)"
      using r(1) by blast
    with hit [OF r(1)] show ?thesis unfolding e by blast
  qed
qed

theorem route_lookup_longest_prefix_witness:
  "route_lookup (snd (add_default (snd (add_direct route_clear (10, 0, 2, 0) (255, 255, 255, 0) 1)) (10, 0, 2, 2) 1)) (10, 0, 2, 7)
     = Some (Direct, 1)"
proof -
  let ?t = "snd (add_default (snd (add_direct route_clear (10, 0, 2, 0) (255, 255, 255, 0) 1)) (10, 0, 2, 2) 1)"
  let ?r = "\<lparr>rt_dest = (10, 0, 2, 0), rt_mask = (255, 255, 255, 0), rt_gateway = (0, 0, 0, 0), rt_iface = 1\<rparr>"
  have "?t = Some ?r # Some \<lparr>rt_dest = (0, 0, 0, 0), rt_mask = (0, 0, 0, 0), rt_gateway = (10, 0, 2, 2), rt_iface = 1\<rparr> #
      replicate 6 None" by code_simp
  then have "best_route ?t (10, 0, 2, 7) 0 ?r"
    by (auto simp: best_route_def route_matches_def ip_masked_def prefix_len_def count_ones_def nth_Cons' numeral_eq_Suc
        upt_rec split: if_splits)
  then have "\<exists>i r. best_route ?t (10, 0, 2, 7) i r \<and> Direct = route_action r \<and> 1 = rt_iface r"
    by (intro exI [of _ 0] exI [of _ ?r]) (simp add: route_action_def)
  with route_lookup_longest_prefix [of ?t "(10, 0, 2, 7)" Direct 1] show ?thesis by blast
qed

text \<open>
  Adding a route takes the first free slot and leaves the others alone; it is refused exactly
  when every slot is taken, so after \<open>clear\<close> eight routes fit.
\<close>

lemma route_add_slot:
  "case route_add table dest msk gw ifc of
     (True, table') \<Rightarrow> \<exists>i < length table. table ! i = None \<and> (\<forall>j < i. table ! j \<noteq> None) \<and>
        table' = table[i := Some \<lparr>rt_dest = dest, rt_mask = msk, rt_gateway = gw, rt_iface = ifc\<rparr>]
   | (False, table') \<Rightarrow> None \<notin> set table \<and> table' = table"
  by (auto simp: route_add_def find_index_None_iff find_index_Some_iff split: option.splits)

end
