(* ===== verification/Firewall.thy ===== *)
theory Firewall
  imports Route
begin

text \<open>
  The packet filter of \<^verbatim>\<open>crates/zenus-net/src/firewall.rs\<close>: an ordered table of rules, the
  first match decides, and a connection table that rules may refer to. The byte-wise masked
  comparisons of addresses are \<open>ip_masked\<close>; the clock of \<open>firewall_clear_connections\<close> is an
  argument.
\<close>

section \<open>State and operations\<close>

datatype firewall_action = Accept | Drop | Reject

datatype firewall_proto = ProtoAny | ProtoTcp | ProtoUdp | ProtoIcmp

datatype conn_state = New | Established | Related

definition RULE_NAME_LEN :: nat where
  "RULE_NAME_LEN = 32"

definition MAX_RULES :: nat where
  "MAX_RULES = 32"

definition MAX_CONNTRACK :: nat where
  "MAX_CONNTRACK = 64"

record firewall_rule =
  fr_name :: bytes
  fr_enabled :: bool
  fr_action :: firewall_action
  fr_proto :: firewall_proto
  fr_src_ip :: ip4
  fr_src_mask :: ip4
  fr_dst_ip :: ip4
  fr_dst_mask :: ip4
  fr_src_port :: u16
  fr_dst_port :: u16
  fr_established :: bool
  fr_packets_matched :: u64

record conn_track =
  ct_src_ip :: ip4
  ct_dst_ip :: ip4
  ct_src_port :: u16
  ct_dst_port :: u16
  ct_proto :: firewall_proto
  ct_state :: conn_state
  ct_last_seen :: u64

record packet_info =
  pi_src_ip :: ip4
  pi_dst_ip :: ip4
  pi_src_port :: u16
  pi_dst_port :: u16
  pi_proto :: firewall_proto

record firewall_state =
  fw_rules :: "firewall_rule option list"
  fw_conns :: "conn_track option list"

definition firewall_init :: firewall_state where
  "firewall_init = \<lparr>fw_rules = replicate MAX_RULES None, fw_conns = replicate MAX_CONNTRACK None\<rparr>"

definition firewall_add_rule :: "firewall_state \<Rightarrow> firewall_rule \<Rightarrow> bool \<times> firewall_state" where
  "firewall_add_rule fw rule =
     (case find_index (\<lambda>s. s = None) (fw_rules fw) of
        Some i \<Rightarrow> (True, fw\<lparr>fw_rules := (fw_rules fw)[i := Some rule]\<rparr>)
      | None \<Rightarrow> (False, fw))"

definition firewall_remove_rule :: "firewall_state \<Rightarrow> nat \<Rightarrow> bool \<times> firewall_state" where
  "firewall_remove_rule fw index =
     (if index \<ge> MAX_RULES then (False, fw)
      else if fw_rules fw ! index \<noteq> None then (True, fw\<lparr>fw_rules := (fw_rules fw)[index := None]\<rparr>)
      else (False, fw))"

definition same_flow :: "packet_info \<Rightarrow> conn_track \<Rightarrow> bool" where
  "same_flow pkt c \<longleftrightarrow> ct_src_ip c = pi_src_ip pkt \<and> ct_dst_ip c = pi_dst_ip pkt \<and>
     ct_src_port c = pi_src_port pkt \<and> ct_dst_port c = pi_dst_port pkt \<and> ct_proto c = pi_proto pkt"

text \<open>The first loop of \<open>firewall_check\<close>: the first entry of the flow, if any, decides.\<close>

definition found_established :: "firewall_state \<Rightarrow> packet_info \<Rightarrow> bool" where
  "found_established fw pkt =
     (case find_index (\<lambda>s. case s of None \<Rightarrow> False | Some c \<Rightarrow> same_flow pkt c) (fw_conns fw) of
        None \<Rightarrow> False
      | Some i \<Rightarrow> ct_state (the (fw_conns fw ! i)) = Established \<or> ct_state (the (fw_conns fw ! i)) = Related)"

text \<open>The conditions of the second loop, in the order of its \<open>continue\<close>s.\<close>

definition rule_matches :: "packet_info \<Rightarrow> bool \<Rightarrow> firewall_rule \<Rightarrow> bool" where
  "rule_matches pkt established rule \<longleftrightarrow>
     fr_enabled rule \<and>
     (fr_proto rule = ProtoAny \<or> fr_proto rule = pi_proto pkt) \<and>
     ip_masked (pi_src_ip pkt) (fr_src_mask rule) = ip_masked (fr_src_ip rule) (fr_src_mask rule) \<and>
     ip_masked (pi_dst_ip pkt) (fr_dst_mask rule) = ip_masked (fr_dst_ip rule) (fr_dst_mask rule) \<and>
     (pi_proto pkt = ProtoTcp \<or> pi_proto pkt = ProtoUdp \<longrightarrow>
        (fr_src_port rule = 0 \<or> fr_src_port rule = pi_src_port pkt) \<and>
        (fr_dst_port rule = 0 \<or> fr_dst_port rule = pi_dst_port pkt)) \<and>
     (fr_established rule \<longrightarrow> established)"

definition firewall_check :: "firewall_state \<Rightarrow> packet_info \<Rightarrow> firewall_action \<times> firewall_state" where
  "firewall_check fw pkt =
     (let established = found_established fw pkt
      in case find_index (\<lambda>s. case s of None \<Rightarrow> False | Some r \<Rightarrow> rule_matches pkt established r) (fw_rules fw) of
           Some i \<Rightarrow>
             (let r = the (fw_rules fw ! i)
              in (fr_action r, fw\<lparr>fw_rules := (fw_rules fw)
                    [i := Some (r\<lparr>fr_packets_matched := fr_packets_matched r + 1\<rparr>)]\<rparr>))
         | None \<Rightarrow> (Accept, fw))"

definition conn_flow :: "conn_track \<Rightarrow> packet_info" where
  "conn_flow c = \<lparr>pi_src_ip = ct_src_ip c, pi_dst_ip = ct_dst_ip c, pi_src_port = ct_src_port c,
     pi_dst_port = ct_dst_port c, pi_proto = ct_proto c\<rparr>"

definition firewall_track_connection :: "firewall_state \<Rightarrow> conn_track \<Rightarrow> firewall_state" where
  "firewall_track_connection fw conn =
     (case find_index (\<lambda>s. case s of None \<Rightarrow> False | Some c \<Rightarrow> same_flow (conn_flow conn) c) (fw_conns fw) of
        Some i \<Rightarrow>
          (let c = the (fw_conns fw ! i)
           in fw\<lparr>fw_conns := (fw_conns fw)
                [i := Some (c\<lparr>ct_state := ct_state conn, ct_last_seen := ct_last_seen conn\<rparr>)]\<rparr>)
      | None \<Rightarrow>
          (case find_index (\<lambda>s. s = None) (fw_conns fw) of
             Some i \<Rightarrow> fw\<lparr>fw_conns := (fw_conns fw)[i := Some conn]\<rparr>
           | None \<Rightarrow> fw))"

definition firewall_clear_connections :: "u64 \<Rightarrow> firewall_state \<Rightarrow> firewall_state" where
  "firewall_clear_connections ticks fw =
     fw\<lparr>fw_conns := map (\<lambda>s. case s of
          None \<Rightarrow> None
        | Some c \<Rightarrow> if ticks - ct_last_seen c > 300 then None else Some c) (fw_conns fw)\<rparr>"

definition firewall_rule_count :: "firewall_state \<Rightarrow> nat" where
  "firewall_rule_count fw = length (filter (\<lambda>s. s \<noteq> None) (fw_rules fw))"

definition firewall_conn_count :: "firewall_state \<Rightarrow> nat" where
  "firewall_conn_count fw = length (filter (\<lambda>s. s \<noteq> None) (fw_conns fw))"

section \<open>The connection table as a map from flows\<close>

text \<open>
  The abstraction of the connection table: a partial function from flows to entries. In a
  well-formed table a flow has one entry, so the array scan is a lookup.
\<close>

definition conn_of :: "firewall_state \<Rightarrow> packet_info \<Rightarrow> conn_track option" where
  "conn_of fw pkt = (case find_index (\<lambda>s. case s of None \<Rightarrow> False | Some c \<Rightarrow> same_flow pkt c) (fw_conns fw) of
     None \<Rightarrow> None | Some i \<Rightarrow> fw_conns fw ! i)"

definition fw_wf :: "firewall_state \<Rightarrow> bool" where
  "fw_wf fw \<longleftrightarrow> length (fw_rules fw) = MAX_RULES \<and> length (fw_conns fw) = MAX_CONNTRACK \<and>
     (\<forall>i j c d. i < j \<and> j < length (fw_conns fw) \<and> fw_conns fw ! i = Some c \<and> fw_conns fw ! j = Some d \<longrightarrow>
        conn_flow c \<noteq> conn_flow d)"

lemma same_flow_iff: "same_flow pkt c \<longleftrightarrow> conn_flow c = pkt"
  by (cases pkt) (auto simp: same_flow_def conn_flow_def)

lemma conn_flow_upd [simp]: "conn_flow (c\<lparr>ct_state := s, ct_last_seen := t\<rparr>) = conn_flow c"
  by (simp add: conn_flow_def)

lemma flow_unique:
  assumes "fw_wf fw" "i < length (fw_conns fw)" "j < length (fw_conns fw)"
    and "fw_conns fw ! i = Some c" "fw_conns fw ! j = Some d" "conn_flow c = conn_flow d"
  shows "i = j"
proof (rule ccontr)
  assume "i \<noteq> j"
  then consider "i < j" | "j < i" by linarith
  then show False using assms unfolding fw_wf_def by cases metis+
qed

lemma conn_of_Some_iff:
  assumes "fw_wf fw"
  shows "conn_of fw pkt = Some c \<longleftrightarrow> (\<exists>i < length (fw_conns fw). fw_conns fw ! i = Some c) \<and> conn_flow c = pkt"
proof
  assume "conn_of fw pkt = Some c"
  then show "(\<exists>i < length (fw_conns fw). fw_conns fw ! i = Some c) \<and> conn_flow c = pkt"
    by (auto simp: conn_of_def find_index_Some_iff same_flow_iff split: option.splits)
next
  assume r: "(\<exists>i < length (fw_conns fw). fw_conns fw ! i = Some c) \<and> conn_flow c = pkt"
  then obtain i where i: "i < length (fw_conns fw)" "fw_conns fw ! i = Some c" by blast
  let ?P = "\<lambda>s. case s of None \<Rightarrow> False | Some c \<Rightarrow> same_flow pkt c"
  obtain k where k: "find_index ?P (fw_conns fw) = Some k"
    using find_index_ex [of "Some c" "fw_conns fw" ?P] i r nth_mem [OF i(1)] by (auto simp: same_flow_iff)
  then obtain d where d: "k < length (fw_conns fw)" "fw_conns fw ! k = Some d" "conn_flow d = pkt"
    by (auto simp: find_index_Some_iff same_flow_iff split: option.splits)
  have "k = i"
    using r by (intro flow_unique [OF assms d(1) i(1) d(2) i(2)]) (simp add: d(3))
  then show "conn_of fw pkt = Some c" using k i by (simp add: conn_of_def)
qed

lemma found_established_iff:
  "found_established fw pkt \<longleftrightarrow> (\<exists>c. conn_of fw pkt = Some c \<and> ct_state c \<in> {Established, Related})"
proof (cases "find_index (\<lambda>s. case s of None \<Rightarrow> False | Some c \<Rightarrow> same_flow pkt c) (fw_conns fw)")
  case None
  then show ?thesis by (simp add: found_established_def conn_of_def)
next
  case (Some i)
  from find_index_SomeD(2) [OF Some] obtain c where "fw_conns fw ! i = Some c" by (auto split: option.splits)
  with Some show ?thesis by (simp add: found_established_def conn_of_def)
qed

text \<open>Writing one slot, either a free one or the one of the same flow, is an update of the map.\<close>

lemma conn_slot_update:
  assumes wf: "fw_wf fw" and k: "k < length (fw_conns fw)"
    and old: "fw_conns fw ! k = None \<and> conn_of fw (conn_flow c) = None \<or>
      (\<exists>d. fw_conns fw ! k = Some d \<and> conn_flow d = conn_flow c)"
  defines "fw' \<equiv> fw\<lparr>fw_conns := (fw_conns fw)[k := Some c]\<rparr>"
  shows "fw_wf fw'" and "conn_of fw' = (conn_of fw)(conn_flow c \<mapsto> c)"
proof -
  have other: "conn_flow d \<noteq> conn_flow c"
    if "i < length (fw_conns fw)" "i \<noteq> k" "fw_conns fw ! i = Some d" for i d
  proof
    assume eq: "conn_flow d = conn_flow c"
    then have "conn_of fw (conn_flow c) = Some d" using that by (auto simp: conn_of_Some_iff [OF wf])
    with old obtain e where e: "fw_conns fw ! k = Some e" "conn_flow e = conn_flow c" by auto
    have "i = k" by (rule flow_unique [OF wf that(1) k that(3) e(1)]) (simp add: eq e(2))
    with that(2) show False by simp
  qed
  have "conn_flow a \<noteq> conn_flow b" if ij: "i < j" "j < length (fw_conns fw)"
      "fw_conns fw' ! i = Some a" "fw_conns fw' ! j = Some b" for i j a b
  proof (cases "i = k \<or> j = k")
    case True
    then show ?thesis
      using other [of j b] other [of i a] ij k by (auto simp: fw'_def nth_list_update split: if_splits)
  next
    case False
    then have "fw_conns fw ! i = Some a" "fw_conns fw ! j = Some b" using ij by (simp_all add: fw'_def)
    with wf ij(1,2) show ?thesis unfolding fw_wf_def by blast
  qed
  with wf show wf': "fw_wf fw'" unfolding fw_wf_def by (auto simp: fw'_def)
  have "conn_of fw' p = ((conn_of fw)(conn_flow c \<mapsto> c)) p" for p
  proof (cases "p = conn_flow c")
    case True
    have "(\<exists>i < length (fw_conns fw'). fw_conns fw' ! i = Some c) \<and> conn_flow c = conn_flow c"
      using k by (auto simp: fw'_def intro!: exI [of _ k])
    then have "conn_of fw' (conn_flow c) = Some c" by (simp only: conn_of_Some_iff [OF wf'])
    with True show ?thesis by simp
  next
    case False
    have "fw_conns fw' ! i = Some d \<longleftrightarrow> fw_conns fw ! i = Some d"
      if "i < length (fw_conns fw)" "conn_flow d = p" for i d
      using that k old False by (cases "i = k") (auto simp: fw'_def)
    then have "conn_of fw' p = Some d \<longleftrightarrow> conn_of fw p = Some d" for d
      unfolding conn_of_Some_iff [OF wf'] conn_of_Some_iff [OF wf] by (auto simp: fw'_def)
    then have "conn_of fw' p = conn_of fw p" by (cases "conn_of fw p"; cases "conn_of fw' p") auto
    with False show ?thesis by simp
  qed
  then show "conn_of fw' = (conn_of fw)(conn_flow c \<mapsto> c)" by (simp add: fun_eq_iff)
qed

lemma conn_of_None_iff:
  "conn_of fw pkt = None \<longleftrightarrow> find_index (\<lambda>s. case s of None \<Rightarrow> False | Some c \<Rightarrow> same_flow pkt c) (fw_conns fw) = None"
  by (auto simp: conn_of_def find_index_Some_iff split: option.splits)

lemma track_connection_spec:
  assumes wf: "fw_wf fw"
  shows "fw_wf (firewall_track_connection fw conn) \<and>
    fw_rules (firewall_track_connection fw conn) = fw_rules fw \<and>
    (conn_of (firewall_track_connection fw conn) = conn_of fw \<and> conn_of fw (conn_flow conn) = None \<and> None \<notin> set (fw_conns fw) \<or>
     (\<exists>c. conn_of (firewall_track_connection fw conn) = (conn_of fw)(conn_flow conn \<mapsto> c) \<and>
        ct_state c = ct_state conn \<and> ct_last_seen c = ct_last_seen conn \<and> conn_flow c = conn_flow conn))"
proof -
  let ?P = "\<lambda>s. case s of None \<Rightarrow> False | Some c \<Rightarrow> same_flow (conn_flow conn) c"
  show ?thesis
  proof (cases "find_index ?P (fw_conns fw)")
    case (Some k)
    then obtain d where d: "k < length (fw_conns fw)" "fw_conns fw ! k = Some d" "conn_flow d = conn_flow conn"
      by (auto simp: find_index_Some_iff same_flow_iff split: option.splits)
    let ?c = "d\<lparr>ct_state := ct_state conn, ct_last_seen := ct_last_seen conn\<rparr>"
    have c: "conn_flow ?c = conn_flow conn" "ct_state ?c = ct_state conn" "ct_last_seen ?c = ct_last_seen conn"
      using d by simp_all
    have "firewall_track_connection fw conn = fw\<lparr>fw_conns := (fw_conns fw)[k := Some ?c]\<rparr>"
      using Some d by (simp add: firewall_track_connection_def)
    with conn_slot_update [OF wf d(1), of ?c] d c show ?thesis by auto
  next
    case None
    then have n: "conn_of fw (conn_flow conn) = None" by (simp add: conn_of_None_iff)
    show ?thesis
    proof (cases "find_index (\<lambda>s. s = None) (fw_conns fw)")
      case free: (Some k)
      then have k: "k < length (fw_conns fw)" "fw_conns fw ! k = None" by (auto simp: find_index_Some_iff)
      have "firewall_track_connection fw conn = fw\<lparr>fw_conns := (fw_conns fw)[k := Some conn]\<rparr>"
        using None free by (simp add: firewall_track_connection_def)
      with conn_slot_update [OF wf k(1), of conn] k n show ?thesis by auto
    next
      case full: None
      have "firewall_track_connection fw conn = fw"
        using None full by (simp add: firewall_track_connection_def)
      moreover have "None \<notin> set (fw_conns fw)" using full by (auto simp: find_index_None_iff)
      ultimately show ?thesis using n wf by simp
    qed
  qed
qed


section \<open>Properties\<close>


definition drop_all :: firewall_rule where
  "drop_all = \<lparr>fr_name = [], fr_enabled = True, fr_action = Drop, fr_proto = ProtoAny, fr_src_ip = (0, 0, 0, 0),
     fr_src_mask = (0, 0, 0, 0), fr_dst_ip = (0, 0, 0, 0), fr_dst_mask = (0, 0, 0, 0), fr_src_port = 0,
     fr_dst_port = 0, fr_established = False, fr_packets_matched = 0\<rparr>"

definition sample_pkt :: packet_info where
  "sample_pkt = \<lparr>pi_src_ip = (1, 2, 3, 4), pi_dst_ip = (10, 0, 2, 15), pi_src_port = 4000, pi_dst_port = 22,
     pi_proto = ProtoTcp\<rparr>"



lemma firewall_init_wf: "fw_wf firewall_init"
  by (auto simp: fw_wf_def firewall_init_def)


end
