(* ===== verification/Arp.thy ===== *)
theory Arp
  imports Ipv4
begin

text \<open>
  Address resolution, \<^verbatim>\<open>crates/zenus-net/src/arp.rs\<close>: the cache of sixteen entries, what may be
  learned from the wire, static entries, and the frames that are sent and answered.
\<close>

definition ARP_CACHE_SIZE :: nat where
  "ARP_CACHE_SIZE = 16"

definition HARDWARE_TYPE_ETH :: u16 where
  "HARDWARE_TYPE_ETH = 0x0001"

definition PROTOCOL_TYPE_IPV4 :: u16 where
  "PROTOCOL_TYPE_IPV4 = 0x0800"

definition ARP_REQUEST :: u16 where
  "ARP_REQUEST = 0x0001"

definition ARP_REPLY :: u16 where
  "ARP_REPLY = 0x0002"

record arp_entry =
  ae_ip :: ip4
  ae_mac :: mac
  ae_valid :: bool

record arp_state =
  arp_gateway :: ip4
  arp_cache :: "arp_entry list"

datatype arp_insert_result = Known | Learned | Refused | Conflict

definition arp_init :: arp_state where
  "arp_init = \<lparr>arp_gateway = (10, 0, 2, 2),
     arp_cache = replicate ARP_CACHE_SIZE \<lparr>ae_ip = (0, 0, 0, 0), ae_mac = replicate 6 0, ae_valid = False\<rparr>\<rparr>"

definition set_gateway :: "arp_state \<Rightarrow> ip4 \<Rightarrow> arp_state" where
  "set_gateway st gw = st\<lparr>arp_gateway := gw\<rparr>"

definition arp_lookup :: "arp_state \<Rightarrow> ip4 \<Rightarrow> mac option" where
  "arp_lookup st target =
     map_option (\<lambda>i. ae_mac (arp_cache st ! i))
       (find_index (\<lambda>e. ae_valid e \<and> ae_ip e = target) (arp_cache st))"

definition add_static :: "arp_state \<Rightarrow> ip4 \<Rightarrow> mac \<Rightarrow> arp_state" where
  "add_static st ip m =
     (case find_index (\<lambda>e. \<not> ae_valid e \<or> ae_ip e = ip) (arp_cache st) of
        Some i \<Rightarrow> st\<lparr>arp_cache := (arp_cache st)[i := \<lparr>ae_ip = ip, ae_mac = m, ae_valid = True\<rparr>]\<rparr>
      | None \<Rightarrow> st)"

definition classify_insert :: "mac option \<Rightarrow> ip4 \<Rightarrow> mac \<Rightarrow> arp_insert_result" where
  "classify_insert cached incoming_ip incoming_mac =
     (case cached of
        Some existing \<Rightarrow> if existing = incoming_mac then Known else Conflict
      | None \<Rightarrow> if incoming_ip = (0, 0, 0, 0) then Refused else Learned)"

text \<open>
  The slot \<open>arp_insert\<close> writes: the first invalid one, else the first from index 1 on that is
  not the gateway's.
\<close>

definition arp_slot :: "arp_state \<Rightarrow> nat option" where
  "arp_slot st =
     (case find_index (\<lambda>e. \<not> ae_valid e) (arp_cache st) of
        Some i \<Rightarrow> Some i
      | None \<Rightarrow> map_option Suc (find_index (\<lambda>e. ae_ip e \<noteq> arp_gateway st) (drop 1 (arp_cache st))))"

definition arp_insert :: "arp_state \<Rightarrow> ip4 \<Rightarrow> mac \<Rightarrow> arp_insert_result \<times> arp_state" where
  "arp_insert st ip m =
     (let verdict = classify_insert (arp_lookup st ip) ip m
      in if verdict \<noteq> Learned then (verdict, st)
         else if ip = arp_gateway st then (Refused, st)
         else case arp_slot st of
           Some i \<Rightarrow> (Learned, st\<lparr>arp_cache := (arp_cache st)[i := \<lparr>ae_ip = ip, ae_mac = m, ae_valid = True\<rparr>]\<rparr>)
         | None \<Rightarrow> (Conflict, st))"

definition arp_packet :: "mac \<Rightarrow> ip4 \<Rightarrow> mac \<Rightarrow> ip4 \<Rightarrow> u16 \<Rightarrow> bytes" where
  "arp_packet src_mac src_ip dst_mac dst_ip opcode =
     dst_mac @ src_mac @ be16 ETH_ARP @
     be16 HARDWARE_TYPE_ETH @ be16 PROTOCOL_TYPE_IPV4 @ [6, 4] @ be16 opcode @
     src_mac @ ip_bytes src_ip @ dst_mac @ ip_bytes dst_ip"

definition build_reply :: "mac \<Rightarrow> ip4 \<Rightarrow> mac \<Rightarrow> ip4 \<Rightarrow> bytes" where
  "build_reply our_mac our_ip requester_mac requester_ip =
     arp_packet our_mac our_ip requester_mac requester_ip ARP_REPLY"

definition arp_send_request :: "iface option \<Rightarrow> ip4 \<Rightarrow> bytes option" where
  "arp_send_request ifc target =
     map_option (\<lambda>i. arp_packet (if_mac i) (if_ip i) (replicate 6 0xFF) target ARP_REQUEST) ifc"

text \<open>\<open>resolve\<close>: the cached address, or a request to send.\<close>

definition arp_resolve :: "arp_state \<Rightarrow> iface option \<Rightarrow> ip4 \<Rightarrow> mac option \<times> bytes option" where
  "arp_resolve st ifc target =
     (case arp_lookup st target of
        Some m \<Rightarrow> (Some m, None)
      | None \<Rightarrow> (None, arp_send_request ifc target))"

definition target_address :: "bytes \<Rightarrow> ip4 option" where
  "target_address payload = (if length payload < 28 then None else Some (ip_at payload 24))"

definition arp_handle :: "arp_state \<Rightarrow> bytes \<Rightarrow> ip4 \<Rightarrow> mac \<Rightarrow> bytes option \<times> arp_state" where
  "arp_handle st payload our_ip our_mac =
     (if length payload < 28 then (None, st)
      else if be16_at payload 0 \<noteq> HARDWARE_TYPE_ETH then (None, st)
      else if be16_at payload 2 \<noteq> PROTOCOL_TYPE_IPV4 then (None, st)
      else if payload ! 4 \<noteq> 6 \<or> payload ! 5 \<noteq> 4 then (None, st)
      else let sender_mac = take 6 (drop 8 payload);
               sender_ip = ip_at payload 14;
               st1 = snd (arp_insert st sender_ip sender_mac)
      in if be16_at payload 6 = ARP_REQUEST then
           (case target_address payload of
              None \<Rightarrow> (None, st1)
            | Some target \<Rightarrow>
                if target \<noteq> our_ip then (None, st1)
                else (Some (build_reply our_mac our_ip sender_mac sender_ip), st1))
         else (None, st1))"

section \<open>What the wire can change\<close>

lemma arp_slot_Some:
  assumes "arp_slot st = Some i"
  shows "i < length (arp_cache st)"
    and "ae_valid (arp_cache st ! i) \<Longrightarrow> ae_ip (arp_cache st ! i) \<noteq> arp_gateway st"
  using assms by (auto simp: arp_slot_def find_index_Some_iff split: option.splits)

lemma find_index_update:
  assumes "i < length xs" "\<not> P (xs ! i)" "\<not> P x"
  shows "find_index P (xs[i := x]) = find_index P xs"
  using assms by (induction xs arbitrary: i) (auto split: nat.splits)

lemma arp_insert_gateway: "arp_gateway (snd (arp_insert st ip m)) = arp_gateway st"
  by (auto simp: arp_insert_def Let_def split: option.splits)

lemma arp_insert_keeps_gateway:
  "arp_lookup (snd (arp_insert st ip m)) (arp_gateway st) = arp_lookup st (arp_gateway st)"
proof (cases "ip = arp_gateway st \<or> classify_insert (arp_lookup st ip) ip m \<noteq> Learned \<or> arp_slot st = None")
  case True
  then show ?thesis by (auto simp: arp_insert_def Let_def split: option.splits)
next
  case False
  then obtain i where i: "arp_slot st = Some i" by auto
  let ?P = "\<lambda>e. ae_valid e \<and> ae_ip e = arp_gateway st"
  let ?e = "\<lparr>ae_ip = ip, ae_mac = m, ae_valid = True\<rparr>"
  have keep: "\<not> ?P (arp_cache st ! i)" "\<not> ?P ?e" using arp_slot_Some [OF i] False by auto
  note f = find_index_update [of i "arp_cache st" ?P ?e, OF arp_slot_Some(1) [OF i] keep]
  have "(arp_cache st)[i := ?e] ! k = arp_cache st ! k" if "find_index ?P (arp_cache st) = Some k" for k
    using that keep find_index_SomeD(2) [OF that] by (cases "k = i") auto
  with False i f show ?thesis
    by (auto simp: arp_insert_def Let_def arp_lookup_def option.map_comp intro!: option.map_cong)
qed

lemma arp_handle_state:
  "snd (arp_handle st payload our_ip our_mac) \<in>
     {st, snd (arp_insert st (ip_at payload 14) (take 6 (drop 8 payload)))}"
  by (auto simp: arp_handle_def Let_def split: option.splits)

lemma arp_insert_learns:
  assumes "arp_lookup st ip = None" "ip \<noteq> (0, 0, 0, 0)" "ip \<noteq> arp_gateway st" "arp_slot st \<noteq> None"
  shows "arp_lookup (snd (arp_insert st ip m)) ip = Some m"
proof -
  obtain i where i: "arp_slot st = Some i" using assms(4) by auto
  let ?P = "\<lambda>e. ae_valid e \<and> ae_ip e = ip" and ?e = "\<lparr>ae_ip = ip, ae_mac = m, ae_valid = True\<rparr>"
  have "\<forall>e \<in> set (arp_cache st). \<not> ?P e"
    using assms(1) by (simp add: arp_lookup_def find_index_None_iff)
  then have "find_index ?P ((arp_cache st)[i := ?e]) = Some i"
    using arp_slot_Some(1) [OF i] by (auto simp: find_index_Some_iff nth_list_update)
  with i assms arp_slot_Some(1) [OF i] show ?thesis
    by (simp add: arp_insert_def Let_def classify_insert_def arp_lookup_def)
qed

section \<open>Properties\<close>

text \<open>The state after a sequence of frames, each with the interface identity it arrived on.\<close>

definition arp_run :: "(bytes \<times> ip4 \<times> mac) list \<Rightarrow> arp_state \<Rightarrow> arp_state" where
  "arp_run frames st = fold (\<lambda>(payload, our_ip, our_mac) st. snd (arp_handle st payload our_ip our_mac)) frames st"

text \<open>
  C17: No sequence of ARP frames from the network, whatever they contain, changes what the cache
  answers for the gateway.
\<close>

theorem gateway_not_poisoned:
  "arp_lookup (arp_run frames st) (arp_gateway st) = arp_lookup st (arp_gateway st) \<and>
   arp_gateway (arp_run frames st) = arp_gateway st"
proof (induction frames arbitrary: st)
  case Nil
  then show ?case by (simp add: arp_run_def)
next
  case (Cons f frames)
  obtain payload our_ip our_mac where f: "f = (payload, our_ip, our_mac)" by (cases f)
  let ?st = "snd (arp_handle st payload our_ip our_mac)"
  have step: "arp_lookup ?st (arp_gateway st) = arp_lookup st (arp_gateway st)" "arp_gateway ?st = arp_gateway st"
    using arp_handle_state [of st payload our_ip our_mac]
    by (auto simp: arp_insert_keeps_gateway arp_insert_gateway)
  have "arp_run (f # frames) st = arp_run frames ?st" by (simp add: arp_run_def f)
  with Cons.IH [of ?st] step show ?case by simp
qed


definition sample_arp_request :: bytes where
  "sample_arp_request = drop 14 (arp_packet [2, 0, 0, 0, 0, 9] (10, 0, 2, 9) (replicate 6 0xFF) (10, 0, 2, 15) ARP_REQUEST)"


definition forged :: "u8 \<Rightarrow> mac \<Rightarrow> bytes" where
  "forged n m = drop 14 (arp_packet m (10, 0, 2, n) (replicate 6 0) (10, 0, 2, 99) ARP_REPLY)"

definition attack :: "(bytes \<times> ip4 \<times> mac) list" where
  "attack = map (\<lambda>n. (forged n (replicate 6 0xBA), (10, 0, 2, 15), replicate 6 1))
     [100, 101, 102, 103, 104, 105, 106, 107, 108, 109, 110, 111, 112, 113, 114, 3]"

definition booted_arp :: arp_state where
  "booted_arp = add_static (add_static arp_init (10, 0, 2, 2) [0x52, 0x55, 0x0a, 0x00, 0x02, 0x02])
     (10, 0, 2, 3) [0x52, 0x55, 0x0a, 0x00, 0x02, 0x02]"


end
