(* ===== verification/Nic.thy ===== *)
theory Nic
  imports Firewall Arp
begin

text \<open>
  The interface layer of \<^verbatim>\<open>crates/zenus-net/src/nic.rs\<close>: what \<open>poll_packet\<close> does with a
  received frame (Ethernet, ARP, IPv4, packet filter, connection tracking, ICMP, hand-over to
  TCP or UDP), and how \<open>send_packet\<close> puts an IP packet on the wire (route, next hop, ARP, framing
  and padding). The state is what these functions share: the filter, the ARP cache and the routes.
  The device driver is the boundary: a frame to send is a result.
\<close>

record net_state =
  ns_fw :: firewall_state
  ns_arp :: arp_state
  ns_routes :: route_table

datatype delivery =
    ToTcp ip4 ip4 bytes
  | ToUdp ip4 ip4 bytes

definition packet_proto :: "u8 \<Rightarrow> firewall_proto" where
  "packet_proto p =
     (if p = PROTO_TCP then ProtoTcp else if p = PROTO_UDP then ProtoUdp
      else if p = PROTO_ICMP then ProtoIcmp else ProtoAny)"

definition packet_ports :: "bytes \<Rightarrow> u16 \<times> u16" where
  "packet_ports payload = (if length payload \<ge> 4 then (be16_at payload 0, be16_at payload 2) else (0, 0))"

definition packet_of :: "ipv4_header \<Rightarrow> bytes \<Rightarrow> packet_info" where
  "packet_of hdr payload =
     \<lparr>pi_src_ip = ih_src_ip hdr, pi_dst_ip = ih_dst_ip hdr, pi_src_port = fst (packet_ports payload),
      pi_dst_port = snd (packet_ports payload), pi_proto = packet_proto (ih_protocol hdr)\<rparr>"

definition conn_entry :: "u64 \<Rightarrow> packet_info \<Rightarrow> conn_track" where
  "conn_entry ticks pkt =
     \<lparr>ct_src_ip = pi_src_ip pkt, ct_dst_ip = pi_dst_ip pkt, ct_src_port = pi_src_port pkt,
      ct_dst_port = pi_dst_port pkt, ct_proto = pi_proto pkt, ct_state = Established, ct_last_seen = ticks\<rparr>"

text \<open>
  The interface table: the occupied slots of \<open>INTERFACES\<close> in order, so \<open>IFACE_COUNT\<close> is its length.
  \<open>net_init\<close> takes what the two driver probes found (address, IP address and link state).
\<close>

definition get_iface :: "iface list \<Rightarrow> nat \<Rightarrow> iface option" where
  "get_iface ifs idx = (if idx < length ifs then Some (ifs ! idx) else None)"

definition virtio_iface_index :: "iface list \<Rightarrow> nat option" where
  "virtio_iface_index ifs = find_index (\<lambda>i. if_type i = Virtio) ifs"

definition set_iface_ip :: "iface list \<Rightarrow> nat \<Rightarrow> ip4 \<Rightarrow> ip4 \<Rightarrow> ip4 \<Rightarrow> bool \<times> iface list" where
  "set_iface_ip ifs idx ip subnet gw =
     (if idx \<ge> length ifs then (False, ifs)
      else (True, ifs[idx := (ifs ! idx)\<lparr>if_ip := ip, if_subnet_mask := subnet, if_gateway := gw\<rparr>]))"

definition lo_iface :: iface where
  "lo_iface = \<lparr>if_type = Loopback, if_mac = replicate 6 0, if_ip = (127, 0, 0, 1), if_subnet_mask = (255, 0, 0, 0),
     if_gateway = (0, 0, 0, 0), if_mmio_base = 0, if_irq = 0, if_link_up = True\<rparr>"

definition nic_iface :: "nic_type \<Rightarrow> mac \<Rightarrow> ip4 \<Rightarrow> bool \<Rightarrow> iface" where
  "nic_iface t m ip up = \<lparr>if_type = t, if_mac = m, if_ip = ip, if_subnet_mask = (255, 255, 255, 0),
     if_gateway = (10, 0, 2, 2), if_mmio_base = 0, if_irq = 0, if_link_up = up\<rparr>"

definition net_init :: "(mac \<times> ip4 \<times> bool) option \<Rightarrow> mac option \<Rightarrow> net_state \<Rightarrow> iface list \<times> net_state" where
  "net_init rtl virtio st =
     (let ifs = [lo_iface] @
            (case rtl of None \<Rightarrow> [] | Some (m, ip, up) \<Rightarrow> [nic_iface Rtl8139 m ip up]) @
            (case virtio of None \<Rightarrow> [] | Some m \<Rightarrow> [nic_iface Virtio m (10, 0, 2, 15) True])
      in if rtl \<noteq> None \<or> virtio \<noteq> None then
           let arp1 = add_static (ns_arp st) (10, 0, 2, 2) [0x52, 0x55, 0x0a, 0x00, 0x02, 0x02];
               arp2 = add_static arp1 (10, 0, 2, 3) [0x52, 0x55, 0x0a, 0x00, 0x02, 0x02];
               rt1 = snd (add_direct (ns_routes st) (10, 0, 2, 0) (255, 255, 255, 0) 1);
               rt2 = snd (add_default rt1 (10, 0, 2, 2) 1)
           in (ifs, st\<lparr>ns_arp := arp2, ns_routes := rt2\<rparr>)
         else (ifs, st))"

text \<open>The reply frame and the upper-layer call of one received frame.\<close>

definition poll_ipv4 :: "u64 \<Rightarrow> iface \<Rightarrow> ethernet_header \<Rightarrow> bytes \<Rightarrow> net_state \<Rightarrow>
  (bytes option \<times> delivery option) \<times> net_state"
where
  "poll_ipv4 ticks ifc eth_hdr eth_payload st =
     (case ip_parse eth_payload of
        None \<Rightarrow> ((None, None), st)
      | Some (ip_hdr, ip_payload) \<Rightarrow>
          if ih_dst_ip ip_hdr \<noteq> if_ip ifc \<and> ih_dst_ip ip_hdr \<noteq> (255, 255, 255, 255) then ((None, None), st)
          else let pkt = packet_of ip_hdr ip_payload
          in case firewall_check (ns_fw st) pkt of (action, fw1) \<Rightarrow>
            if action \<noteq> Accept then ((None, None), st\<lparr>ns_fw := fw1\<rparr>)
            else let st1 = st\<lparr>ns_fw := firewall_track_connection fw1 (conn_entry ticks pkt)\<rparr>
            in if ih_protocol ip_hdr = PROTO_TCP then
                 ((None, Some (ToTcp (ih_src_ip ip_hdr) (ih_dst_ip ip_hdr) ip_payload)), st1)
               else if ih_protocol ip_hdr = PROTO_UDP then
                 ((None, Some (ToUdp (ih_src_ip ip_hdr) (ih_dst_ip ip_hdr) ip_payload)), st1)
               else if ih_protocol ip_hdr = PROTO_ICMP then
                 ((handle_echo ip_hdr ip_payload (if_mac ifc) (eh_src_mac eth_hdr) (if_ip ifc), None), st1)
               else ((None, None), st1))"

definition poll_packet :: "u64 \<Rightarrow> iface \<Rightarrow> bytes \<Rightarrow> net_state \<Rightarrow> (bytes option \<times> delivery option) \<times> net_state" where
  "poll_packet ticks ifc data st =
     (if length data < 14 then ((None, None), st)
      else case eth_parse data of
        None \<Rightarrow> ((None, None), st)
      | Some (eth_hdr, eth_payload) \<Rightarrow>
          if eh_ether_type eth_hdr = ETH_ARP then
            (case arp_handle (ns_arp st) eth_payload (if_ip ifc) (if_mac ifc) of
               (reply, arp1) \<Rightarrow> ((reply, None), st\<lparr>ns_arp := arp1\<rparr>))
          else if eh_ether_type eth_hdr = ETH_IPV4 then poll_ipv4 ticks ifc eth_hdr eth_payload st
          else ((None, None), st))"

text \<open>Sending: nothing, an ARP request instead of the packet, or the frame.\<close>

datatype send_result = NotSent | ArpRequested "bytes option" | Frame bytes

definition next_hop :: "net_state \<Rightarrow> ip4 \<Rightarrow> ip4" where
  "next_hop st dst = (case route_lookup (ns_routes st) dst of Some (Via gw, _) \<Rightarrow> gw | _ \<Rightarrow> dst)"

definition send_packet :: "net_state \<Rightarrow> iface option \<Rightarrow> bytes \<Rightarrow> send_result" where
  "send_packet st ifc data =
     (case ifc of
        None \<Rightarrow> NotSent
      | Some i \<Rightarrow>
          if if_type i = Loopback then NotSent
          else if length data < 20 then NotSent
          else let dst_ip = ip_at data 16
          in case arp_resolve (ns_arp st) ifc (next_hop st dst_ip) of
            (None, req) \<Rightarrow> ArpRequested req
          | (Some dst_mac, _) \<Rightarrow>
              let total_len = 14 + length data
              in if total_len > 1514 then NotSent
                 else let buf = dst_mac @ if_mac i @ be16 ETH_IPV4 @ data
                 in Frame (buf @ replicate (60 - total_len) 0))"

definition send_broadcast_packet :: "iface option \<Rightarrow> bytes \<Rightarrow> send_result" where
  "send_broadcast_packet ifc data =
     (case ifc of
        None \<Rightarrow> NotSent
      | Some i \<Rightarrow>
          if if_type i = Loopback then NotSent
          else if length data < 20 then NotSent
          else let total_len = 14 + length data
          in if total_len > 1514 then NotSent
             else Frame (replicate 6 0xFF @ if_mac i @ be16 ETH_IPV4 @ data @ replicate (60 - total_len) 0))"

section \<open>From one machine to the next\<close>

lemma eth_parse_frame:
  assumes "length dm = 6" "length sm = 6"
  shows "eth_parse (dm @ sm @ be16 t @ rest) = Some (\<lparr>eh_dst_mac = dm, eh_src_mac = sm, eh_ether_type = t\<rparr>, rest)"
  using assms by (simp add: eth_parse_def be16_at_def be16_def nth_append)

lemma ip_at_dst:
  assumes "ip_send_raw ifc s d proto payload = Some pkt"
  shows "ip_at pkt 16 = d" and "20 \<le> length pkt" and "length pkt \<le> 1500"
proof -
  let ?h = "ip_header (20 + length payload) proto s d"
  have pkt: "pkt = put_checksum ?h 10 (internet_checksum ?h) @ payload" "20 + length payload \<le> 1500"
    using assms by (auto simp: ip_send_raw_def Let_def put_checksum_append split: option.splits if_splits)
  obtain s0 s1 s2 s3 d0 d1 d2 d3 where sd: "s = (s0, s1, s2, s3)" "d = (d0, d1, d2, d3)"
    by (metis prod.exhaust)
  have "ip_at ?h 16 = d"
    by (simp add: ip_header_def be16_def ip_at_def ip_bytes_def sd nth_Cons')
  then show "ip_at pkt 16 = d" by (simp add: pkt ip_at_def nth_append put_checksum_def)
  show "20 \<le> length pkt" "length pkt \<le> 1500" using pkt(2) by (simp_all add: pkt(1))
qed

text \<open>
  C20: A TCP segment that one machine sends is what the next machine's \<open>poll_packet\<close> hands to TCP:
  if \<open>ipv4::send_raw\<close> builds the packet, \<open>send_packet\<close> finds the next hop's address and the
  receiver, which owns the destination address, lets the packet through its filter, then TCP gets
  exactly the segment with the sender's and the receiver's addresses, also when the frame was padded.
\<close>

theorem segment_delivered:
  assumes "ip_send_raw (Some i) s d PROTO_TCP seg = Some pkt" "send_packet st (Some i) pkt = Frame f"
    and "length (if_mac i) = 6" "\<And>m. arp_lookup (ns_arp st) (next_hop st d) = Some m \<Longrightarrow> length m = 6"
    and "if_ip peer = d" "\<And>p. fst (firewall_check (ns_fw pst) p) = Accept"
  shows "fst (poll_packet ticks peer f pst) = (None, Some (ToTcp s d seg))"
proof -
  note at = ip_at_dst [OF assms(1)]
  have "if_type i \<noteq> Loopback" using assms(1) by (auto simp: ip_send_raw_def)
  with assms(2) at obtain m where m: "arp_lookup (ns_arp st) (next_hop st d) = Some m"
    and f: "f = m @ if_mac i @ be16 ETH_IPV4 @ pkt @ replicate (60 - (14 + length pkt)) 0"
    by (auto simp: send_packet_def Let_def arp_resolve_def split: if_splits option.splits)
  have eth: "eth_parse f = Some (\<lparr>eh_dst_mac = m, eh_src_mac = if_mac i, eh_ether_type = ETH_IPV4\<rparr>,
      pkt @ replicate (60 - (14 + length pkt)) 0)"
    using eth_parse_frame [of m "if_mac i"] assms(3,4) m by (simp add: f)
  obtain hdr where hdr: "ip_parse (pkt @ replicate (60 - (14 + length pkt)) 0) = Some (hdr, seg)"
    "ih_src_ip hdr = s" "ih_dst_ip hdr = d" "ih_protocol hdr = PROTO_TCP"
    using ip_parse_send_raw [OF assms(1)] by blast
  obtain fw1 where fw: "firewall_check (ns_fw pst) (packet_of hdr seg) = (Accept, fw1)"
    using assms(6) [of "packet_of hdr seg"] by (metis prod.collapse)
  have "14 \<le> length f" using assms(3,4) m by (simp add: f)
  moreover have "ETH_IPV4 \<noteq> ETH_ARP" by (simp add: ETH_IPV4_def ETH_ARP_def)
  ultimately show ?thesis
    using eth hdr fw assms(5) by (simp add: poll_packet_def poll_ipv4_def Let_def)
qed

definition sample_net :: net_state where
  "sample_net = snd (net_init None (Some [2, 0, 0, 0, 0, 1])
     \<lparr>ns_fw = firewall_init, ns_arp = arp_init, ns_routes = route_clear\<rparr>)"

lemma firewall_init_accepts: "fst (firewall_check firewall_init p) = Accept"
proof -
  have "find_index (\<lambda>s. case s of None \<Rightarrow> False | Some r \<Rightarrow> rule_matches p e r) (fw_rules firewall_init) = None" for e
    by (simp add: firewall_init_def find_index_None_iff)
  then show ?thesis by (simp add: firewall_check_def Let_def)
qed

theorem segment_delivered_witness:
  "\<exists>pkt f. ip_send_raw (Some sample_iface) (10, 0, 2, 15) (8, 8, 8, 8) PROTO_TCP [1, 2, 3, 4, 5] = Some pkt \<and>
     send_packet sample_net (Some sample_iface) pkt = Frame f \<and> length f = 60 \<and>
     fst (poll_packet 0 (sample_iface\<lparr>if_ip := (8, 8, 8, 8)\<rparr>) f sample_net)
       = (None, Some (ToTcp (10, 0, 2, 15) (8, 8, 8, 8) [1, 2, 3, 4, 5]))"
proof -
  let ?s = "ip_send_raw (Some sample_iface) (10, 0, 2, 15) (8, 8, 8, 8) PROTO_TCP [1, 2, 3, 4, 5]"
  have 1: "?s = Some (the ?s)" by code_simp
  let ?f = "case send_packet sample_net (Some sample_iface) (the ?s) of Frame f \<Rightarrow> f | _ \<Rightarrow> []"
  have 2: "send_packet sample_net (Some sample_iface) (the ?s) = Frame ?f" "length ?f = 60" by code_simp+
  have 3: "arp_lookup (ns_arp sample_net) (next_hop sample_net (8, 8, 8, 8)) = Some [0x52, 0x55, 0x0a, 0x00, 0x02, 0x02]"
    by code_simp
  have 4: "fst (firewall_check (ns_fw sample_net) p) = Accept" for p
    using firewall_init_accepts by (simp add: sample_net_def net_init_def Let_def)
  have 5: "length (if_mac sample_iface) = 6" by (simp add: sample_iface_def)
  show ?thesis
    using segment_delivered [OF 1 2(1) 5 _ _ 4, where ticks = 0 and peer = "sample_iface\<lparr>if_ip := (8, 8, 8, 8)\<rparr>"] 1 2 3
    by (intro exI [of _ "the ?s"] exI [of _ ?f]) simp
qed

section \<open>What connection tracking can admit\<close>

definition policy :: "firewall_state \<Rightarrow> firewall_rule option list" where
  "policy fw = map (map_option (\<lambda>r. r\<lparr>fr_packets_matched := 0\<rparr>)) (fw_rules fw)"

definition no_conns :: "firewall_state \<Rightarrow> bool" where
  "no_conns fw \<longleftrightarrow> list_all (\<lambda>s. s = None) (fw_conns fw)"

lemma rule_matches_upd [simp]: "rule_matches pkt e (r\<lparr>fr_packets_matched := n\<rparr>) = rule_matches pkt e r"
  by (simp add: rule_matches_def)

lemma no_conns_found: "no_conns fw \<Longrightarrow> \<not> found_established fw pkt"
  by (auto simp: no_conns_def found_established_def list_all_iff find_index_Some_iff split: option.splits dest!: nth_mem)

lemma find_index_map: "find_index P (map f xs) = find_index (\<lambda>x. P (f x)) xs"
  by (induction xs) simp_all

text \<open>The verdict depends on the counters of no rule.\<close>

lemma firewall_check_policy:
  assumes "policy fw = policy fw'" "no_conns fw" "no_conns fw'"
  shows "fst (firewall_check fw pkt) = fst (firewall_check fw' pkt)"
proof -
  let ?P = "\<lambda>s. case s of None \<Rightarrow> False | Some r \<Rightarrow> rule_matches pkt False r"
  have eq: "find_index ?P (policy f) = find_index ?P (fw_rules f)" for f
    by (simp add: policy_def find_index_map) (rule arg_cong [where f = "\<lambda>p. find_index p (fw_rules f)"],
        auto split: option.splits)
  have act: "fr_action (the (fw_rules fw ! i)) = fr_action (the (fw_rules fw' ! i))"
    if "find_index ?P (fw_rules fw) = Some i" "find_index ?P (fw_rules fw') = Some i" for i
  proof -
    from that have "i < length (fw_rules fw)" "i < length (fw_rules fw')"
      and "fw_rules fw ! i \<noteq> None" "fw_rules fw' ! i \<noteq> None"
      by (auto simp: find_index_Some_iff split: option.splits)
    moreover have "policy fw ! i = policy fw' ! i" using assms(1) by simp
    ultimately show ?thesis by (auto simp: policy_def) (metis firewall_rule.surjective firewall_rule.update_convs firewall_rule.select_convs)
  qed
  show ?thesis
    using no_conns_found [OF assms(2), of pkt] no_conns_found [OF assms(3), of pkt] eq [of fw] eq [of fw'] assms(1) act
    by (auto simp: firewall_check_def Let_def split: option.splits)
qed

lemma firewall_check_keeps:
  "policy (snd (firewall_check fw pkt)) = policy fw" "fw_conns (snd (firewall_check fw pkt)) = fw_conns fw"
  by (auto simp: firewall_check_def Let_def policy_def find_index_Some_iff map_update intro!: nth_equalityI
      split: option.splits simp: nth_list_update)

text \<open>The receive path over a sequence of frames.\<close>

fun poll_all :: "iface \<Rightarrow> (u64 \<times> bytes) list \<Rightarrow> net_state \<Rightarrow> delivery list \<times> net_state" where
  "poll_all ifc [] st = ([], st)"
| "poll_all ifc ((t, f) # fs) st =
     (case poll_packet t ifc f st of ((_, d), st1) \<Rightarrow>
      case poll_all ifc fs st1 of (ds, st2) \<Rightarrow> ((case d of None \<Rightarrow> ds | Some x \<Rightarrow> x # ds), st2))"

lemma poll_packet_closed:
  assumes "\<And>p. fst (firewall_check (ns_fw st) p) \<noteq> Accept"
  shows "snd (fst (poll_packet t ifc f st)) = None"
    "policy (ns_fw (snd (poll_packet t ifc f st))) = policy (ns_fw st)"
    "fw_conns (ns_fw (snd (poll_packet t ifc f st))) = fw_conns (ns_fw st)"
proof -
  have chk: "a \<noteq> Accept \<and> policy fw1 = policy (ns_fw st) \<and> fw_conns fw1 = fw_conns (ns_fw st)"
    if "firewall_check (ns_fw st) p = (a, fw1)" for p a fw1
    using assms [of p] firewall_check_keeps [of "ns_fw st" p] that by simp
  have "snd (fst (poll_ipv4 t ifc eh pl st)) = None \<and> policy (ns_fw (snd (poll_ipv4 t ifc eh pl st))) = policy (ns_fw st) \<and>
      fw_conns (ns_fw (snd (poll_ipv4 t ifc eh pl st))) = fw_conns (ns_fw st)" for eh pl
    by (auto simp: poll_ipv4_def Let_def dest: chk split: option.split prod.split)
  then show "snd (fst (poll_packet t ifc f st)) = None"
    "policy (ns_fw (snd (poll_packet t ifc f st))) = policy (ns_fw st)"
    "fw_conns (ns_fw (snd (poll_packet t ifc f st))) = fw_conns (ns_fw st)"
    by (auto simp: poll_packet_def split: option.splits prod.splits)
qed


definition accept_established :: firewall_rule where
  "accept_established = drop_all\<lparr>fr_action := Accept, fr_established := True\<rparr>"

definition strict_fw :: firewall_state where
  "strict_fw = snd (firewall_add_rule (snd (firewall_add_rule firewall_init accept_established)) drop_all)"


end
