(* ===== verification/Tcp.thy ===== *)
theory Tcp
  imports Ipv4
begin

text \<open>
  TCP, \<^verbatim>\<open>crates/zenus-net/src/tcp.rs\<close>: the connection table, segments, the receive handler with one
  definition per connection state, the retransmission timer, and the calls of the socket layer.

  A call of \<open>ipv4::send\<close> is an output, the pair of the destination and the segment; whether it
  succeeds is the parameter \<open>tx\<close>. The initial sequence number drawn by \<open>rand_isn\<close> and the clock
  \<open>pit::get_ticks\<close> are arguments. A buffer with a length (\<open>rx_data\<close> and \<open>rx_data_len\<close>, \<open>tx_data\<close> and
  \<open>tx_data_len\<close>) is the list of its used bytes. Sequence numbers wrap.
\<close>

datatype tcp_status =
    TCP_CLOSED | TCP_LISTEN | TCP_SYN_SENT | TCP_SYN_RECEIVED | TCP_ESTABLISHED | TCP_FIN_WAIT1
  | TCP_FIN_WAIT2 | TCP_CLOSE_WAIT | TCP_CLOSING | TCP_LAST_ACK | TCP_TIME_WAIT

definition TCP_FLAG_FIN :: u8 where
  "TCP_FLAG_FIN = 0x01"

definition TCP_FLAG_SYN :: u8 where
  "TCP_FLAG_SYN = 0x02"

definition TCP_FLAG_RST :: u8 where
  "TCP_FLAG_RST = 0x04"

definition TCP_FLAG_PSH :: u8 where
  "TCP_FLAG_PSH = 0x08"

definition TCP_FLAG_ACK :: u8 where
  "TCP_FLAG_ACK = 0x10"

definition MAX_CONNS :: nat where
  "MAX_CONNS = 256"

definition MAX_RETRIES :: u8 where
  "MAX_RETRIES = 5"

definition RETRY_INTERVAL :: u8 where
  "RETRY_INTERVAL = 10"

definition MSS :: u16 where
  "MSS = 1460"

definition INIT_CWND :: u16 where
  "INIT_CWND = 1460"

definition INIT_SSTHRESH :: u16 where
  "INIT_SSTHRESH = 65535"

definition KEEPALIVE_IDLE :: u64 where
  "KEEPALIVE_IDLE = 7200"

definition KEEPALIVE_PROBE_INTERVAL :: u64 where
  "KEEPALIVE_PROBE_INTERVAL = 75"

definition KEEPALIVE_PROBES :: u8 where
  "KEEPALIVE_PROBES = 9"

definition TICKS_PER_SEC :: u64 where
  "TICKS_PER_SEC = 100"

definition RX_BUF_LEN :: nat where
  "RX_BUF_LEN = 4096"

definition TX_BUF_LEN :: nat where
  "TX_BUF_LEN = 4096"

definition rx_free :: "nat \<Rightarrow> nat" where
  "rx_free rx_data_len = RX_BUF_LEN - rx_data_len"

definition advertised_window :: "nat \<Rightarrow> u16" where
  "advertised_window rx_data_len = word_of_nat (min (rx_free rx_data_len) 65535)"

definition seq_advance :: "u32 \<Rightarrow> nat \<Rightarrow> u32 \<Rightarrow> u32" where
  "seq_advance seq len extra = seq + word_of_nat len + extra"

datatype keepalive = Wait | Probe | GiveUp

definition keepalive_action :: "u64 \<Rightarrow> u64 \<Rightarrow> u8 \<Rightarrow> keepalive" where
  "keepalive_action ticks next_due probes_sent =
     (if ticks < next_due then Wait
      else if probes_sent \<ge> KEEPALIVE_PROBES then GiveUp
      else Probe)"

text \<open>The products of the constants do not overflow, so \<open>saturating_mul\<close> is the product.\<close>

definition keepalive_idle_deadline :: "u64 \<Rightarrow> u64" where
  "keepalive_idle_deadline last_seen = saturating_add last_seen (KEEPALIVE_IDLE * TICKS_PER_SEC)"

definition keepalive_probe_deadline :: "u64 \<Rightarrow> u64" where
  "keepalive_probe_deadline last_seen = saturating_add last_seen (KEEPALIVE_PROBE_INTERVAL * TICKS_PER_SEC)"

record tcb =
  t_state :: tcp_status
  t_local_ip :: ip4
  t_local_port :: u16
  t_remote_ip :: ip4
  t_remote_port :: u16
  t_send_una :: u32
  t_send_nxt :: u32
  t_recv_nxt :: u32
  t_peer_window :: u16
  t_listening :: bool
  t_rx_data :: bytes
  t_tx_data :: bytes
  t_retry_count :: u8
  t_retry_ticks :: u8
  t_time_wait_ticks :: u8
  t_cwnd :: u16
  t_ssthresh :: u16
  t_dupack_count :: u8
  t_last_ack_seq :: u32
  t_keepalive_probes :: u8
  t_keepalive_due :: u64
  t_sack_blocks :: "(u32 \<times> u32) list"

type_synonym conns = "tcb option list"
type_synonym out = "ip4 \<times> bytes"

definition tcb_win :: "tcb \<Rightarrow> u16" where
  "tcb_win t = advertised_window (length (t_rx_data t))"

definition seq_before :: "u32 \<Rightarrow> u32 \<Rightarrow> bool" where
  "seq_before a b \<longleftrightarrow> sint (a - b) < 0"

definition seq_before_eq :: "u32 \<Rightarrow> u32 \<Rightarrow> bool" where
  "seq_before_eq a b \<longleftrightarrow> a = b \<or> seq_before a b"

definition find_slot :: "conns \<Rightarrow> nat option" where
  "find_slot cs =
     (case find_index (\<lambda>s. s = None) cs of
        Some i \<Rightarrow> Some i
      | None \<Rightarrow> find_index (\<lambda>s. case s of None \<Rightarrow> False | Some t \<Rightarrow> t_state t = TCP_CLOSED) cs)"

definition conn_by_port :: "u16 \<Rightarrow> conns \<Rightarrow> nat option" where
  "conn_by_port port cs =
     find_index (\<lambda>s. case s of None \<Rightarrow> False | Some t \<Rightarrow> t_listening t \<and> t_local_port t = port) cs"

section \<open>Segments\<close>

text \<open>The buffer of \<open>build_segment\<close> is 1500 bytes; the callers send a prefix of it.\<close>

definition build_segment :: "u16 \<Rightarrow> u16 \<Rightarrow> u32 \<Rightarrow> u32 \<Rightarrow> u8 \<Rightarrow> u16 \<Rightarrow> bytes \<Rightarrow> bytes" where
  "build_segment src_port dst_port seq ack flags window payload =
     (let body = take 1480 payload
      in be16 src_port @ be16 dst_port @ be32 seq @ be32 ack @ [0x50, flags] @ be16 window @
         [0, 0] @ [0, 0] @ body @ replicate (1480 - length body) 0)"

definition build_syn_segment :: "u16 \<Rightarrow> u16 \<Rightarrow> u32 \<Rightarrow> u32 \<Rightarrow> u8 \<Rightarrow> u16 \<Rightarrow> bytes" where
  "build_syn_segment src_port dst_port seq ack flags window =
     (let seg = build_segment src_port dst_port seq ack flags window [];
          seg = write_at seg 20 ([2, 4] @ be16 MSS @ [3, 3, 7, 4, 2, 1, 1, 1])
      in seg[12 := 0x80])"

text \<open>The checksum over the first \<open>n\<close> bytes, stored in them: what is sent.\<close>

definition sealed :: "ip4 \<Rightarrow> ip4 \<Rightarrow> nat \<Rightarrow> bytes \<Rightarrow> bytes" where
  "sealed src_ip dst_ip n seg =
     (let s = take n seg in put_checksum s 16 (tcp_checksum src_ip dst_ip s))"

definition sack_merge :: "u32 \<times> u32 \<Rightarrow> (u32 \<times> u32) \<times> (u32 \<times> u32) list \<Rightarrow> (u32 \<times> u32) \<times> (u32 \<times> u32) list" where
  "sack_merge b acc =
     (case (b, acc) of ((l, r), ((new_left, new_right), done)) \<Rightarrow>
        if l = 0 \<and> r = 0 then ((new_left, new_right), done @ [(l, r)])
        else if r \<ge> new_left \<and> l \<le> new_right then
          ((min new_left l, max new_right r), done @ [(0, 0)])
        else ((new_left, new_right), done @ [(l, r)]))"

definition add_sack_block :: "(u32 \<times> u32) list \<Rightarrow> u32 \<Rightarrow> u32 \<Rightarrow> (u32 \<times> u32) list" where
  "add_sack_block blocks left right =
     (case fold sack_merge blocks ((left, right), []) of (merged, bs) \<Rightarrow>
        case find_index (\<lambda>b. fst b = 0 \<and> snd b = 0) bs of
          Some i \<Rightarrow> bs[i := merged]
        | None \<Rightarrow> tl bs @ [merged])"

definition sack_segment :: "u16 \<Rightarrow> u16 \<Rightarrow> u32 \<Rightarrow> u32 \<Rightarrow> u16 \<Rightarrow> (u32 \<times> u32) list \<Rightarrow> bytes" where
  "sack_segment src_port dst_port seq ack window blocks =
     (let used = filter (\<lambda>(l, r). l \<noteq> 0 \<or> r \<noteq> 0) blocks;
          n = length used;
          opt_len = 2 + n * 8;
          padded = (opt_len + 3) div 4 * 4;
          hdr_len = (if n > 0 then 20 + padded else 20);
          options = (if n > 0 then [5, word_of_nat opt_len] @ concat (map (\<lambda>(l, r). be32 l @ be32 r) used) @
                       replicate (padded - opt_len) 1 else [])
      in be16 src_port @ be16 dst_port @ be32 seq @ be32 ack @
         [push_bit 4 (word_of_nat (hdr_len div 4)), TCP_FLAG_ACK] @ be16 window @ [0, 0] @ [0, 0] @ options)"

definition send_sack_ack :: "ip4 \<Rightarrow> ip4 \<Rightarrow> u16 \<Rightarrow> u16 \<Rightarrow> u32 \<Rightarrow> u32 \<Rightarrow> u16 \<Rightarrow> (u32 \<times> u32) list \<Rightarrow> out" where
  "send_sack_ack src_ip dst_ip src_port dst_port seq ack window blocks =
     (let seg = sack_segment src_port dst_port seq ack window blocks
      in (dst_ip, sealed src_ip dst_ip (length seg) seg))"

section \<open>Opening a connection\<close>

definition new_tcb :: "tcp_status \<Rightarrow> ip4 \<Rightarrow> u16 \<Rightarrow> ip4 \<Rightarrow> u16 \<Rightarrow> u32 \<Rightarrow> u32 \<Rightarrow> u32 \<Rightarrow> bool \<Rightarrow> u8 \<Rightarrow> u8 \<Rightarrow> tcb" where
  "new_tcb st lip lport rip rport una nxt rcv lis rc rt =
     \<lparr>t_state = st, t_local_ip = lip, t_local_port = lport, t_remote_ip = rip, t_remote_port = rport,
      t_send_una = una, t_send_nxt = nxt, t_recv_nxt = rcv, t_peer_window = 0, t_listening = lis,
      t_rx_data = [], t_tx_data = [], t_retry_count = rc, t_retry_ticks = rt, t_time_wait_ticks = 0,
      t_cwnd = INIT_CWND, t_ssthresh = INIT_SSTHRESH, t_dupack_count = 0, t_last_ack_seq = 0,
      t_keepalive_probes = 0, t_keepalive_due = 0, t_sack_blocks = replicate 4 (0, 0)\<rparr>"

definition tcp_listen :: "u16 \<Rightarrow> conns \<Rightarrow> nat option \<times> conns" where
  "tcp_listen port cs =
     (if conn_by_port port cs \<noteq> None then (None, cs)
      else case find_slot cs of
        None \<Rightarrow> (None, cs)
      | Some idx \<Rightarrow>
          (Some idx, cs[idx := Some (new_tcb TCP_LISTEN (0, 0, 0, 0) port (0, 0, 0, 0) 0 0 0 0 True 0 0)]))"

definition tcp_connect :: "(ip4 \<Rightarrow> bytes \<Rightarrow> bool) \<Rightarrow> u32 \<Rightarrow> iface option \<Rightarrow> u16 \<Rightarrow> ip4 \<Rightarrow> u16 \<Rightarrow> conns \<Rightarrow>
  nat option \<times> out list \<times> conns"
where
  "tcp_connect tx isn ifc local_port dst_ip dst_port cs =
     (case find_slot cs of
        None \<Rightarrow> (None, [], cs)
      | Some idx \<Rightarrow>
          let local_ip = (case ifc of None \<Rightarrow> (0, 0, 0, 0) | Some i \<Rightarrow> if_ip i)
          in if local_ip = (0, 0, 0, 0) \<or> local_ip = (127, 0, 0, 1) then (None, [], cs)
          else let seg = sealed local_ip dst_ip 32
                     (build_syn_segment local_port dst_port isn 0 TCP_FLAG_SYN 65535)
          in if \<not> tx dst_ip seg then (None, [(dst_ip, seg)], cs)
          else (Some idx, [(dst_ip, seg)],
                cs[idx := Some (new_tcb TCP_SYN_SENT local_ip local_port dst_ip dst_port isn (isn + 1) 0
                    False MAX_RETRIES RETRY_INTERVAL)]))"

section \<open>The receive handler\<close>

record tcp_seg =
  g_src_ip :: ip4
  g_dst_ip :: ip4
  g_src_port :: u16
  g_dst_port :: u16
  g_seq :: u32
  g_ack :: u32
  g_flags :: u8
  g_window :: u16
  g_payload :: bytes

definition be32_at :: "bytes \<Rightarrow> nat \<Rightarrow> u32" where
  "be32_at bs i = of_be32 (bs ! i) (bs ! (i + 1)) (bs ! (i + 2)) (bs ! (i + 3))"

definition tcp_parse :: "ip4 \<Rightarrow> ip4 \<Rightarrow> bytes \<Rightarrow> tcp_seg option" where
  "tcp_parse src_ip dst_ip segment =
     (if length segment < 20 then None
      else if tcp_checksum src_ip dst_ip segment \<noteq> 0 then None
      else let hdr_len = unat (drop_bit 4 (segment ! 12) * 4)
      in if hdr_len < 20 \<or> hdr_len > length segment then None
      else Some \<lparr>g_src_ip = src_ip, g_dst_ip = dst_ip, g_src_port = be16_at segment 0,
        g_dst_port = be16_at segment 2, g_seq = be32_at segment 4, g_ack = be32_at segment 8,
        g_flags = segment ! 13, g_window = be16_at segment 14, g_payload = drop hdr_len segment\<rparr>)"

definition has_flag :: "tcp_seg \<Rightarrow> u8 \<Rightarrow> bool" where
  "has_flag g f \<longleftrightarrow> g_flags g AND f \<noteq> 0"

text \<open>The last slot that matches wins: the loop overwrites \<open>found\<close>.\<close>

definition conn_matches :: "tcp_seg \<Rightarrow> tcb option \<Rightarrow> bool" where
  "conn_matches g s \<longleftrightarrow>
     (case s of
        None \<Rightarrow> False
      | Some t \<Rightarrow>
          (t_listening t \<and> t_local_port t = g_dst_port g) \<or>
          (\<not> t_listening t \<and> t_local_port t = g_dst_port g \<and> t_remote_port t = g_src_port g \<and>
           t_remote_ip t = g_src_ip g))"

definition find_conn :: "tcp_seg \<Rightarrow> conns \<Rightarrow> nat option" where
  "find_conn g cs = fold (\<lambda>(i, s) found. if conn_matches g s then Some i else found) (enumerate 0 cs) None"

text \<open>A segment without payload back to the sender of \<open>g\<close>.\<close>

definition reply_seg :: "tcp_seg \<Rightarrow> u32 \<Rightarrow> u32 \<Rightarrow> u8 \<Rightarrow> u16 \<Rightarrow> out" where
  "reply_seg g seq ack flags window =
     (g_src_ip g, sealed (g_dst_ip g) (g_src_ip g) 20
        (build_segment (g_dst_port g) (g_src_port g) seq ack flags window []))"

definition ack_reply :: "tcp_seg \<Rightarrow> tcb \<Rightarrow> out" where
  "ack_reply g t = reply_seg g (t_send_nxt t) (t_recv_nxt t) TCP_FLAG_ACK (tcb_win t)"

definition no_conn :: "tcp_seg \<Rightarrow> out list" where
  "no_conn g =
     (if \<not> has_flag g TCP_FLAG_RST \<and> \<not> has_flag g TCP_FLAG_SYN then
        [reply_seg g (if has_flag g TCP_FLAG_ACK then g_ack g else 0)
           (seq_advance (g_seq g) (length (g_payload g)) (if has_flag g TCP_FLAG_FIN then 1 else 0))
           (TCP_FLAG_RST OR TCP_FLAG_ACK) 0]
      else [])"

definition on_listen :: "(ip4 \<Rightarrow> bytes \<Rightarrow> bool) \<Rightarrow> u32 \<Rightarrow> tcp_seg \<Rightarrow> conns \<Rightarrow> bool \<times> out list \<times> conns" where
  "on_listen tx isn g cs =
     (if has_flag g TCP_FLAG_SYN \<and> \<not> has_flag g TCP_FLAG_ACK then
        (case find_slot cs of
           None \<Rightarrow> (False, [], cs)
         | Some child \<Rightarrow>
             let syn_ack = reply_seg g isn (seq_advance (g_seq g) 0 1) (TCP_FLAG_SYN OR TCP_FLAG_ACK) 65535
             in if tx (fst syn_ack) (snd syn_ack) then
                  (True, [syn_ack],
                   cs[child := Some (new_tcb TCP_SYN_RECEIVED (g_dst_ip g) (g_dst_port g) (g_src_ip g) (g_src_port g)
                        isn (isn + 1) (seq_advance (g_seq g) 0 1) False MAX_RETRIES RETRY_INTERVAL)])
                else (True, [syn_ack], cs))
      else (True, [], cs))"

definition on_syn_sent :: "tcp_seg \<Rightarrow> tcb \<Rightarrow> tcb \<times> out list" where
  "on_syn_sent g t =
     (if has_flag g TCP_FLAG_SYN \<and> has_flag g TCP_FLAG_ACK then
        let t1 = t\<lparr>t_recv_nxt := seq_advance (g_seq g) 0 1, t_send_una := g_ack g, t_peer_window := g_window g\<rparr>
        in (t1\<lparr>t_state := TCP_ESTABLISHED, t_retry_count := 0, t_retry_ticks := 0\<rparr>, [ack_reply g t1])
      else if has_flag g TCP_FLAG_SYN then
        (t, [reply_seg g (t_send_nxt t) (seq_advance (g_seq g) 0 1) (TCP_FLAG_SYN OR TCP_FLAG_ACK) (tcb_win t)])
      else (t, []))"

text \<open>
  Buffering of in-order payload, as in \<open>TCP_SYN_RECEIVED\<close> and \<open>TCP_ESTABLISHED\<close>: as much as fits is
  kept, and \<open>recv_nxt\<close> moves past what was kept.
\<close>

definition buffer_payload :: "tcp_seg \<Rightarrow> tcb \<Rightarrow> tcb" where
  "buffer_payload g t =
     (let copy_len = min (length (g_payload g)) (rx_free (length (t_rx_data t)))
      in t\<lparr>t_rx_data := t_rx_data t @ take copy_len (g_payload g), t_recv_nxt := seq_advance (g_seq g) copy_len 0\<rparr>)"

definition on_syn_received :: "tcp_seg \<Rightarrow> tcb \<Rightarrow> tcb \<times> out list" where
  "on_syn_received g t =
     (if has_flag g TCP_FLAG_ACK then
        if g_seq g \<noteq> t_recv_nxt t then (t, [ack_reply g t])
        else let t1 = t\<lparr>t_state := TCP_ESTABLISHED, t_send_una := g_ack g, t_peer_window := g_window g,
                   t_retry_count := 0, t_retry_ticks := 0\<rparr>
        in if g_payload g \<noteq> [] then (let t2 = buffer_payload g t1 in (t2, [ack_reply g t2]))
           else (t1, [])
      else if has_flag g TCP_FLAG_SYN then
        (t, [reply_seg g (t_send_una t) (t_recv_nxt t) (TCP_FLAG_SYN OR TCP_FLAG_ACK) (tcb_win t)])
      else (t, []))"

definition count_dupack :: "u32 \<Rightarrow> tcb \<Rightarrow> tcb" where
  "count_dupack ack t =
     (if ack = t_last_ack_seq t \<and> seq_before (t_send_una t) (t_send_nxt t) then
        let d = saturating_add (t_dupack_count t) 1; t1 = t\<lparr>t_dupack_count := d\<rparr>
        in if d = 3 then t1\<lparr>t_retry_count := MAX_RETRIES, t_retry_ticks := 0\<rparr> else t1
      else if seq_before (t_last_ack_seq t) ack then t\<lparr>t_dupack_count := 0\<rparr>
      else t)"

definition note_ack :: "u32 \<Rightarrow> tcb \<Rightarrow> tcb" where
  "note_ack ack t =
     (if seq_before_eq ack (t_last_ack_seq t) \<or> t_last_ack_seq t = 0 then t\<lparr>t_last_ack_seq := ack\<rparr> else t)"

text \<open>Acknowledged bytes leave the send buffer, and the timer stops when nothing is in flight.\<close>

definition trim_tx :: "u32 \<Rightarrow> tcb \<Rightarrow> tcb" where
  "trim_tx acked_bytes t =
     (if uint acked_bytes \<le> int (length (t_tx_data t))
      then t\<lparr>t_tx_data := drop (unat acked_bytes) (t_tx_data t)\<rparr> else t)"

definition stop_timer :: "tcb \<Rightarrow> tcb" where
  "stop_timer t =
     (if \<not> seq_before (t_send_una t) (t_send_nxt t) then t\<lparr>t_retry_count := 0, t_retry_ticks := 0\<rparr> else t)"

definition est_una :: "u32 \<Rightarrow> tcb \<Rightarrow> u32 \<times> tcb" where
  "est_una ack t =
     (if seq_before (t_send_una t) ack \<and> seq_before_eq ack (t_send_nxt t) then
        let acked_bytes = ack - t_send_una t
        in (acked_bytes, stop_timer (trim_tx acked_bytes (t\<lparr>t_send_una := ack\<rparr>)))
      else (0, t))"

definition grow_cwnd :: "u32 \<Rightarrow> tcb \<Rightarrow> tcb" where
  "grow_cwnd acked_bytes t =
     (if t_cwnd t < t_ssthresh t then t\<lparr>t_cwnd := saturating_add (t_cwnd t) MSS\<rparr>
      else if acked_bytes > 0 then t\<lparr>t_cwnd := saturating_add (t_cwnd t) 1\<rparr>
      else t)"

definition est_ack :: "u64 \<Rightarrow> tcp_seg \<Rightarrow> tcb \<Rightarrow> tcb" where
  "est_ack now g t =
     (case est_una (g_ack g) (note_ack (g_ack g) (count_dupack (g_ack g) t)) of (acked_bytes, t1) \<Rightarrow>
        (grow_cwnd acked_bytes (t1\<lparr>t_keepalive_probes := 0, t_keepalive_due := keepalive_idle_deadline now\<rparr>))
          \<lparr>t_peer_window := g_window g\<rparr>)"

definition est_data :: "tcp_seg \<Rightarrow> tcb \<Rightarrow> tcb \<times> out list" where
  "est_data g t =
     (if g_seq g = t_recv_nxt t then
        let t1 = buffer_payload g t;
            t2 = t1\<lparr>t_sack_blocks := map (\<lambda>b. if seq_before_eq (snd b) (t_recv_nxt t1) then (0, 0) else b)
                     (t_sack_blocks t1)\<rparr>
        in (t2, [ack_reply g t2])
      else
        let t1 = t\<lparr>t_sack_blocks := add_sack_block (t_sack_blocks t) (g_seq g)
                     (g_seq g + word_of_nat (length (g_payload g)))\<rparr>
        in (t1, [send_sack_ack (g_dst_ip g) (g_src_ip g) (g_dst_port g) (g_src_port g) (t_send_nxt t1)
                   (t_recv_nxt t1) (tcb_win t1) (t_sack_blocks t1)]))"

definition est_fin :: "tcp_seg \<Rightarrow> tcb \<Rightarrow> tcb \<times> out list" where
  "est_fin g t =
     (let t1 = t\<lparr>t_recv_nxt := t_recv_nxt t + 1\<rparr>;
          t2 = (if t_state t1 = TCP_ESTABLISHED then t1\<lparr>t_state := TCP_CLOSE_WAIT\<rparr> else t1)
      in (t2, [ack_reply g t2]))"

definition on_established :: "u64 \<Rightarrow> tcp_seg \<Rightarrow> tcb \<Rightarrow> tcb \<times> out list" where
  "on_established now g t =
     (let t1 = (if has_flag g TCP_FLAG_ACK then est_ack now g t else t);
          (t2, out2) = (if g_payload g \<noteq> [] \<and> has_flag g TCP_FLAG_ACK then est_data g t1 else (t1, []));
          (t3, out3) = (if has_flag g TCP_FLAG_FIN then est_fin g t2 else (t2, []))
      in (t3, out2 @ out3))"

text \<open>
  \<open>TCP_FIN_WAIT1\<close> to \<open>TCP_LAST_ACK\<close>. A reset was handled before, so the branches that test for it again
  are not taken. The acknowledgement is compared as a plain number.
\<close>

definition on_fin_wait1 :: "tcp_seg \<Rightarrow> tcb \<Rightarrow> tcb \<times> out list" where
  "on_fin_wait1 g t =
     (let t1 = (if has_flag g TCP_FLAG_RST then t\<lparr>t_state := TCP_CLOSED\<rparr>
                else if has_flag g TCP_FLAG_ACK \<and> g_ack g \<ge> t_send_nxt t then t\<lparr>t_state := TCP_FIN_WAIT2\<rparr>
                else t)
      in if has_flag g TCP_FLAG_FIN then
           let t2 = t1\<lparr>t_recv_nxt := seq_advance (g_seq g) (length (g_payload g)) 1\<rparr>
           in (t2\<lparr>t_state := TCP_CLOSING\<rparr>, [ack_reply g t2])
         else (t1, []))"

definition on_fin_wait2 :: "tcp_seg \<Rightarrow> tcb \<Rightarrow> tcb \<times> out list" where
  "on_fin_wait2 g t =
     (if has_flag g TCP_FLAG_RST then (t\<lparr>t_state := TCP_CLOSED\<rparr>, [])
      else if has_flag g TCP_FLAG_FIN then
        let t1 = t\<lparr>t_recv_nxt := seq_advance (g_seq g) (length (g_payload g)) 1\<rparr>
        in (t1\<lparr>t_state := TCP_TIME_WAIT, t_time_wait_ticks := 20\<rparr>, [ack_reply g t1])
      else (t, []))"

definition on_time_wait :: "tcp_seg \<Rightarrow> tcb \<Rightarrow> tcb \<times> out list" where
  "on_time_wait g t = (t, if has_flag g TCP_FLAG_FIN then [ack_reply g t] else [])"

definition on_closing :: "tcp_seg \<Rightarrow> tcb \<Rightarrow> tcb \<times> out list" where
  "on_closing g t =
     (if has_flag g TCP_FLAG_ACK \<and> g_ack g \<ge> t_send_nxt t
      then (t\<lparr>t_state := TCP_TIME_WAIT, t_time_wait_ticks := 20\<rparr>, []) else (t, []))"

definition on_last_ack :: "tcp_seg \<Rightarrow> tcb \<Rightarrow> tcb \<times> out list" where
  "on_last_ack g t =
     (if has_flag g TCP_FLAG_RST then (t\<lparr>t_state := TCP_CLOSED\<rparr>, [])
      else if has_flag g TCP_FLAG_ACK \<and> g_ack g \<ge> t_send_nxt t then (t\<lparr>t_state := TCP_CLOSED\<rparr>, [])
      else (t, []))"

definition on_segment :: "u64 \<Rightarrow> tcp_seg \<Rightarrow> tcb \<Rightarrow> tcb \<times> out list" where
  "on_segment now g t =
     (if has_flag g TCP_FLAG_RST then (t\<lparr>t_state := TCP_CLOSED\<rparr>, [])
      else case t_state t of
        TCP_SYN_SENT \<Rightarrow> on_syn_sent g t
      | TCP_SYN_RECEIVED \<Rightarrow> on_syn_received g t
      | TCP_ESTABLISHED \<Rightarrow> on_established now g t
      | TCP_CLOSE_WAIT \<Rightarrow> on_established now g t
      | TCP_FIN_WAIT1 \<Rightarrow> on_fin_wait1 g t
      | TCP_FIN_WAIT2 \<Rightarrow> on_fin_wait2 g t
      | TCP_TIME_WAIT \<Rightarrow> on_time_wait g t
      | TCP_CLOSING \<Rightarrow> on_closing g t
      | TCP_LAST_ACK \<Rightarrow> on_last_ack g t
      | TCP_LISTEN \<Rightarrow> (t, [])
      | TCP_CLOSED \<Rightarrow> (t, []))"

definition tcp_input :: "(ip4 \<Rightarrow> bytes \<Rightarrow> bool) \<Rightarrow> u32 \<Rightarrow> u64 \<Rightarrow> tcp_seg \<Rightarrow> conns \<Rightarrow> bool \<times> out list \<times> conns" where
  "tcp_input tx isn now g cs =
     (case find_conn g cs of
        None \<Rightarrow> (False, no_conn g, cs)
      | Some idx \<Rightarrow>
          (case cs ! idx of
             None \<Rightarrow> (False, [], cs)
           | Some t \<Rightarrow>
               if \<not> has_flag g TCP_FLAG_RST \<and> t_state t = TCP_LISTEN then on_listen tx isn g cs
               else (case on_segment now g t of (t1, outs) \<Rightarrow> (True, outs, cs[idx := Some t1]))))"

definition tcp_handle_receive :: "(ip4 \<Rightarrow> bytes \<Rightarrow> bool) \<Rightarrow> u32 \<Rightarrow> u64 \<Rightarrow> ip4 \<Rightarrow> ip4 \<Rightarrow> bytes \<Rightarrow> conns \<Rightarrow>
  bool \<times> out list \<times> conns"
where
  "tcp_handle_receive tx isn now src_ip dst_ip segment cs =
     (case tcp_parse src_ip dst_ip segment of
        None \<Rightarrow> (False, [], cs)
      | Some g \<Rightarrow> tcp_input tx isn now g cs)"

section \<open>Timers and the calls of the socket layer\<close>

definition tcb_segment :: "tcb \<Rightarrow> u32 \<Rightarrow> u8 \<Rightarrow> bytes \<Rightarrow> out" where
  "tcb_segment t seq flags payload =
     (t_remote_ip t, sealed (t_local_ip t) (t_remote_ip t) (20 + length payload)
        (build_segment (t_local_port t) (t_remote_port t) seq (t_recv_nxt t) flags (tcb_win t) payload))"

definition poll_idle :: "u64 \<Rightarrow> tcb \<Rightarrow> tcb \<times> out list" where
  "poll_idle now t0 =
     (let t = t0\<lparr>t_retry_count := 0, t_retry_ticks := 0\<rparr>
      in if t_state t = TCP_ESTABLISHED then
           (case keepalive_action now (t_keepalive_due t) (t_keepalive_probes t) of
              Wait \<Rightarrow> (t, [])
            | GiveUp \<Rightarrow> (t\<lparr>t_state := TCP_CLOSED\<rparr>, [])
            | Probe \<Rightarrow>
                let t1 = t\<lparr>t_keepalive_probes := t_keepalive_probes t + 1,
                           t_keepalive_due := keepalive_probe_deadline now\<rparr>
                in (t1, [tcb_segment t1 (t_send_nxt t1) TCP_FLAG_ACK []]))
         else (t, []))"

definition send_limit :: "tcb \<Rightarrow> u32" where
  "send_limit t =
     (let in_flight = t_send_nxt t - t_send_una t;
          budget = saturating_sub (ucast (t_cwnd t)) in_flight;
          room = ucast (t_peer_window t) - in_flight;
          peer_budget = (if sint room < 0 then 0 else room)
      in min (ucast MSS) (min budget peer_budget))"

definition retransmit_count :: "tcb \<Rightarrow> tcb" where
  "retransmit_count t0 =
     (let t = t0\<lparr>t_retry_count := t_retry_count t0 - 1, t_retry_ticks := RETRY_INTERVAL\<rparr>
      in if t_retry_count t = 0 then t\<lparr>t_state := TCP_CLOSED\<rparr>
         else t\<lparr>t_ssthresh := max (t_cwnd t div 2) MSS, t_cwnd := MSS, t_dupack_count := 0\<rparr>)"

definition retransmit :: "tcb \<Rightarrow> tcb \<times> out list" where
  "retransmit t =
     (if t_state t = TCP_SYN_SENT \<or> t_state t = TCP_SYN_RECEIVED then
        (retransmit_count t,
         [tcb_segment t (t_send_una t)
            (if t_state t = TCP_SYN_SENT then TCP_FLAG_SYN else TCP_FLAG_SYN OR TCP_FLAG_ACK) []])
      else if t_state t = TCP_LAST_ACK \<or> t_state t = TCP_FIN_WAIT1 \<or> t_state t = TCP_CLOSING then
        (retransmit_count t, [tcb_segment t (t_send_una t) (TCP_FLAG_FIN OR TCP_FLAG_ACK) []])
      else if send_limit t = 0 then (t\<lparr>t_retry_ticks := 1\<rparr>, [])
      else
        (retransmit_count t,
         [tcb_segment t (t_send_una t) (TCP_FLAG_ACK OR TCP_FLAG_PSH) (take (unat (send_limit t)) (t_tx_data t))]))"

definition poll_tcb :: "u64 \<Rightarrow> tcb \<Rightarrow> tcb option \<times> out list" where
  "poll_tcb now t =
     (if t_state t = TCP_CLOSED then (None, [])
      else if t_listening t then (Some t, [])
      else if t_state t = TCP_TIME_WAIT then
        if t_time_wait_ticks t = 0 then (Some (t\<lparr>t_time_wait_ticks := 20\<rparr>), [])
        else let t1 = t\<lparr>t_time_wait_ticks := t_time_wait_ticks t - 1\<rparr>
             in (Some (if t_time_wait_ticks t1 = 0 then t1\<lparr>t_state := TCP_CLOSED\<rparr> else t1), [])
      else if t_state t \<notin> {TCP_SYN_SENT, TCP_SYN_RECEIVED, TCP_ESTABLISHED, TCP_CLOSE_WAIT, TCP_LAST_ACK,
                TCP_FIN_WAIT1, TCP_CLOSING} then (Some t, [])
      else if \<not> seq_before (t_send_una t) (t_send_nxt t) then apfst Some (poll_idle now t)
      else if t_retry_count t = 0 then (Some t, [])
      else if t_retry_ticks t > 0 then (Some (t\<lparr>t_retry_ticks := t_retry_ticks t - 1\<rparr>), [])
      else apfst Some (retransmit t))"

definition poll_retransmit :: "u64 \<Rightarrow> conns \<Rightarrow> out list \<times> conns" where
  "poll_retransmit now cs =
     (let rs = map (\<lambda>s. case s of None \<Rightarrow> (None, []) | Some t \<Rightarrow> poll_tcb now t) cs
      in (concat (map snd rs), map fst rs))"

definition is_open :: "tcb \<Rightarrow> bool" where
  "is_open t \<longleftrightarrow> t_state t = TCP_ESTABLISHED \<or> t_state t = TCP_CLOSE_WAIT"

definition open_conn :: "nat \<Rightarrow> conns \<Rightarrow> tcb option" where
  "open_conn conn cs =
     (if conn \<ge> MAX_CONNS then None
      else case cs ! conn of Some t \<Rightarrow> (if is_open t then Some t else None) | None \<Rightarrow> None)"

definition send_data :: "nat \<Rightarrow> bytes \<Rightarrow> conns \<Rightarrow> bool \<times> conns" where
  "send_data conn data cs =
     (case open_conn conn cs of
        None \<Rightarrow> (False, cs)
      | Some t \<Rightarrow>
          let copy_len = min (length data) (TX_BUF_LEN - length (t_tx_data t))
          in (copy_len > 0, cs[conn := Some (t\<lparr>t_tx_data := t_tx_data t @ take copy_len data\<rparr>)]))"

definition flush_tx :: "(ip4 \<Rightarrow> bytes \<Rightarrow> bool) \<Rightarrow> nat \<Rightarrow> conns \<Rightarrow> bool \<times> out list \<times> conns" where
  "flush_tx tx conn cs =
     (case open_conn conn cs of
        None \<Rightarrow> (False, [], cs)
      | Some t \<Rightarrow>
          if t_tx_data t = [] then (True, [], cs)
          else let payload = take 1460 (t_tx_data t);
                   seg = tcb_segment t (t_send_nxt t) (TCP_FLAG_ACK OR TCP_FLAG_PSH) payload
          in if tx (fst seg) (snd seg) then
               (True, [seg], cs[conn := Some (t\<lparr>t_send_nxt := t_send_nxt t + word_of_nat (length payload),
                   t_retry_count := MAX_RETRIES, t_retry_ticks := RETRY_INTERVAL\<rparr>)])
             else (False, [seg], cs))"

definition receive_data :: "nat \<Rightarrow> nat \<Rightarrow> conns \<Rightarrow> bytes option \<times> conns" where
  "receive_data conn buf_len cs =
     (if conn \<ge> MAX_CONNS then (None, cs)
      else case cs ! conn of
        None \<Rightarrow> (None, cs)
      | Some t \<Rightarrow>
          if t_rx_data t = [] then (None, cs)
          else let copy_len = min (length (t_rx_data t)) buf_len
               in (Some (take copy_len (t_rx_data t)), cs[conn := Some (t\<lparr>t_rx_data := drop copy_len (t_rx_data t)\<rparr>)]))"

definition tcp_close :: "(ip4 \<Rightarrow> bytes \<Rightarrow> bool) \<Rightarrow> nat \<Rightarrow> conns \<Rightarrow> bool \<times> out list \<times> conns" where
  "tcp_close tx conn cs =
     (case open_conn conn cs of
        None \<Rightarrow> (False, [], cs)
      | Some t \<Rightarrow>
          let fin = tcb_segment t (t_send_nxt t) (TCP_FLAG_FIN OR TCP_FLAG_ACK) []
          in if tx (fst fin) (snd fin) then
               (True, [fin], cs[conn := Some (t\<lparr>t_send_nxt := t_send_nxt t + 1,
                   t_state := (if t_state t = TCP_CLOSE_WAIT then TCP_LAST_ACK else TCP_FIN_WAIT1),
                   t_retry_count := MAX_RETRIES, t_retry_ticks := RETRY_INTERVAL\<rparr>)])
             else (False, [fin], cs))"

definition close_conn :: "nat \<Rightarrow> conns \<Rightarrow> conns" where
  "close_conn conn cs = (if conn \<ge> MAX_CONNS then cs else cs[conn := None])"

definition is_connected :: "nat \<Rightarrow> conns \<Rightarrow> bool" where
  "is_connected conn cs \<longleftrightarrow> open_conn conn cs \<noteq> None"

definition has_data :: "nat \<Rightarrow> conns \<Rightarrow> bool" where
  "has_data conn cs =
     (if conn \<ge> MAX_CONNS then False
      else case cs ! conn of Some t \<Rightarrow> t_rx_data t \<noteq> [] | None \<Rightarrow> False)"

definition get_conn_info :: "nat \<Rightarrow> conns \<Rightarrow> (tcp_status \<times> ip4 \<times> u16 \<times> ip4 \<times> u16) option" where
  "get_conn_info conn cs =
     (if conn \<ge> MAX_CONNS then None
      else case cs ! conn of
        Some t \<Rightarrow> Some (t_state t, t_remote_ip t, t_remote_port t, t_local_ip t, t_local_port t)
      | None \<Rightarrow> None)"

definition connection_count :: "conns \<Rightarrow> nat" where
  "connection_count cs = length (filter (\<lambda>s. s \<noteq> None) cs)"

end
