(* ===== verification/TcpStream.thy ===== *)
theory TcpStream
  imports Tcp
begin

text \<open>
  What TCP promises: segments survive the wire, the handshake synchronises both sides, received
  bytes form the peer's stream in order, and a peer that never answers is given up; and where the
  code breaks the promise.
\<close>

lemmas tcp_flag_defs = TCP_FLAG_FIN_def TCP_FLAG_SYN_def TCP_FLAG_RST_def TCP_FLAG_PSH_def TCP_FLAG_ACK_def

section \<open>Segments on the wire\<close>

definition tcp_header :: "u16 \<Rightarrow> u16 \<Rightarrow> u32 \<Rightarrow> u32 \<Rightarrow> u8 \<Rightarrow> u16 \<Rightarrow> bytes" where
  "tcp_header sp dp seq ack flags window =
     be16 sp @ be16 dp @ be32 seq @ be32 ack @ [0x50, flags] @ be16 window @ [0, 0] @ [0, 0]"

lemma length_tcp_header [simp]: "length (tcp_header sp dp seq ack flags window) = 20"
  by (simp add: tcp_header_def)

lemma take_build_segment:
  "length payload \<le> 1480 \<Longrightarrow>
     take (20 + length payload) (build_segment sp dp seq ack flags window payload) =
     tcp_header sp dp seq ack flags window @ payload"
proof -
  assume "length payload \<le> 1480"
  then have "build_segment sp dp seq ack flags window payload =
      (tcp_header sp dp seq ack flags window @ payload) @ replicate (1480 - length payload) 0"
    by (simp add: build_segment_def tcp_header_def Let_def)
  then show ?thesis by (simp only: take_append length_append length_tcp_header) simp
qed

lemma be32_at_be32: "of_be32 (ucast (drop_bit 24 x)) (ucast (drop_bit 16 x)) (ucast (drop_bit 8 x)) (ucast x) = x"
  by (rule of_be32_split)

text \<open>Every header with a correct checksum parses to its fields.\<close>

lemma tcp_parse_put:
  fixes h :: bytes
  defines "n \<equiv> unat (drop_bit 4 (h ! 12) * 4)"
  assumes "20 \<le> n" "n \<le> length h" "length h \<le> 1500" "h ! 16 = 0" "h ! 17 = 0"
  shows "tcp_parse s d (put_checksum h 16 (tcp_checksum s d h)) =
    Some \<lparr>g_src_ip = s, g_dst_ip = d, g_src_port = be16_at h 0, g_dst_port = be16_at h 2, g_seq = be32_at h 4,
      g_ack = be32_at h 8, g_flags = h ! 13, g_window = be16_at h 14, g_payload = drop n h\<rparr>"
proof -
  let ?h = "put_checksum h 16 (tcp_checksum s d h)"
  have nth: "?h ! i = h ! i" if "i < 16" for i
    using that by (simp add: put_checksum_def)
  have "tcp_checksum s d ?h = 0"
    using assms(2-6) by (intro tcp.seal_verifies) auto
  moreover have "drop n ?h = drop n h"
    using assms(2) by (simp add: put_checksum_def)
  ultimately show ?thesis
    using assms(2-4) unfolding n_def by (simp add: tcp_parse_def Let_def nth be16_at_def be32_at_def)
qed

lemma tcp_parse_sealed:
  assumes "length payload \<le> 1480"
  shows "tcp_parse s d (sealed s d (20 + length payload) (build_segment sp dp seq ack flags window payload)) =
    Some \<lparr>g_src_ip = s, g_dst_ip = d, g_src_port = sp, g_dst_port = dp, g_seq = seq, g_ack = ack,
      g_flags = flags, g_window = window, g_payload = payload\<rparr>"
proof -
  let ?h = "tcp_header sp dp seq ack flags window @ payload"
  have f: "?h ! 12 = 0x50" "?h ! 13 = flags" "?h ! 16 = 0" "?h ! 17 = 0" "be16_at ?h 0 = sp" "be16_at ?h 2 = dp"
    "be32_at ?h 4 = seq" "be32_at ?h 8 = ack" "be16_at ?h 14 = window"
    by (simp_all add: tcp_header_def be16_def be32_def be16_at_def be32_at_def be32_at_be32 nth_append nth_Cons')
  have n: "unat (drop_bit 4 (0x50 :: u8) * 4) = 20" by code_simp
  have "drop 20 ?h = payload" by simp
  then show ?thesis
    using tcp_parse_put [of ?h s d] f n assms
    by (simp add: sealed_def take_build_segment Let_def)
qed

lemma tcp_parse_syn:
  "tcp_parse s d (sealed s d 32 (build_syn_segment sp dp seq ack flags window)) =
    Some \<lparr>g_src_ip = s, g_dst_ip = d, g_src_port = sp, g_dst_port = dp, g_seq = seq, g_ack = ack,
      g_flags = flags, g_window = window, g_payload = []\<rparr>"
proof -
  let ?o = "[2, 4] @ be16 MSS @ [3, 3, 7, 4, 2, 1, 1, 1] :: bytes"
  let ?h = "(tcp_header sp dp seq ack flags window @ ?o)[12 := 0x80]"
  have t: "take 32 (build_syn_segment sp dp seq ack flags window) = ?h"
    by (simp add: build_syn_segment_def build_segment_def tcp_header_def write_at_def Let_def be16_def be32_def)
  have f: "?h ! 12 = 0x80" "?h ! 13 = flags" "?h ! 16 = 0" "?h ! 17 = 0" "be16_at ?h 0 = sp" "be16_at ?h 2 = dp"
    "be32_at ?h 4 = seq" "be32_at ?h 8 = ack" "be16_at ?h 14 = window" "length ?h = 32"
    by (simp_all add: tcp_header_def be16_def be32_def be16_at_def be32_at_def be32_at_be32 nth_append nth_Cons')
  have n: "unat (drop_bit 4 (0x80 :: u8) * 4) = 32" by code_simp
  show ?thesis
    using tcp_parse_put [of ?h s d] f n by (simp add: sealed_def t Let_def)
qed

section \<open>Which connection gets a segment\<close>

lemma find_conn_append:
  "find_conn g (cs @ [s]) = (if conn_matches g s then Some (length cs) else find_conn g cs)"
  by (simp add: find_conn_def enumerate_append_eq)

lemma find_conn_Some_iff:
  "find_conn g cs = Some i \<longleftrightarrow>
     i < length cs \<and> conn_matches g (cs ! i) \<and> (\<forall>j. i < j \<and> j < length cs \<longrightarrow> \<not> conn_matches g (cs ! j))"
proof (induction cs rule: rev_induct)
  case Nil
  then show ?case by (simp add: find_conn_def)
next
  case (snoc s cs)
  then show ?case by (auto simp: find_conn_append nth_append less_Suc_eq split: if_splits)
qed

lemma find_conn_None_iff: "find_conn g cs = None \<longleftrightarrow> (\<forall>s \<in> set cs. \<not> conn_matches g s)"
proof (induction cs rule: rev_induct)
  case Nil
  then show ?case by (simp add: find_conn_def)
qed (auto simp: find_conn_append)

lemma find_slot_Some:
  assumes "find_slot cs = Some i"
  shows "i < length cs" and "cs ! i = None \<or> (\<exists>t. cs ! i = Some t \<and> t_state t = TCP_CLOSED)"
  using assms by (auto simp: find_slot_def find_index_Some_iff split: option.splits)

text \<open>The ports and addresses of a connection.\<close>

definition same_peer :: "tcp_seg \<Rightarrow> tcb \<Rightarrow> bool" where
  "same_peer g t \<longleftrightarrow> t_local_port t = g_dst_port g \<and> t_remote_port t = g_src_port g \<and> t_remote_ip t = g_src_ip g"

lemma conn_matches_Some [simp]:
  "conn_matches g (Some t) \<longleftrightarrow> (if t_listening t then t_local_port t = g_dst_port g else same_peer g t)"
  by (auto simp: conn_matches_def same_peer_def)

lemma conn_matches_None [simp]: "\<not> conn_matches g None"
  by (simp add: conn_matches_def)

lemma find_conn_port:
  assumes "i < length cs" "conn_matches g (cs ! i)"
    and "\<And>j t. j < length cs \<Longrightarrow> cs ! j = Some t \<Longrightarrow> i < j \<Longrightarrow> t_local_port t \<noteq> g_dst_port g"
  shows "find_conn g cs = Some i"
  unfolding find_conn_Some_iff
proof (intro conjI allI impI)
  fix j assume "i < j \<and> j < length cs"
  with assms(3) [of j] show "\<not> conn_matches g (cs ! j)" by (cases "cs ! j") (auto simp: same_peer_def)
qed (use assms in auto)

lemma tcp_input_conn:
  assumes "find_conn g cs = Some i" "cs ! i = Some t" "t_state t \<noteq> TCP_LISTEN"
  shows "tcp_input tx isn now g cs = (True, snd (on_segment now g t), cs[i := Some (fst (on_segment now g t))])"
  using assms by (simp add: tcp_input_def split: prod.splits)

text \<open>No slot but \<open>i\<close> uses the local port \<open>p\<close>.\<close>

definition port_only :: "u16 \<Rightarrow> nat \<Rightarrow> conns \<Rightarrow> bool" where
  "port_only p i cs \<longleftrightarrow>
     list_all (\<lambda>(j, s). j = i \<or> (case s of None \<Rightarrow> True | Some t \<Rightarrow> t_local_port t \<noteq> p)) (enumerate 0 cs)"

lemma port_onlyD: "port_only p i cs \<Longrightarrow> j < length cs \<Longrightarrow> cs ! j = Some t \<Longrightarrow> j \<noteq> i \<Longrightarrow> t_local_port t \<noteq> p"
  by (force simp: port_only_def list_all_iff in_set_enumerate_eq)

section \<open>The three-way handshake\<close>

lemma new_tcb_fields [simp]:
  "t_state (new_tcb st lip lp rip rp una nxt rcv lis rc rt) = st"
  "t_local_ip (new_tcb st lip lp rip rp una nxt rcv lis rc rt) = lip"
  "t_local_port (new_tcb st lip lp rip rp una nxt rcv lis rc rt) = lp"
  "t_remote_ip (new_tcb st lip lp rip rp una nxt rcv lis rc rt) = rip"
  "t_remote_port (new_tcb st lip lp rip rp una nxt rcv lis rc rt) = rp"
  "t_send_una (new_tcb st lip lp rip rp una nxt rcv lis rc rt) = una"
  "t_send_nxt (new_tcb st lip lp rip rp una nxt rcv lis rc rt) = nxt"
  "t_recv_nxt (new_tcb st lip lp rip rp una nxt rcv lis rc rt) = rcv"
  "t_listening (new_tcb st lip lp rip rp una nxt rcv lis rc rt) = lis"
  "t_rx_data (new_tcb st lip lp rip rp una nxt rcv lis rc rt) = []"
  "t_tx_data (new_tcb st lip lp rip rp una nxt rcv lis rc rt) = []"
  "t_retry_count (new_tcb st lip lp rip rp una nxt rcv lis rc rt) = rc"
  "t_retry_ticks (new_tcb st lip lp rip rp una nxt rcv lis rc rt) = rt"
  by (simp_all add: new_tcb_def)

lemma tcp_parse_reply:
  "tcp_parse (g_dst_ip g) (g_src_ip g) (snd (reply_seg g seq ack flags window)) =
    Some \<lparr>g_src_ip = g_dst_ip g, g_dst_ip = g_src_ip g, g_src_port = g_dst_port g, g_dst_port = g_src_port g,
      g_seq = seq, g_ack = ack, g_flags = flags, g_window = window, g_payload = []\<rparr>"
  using tcp_parse_sealed [of "[]"] by (simp add: reply_seg_def)

lemma fst_reply_seg [simp]: "fst (reply_seg g seq ack flags window) = g_src_ip g"
  by (simp add: reply_seg_def)

lemma listener_accepts:
  assumes "find_conn g cs = Some l" "cs ! l = Some lt" "t_state lt = TCP_LISTEN"
    and "g_flags g = TCP_FLAG_SYN" "find_slot cs = Some c" "\<And>ip seg. tx ip seg"
  shows "tcp_input tx isn now g cs =
    (True, [reply_seg g isn (g_seq g + 1) (TCP_FLAG_SYN OR TCP_FLAG_ACK) 65535],
     cs[c := Some (new_tcb TCP_SYN_RECEIVED (g_dst_ip g) (g_dst_port g) (g_src_ip g) (g_src_port g) isn (isn + 1)
          (g_seq g + 1) False MAX_RETRIES RETRY_INTERVAL)])"
  using assms by (simp add: tcp_input_def on_listen_def has_flag_def tcp_flag_defs seq_advance_def Let_def)

lemma syn_sent_establishes:
  assumes "find_conn g cs = Some i" "cs ! i = Some t" "t_state t = TCP_SYN_SENT" "g_flags g = TCP_FLAG_SYN OR TCP_FLAG_ACK"
  shows "tcp_input tx isn now g cs =
    (True, [reply_seg g (t_send_nxt t) (g_seq g + 1) TCP_FLAG_ACK (tcb_win t)],
     cs[i := Some (t\<lparr>t_recv_nxt := g_seq g + 1, t_send_una := g_ack g, t_peer_window := g_window g,
        t_state := TCP_ESTABLISHED, t_retry_count := 0, t_retry_ticks := 0\<rparr>)])"
  using assms by (simp add: tcp_input_conn on_segment_def on_syn_sent_def has_flag_def tcp_flag_defs seq_advance_def
      ack_reply_def tcb_win_def Let_def)

lemma syn_received_establishes:
  assumes "find_conn g cs = Some i" "cs ! i = Some t" "t_state t = TCP_SYN_RECEIVED" "g_flags g = TCP_FLAG_ACK"
    and "g_seq g = t_recv_nxt t" "g_payload g = []"
  shows "tcp_input tx isn now g cs =
    (True, [], cs[i := Some (t\<lparr>t_state := TCP_ESTABLISHED, t_send_una := g_ack g,
        t_peer_window := g_window g, t_retry_count := 0, t_retry_ticks := 0\<rparr>)])"
  using assms by (simp add: tcp_input_conn on_segment_def on_syn_received_def has_flag_def tcp_flag_defs Let_def)


definition no_conns_tcp :: conns where
  "no_conns_tcp = replicate MAX_CONNS None"

definition web_server :: conns where
  "web_server = snd (tcp_listen 80 no_conns_tcp)"

lemma no_conns_tcp_Cons: "no_conns_tcp = None # None # replicate 254 None"
proof -
  have "replicate (Suc (Suc 254)) None = None # None # replicate 254 None" by (simp only: replicate_Suc)
  then show ?thesis by (simp add: no_conns_tcp_def MAX_CONNS_def)
qed

lemma port_only_free:
  assumes "set ss \<subseteq> {None}"
  shows "port_only p 0 (s # ss)"
proof -
  have "j = 0 \<or> x = None" if "(j, x) \<in> set (enumerate 0 (s # ss))" for j x
    using that assms by (cases j) (auto simp: in_set_enumerate_eq dest: nth_mem)
  then show ?thesis by (fastforce simp: port_only_def list_all_iff)
qed


section \<open>A listener behind its children\<close>

text \<open>
  C28: Demultiplexing takes the last matching slot and a listening slot matches every segment for
  its port. So when the slot of a new connection lies before its listener, no segment for that
  port ever reaches the connection: whatever arrives, the connection's entry stays as it was.
\<close>

theorem child_before_listener_deaf:
  assumes "l < length cs" "cs ! l = Some lt" "t_listening lt" "t_state lt = TCP_LISTEN" "t_local_port lt = g_dst_port g"
    and "c < l" "cs ! c = Some tc" "t_state tc \<noteq> TCP_CLOSED" "\<not> has_flag g TCP_FLAG_RST"
    and "\<And>j t. l < j \<Longrightarrow> j < length cs \<Longrightarrow> cs ! j = Some t \<Longrightarrow> t_local_port t \<noteq> g_dst_port g"
  shows "snd (snd (tcp_input tx isn now g cs)) ! c = Some tc"
proof -
  have "find_conn g cs = Some l" by (rule find_conn_port) (use assms in auto)
  moreover have "s \<noteq> c" if "find_slot cs = Some s" for s
    using find_slot_Some(2) [OF that] assms(7,8) by auto
  ultimately show ?thesis
    using assms by (simp add: tcp_input_def on_listen_def Let_def split: option.split)
qed

definition ack_seg_to :: "u16 \<Rightarrow> tcp_seg" where
  "ack_seg_to port = \<lparr>g_src_ip = (10, 0, 2, 15), g_dst_ip = (10, 0, 2, 7), g_src_port = 4000, g_dst_port = port,
     g_seq = 1001, g_ack = 9001, g_flags = TCP_FLAG_ACK, g_window = 4096, g_payload = []\<rparr>"

theorem child_before_listener_deaf_witness:
  "\<exists>tc. t_state tc = TCP_SYN_RECEIVED \<and> same_peer (ack_seg_to 80) tc \<and> t_recv_nxt tc = g_seq (ack_seg_to 80) \<and>
     snd (snd (tcp_input (\<lambda>_ _. True) 0 0 (ack_seg_to 80)
       (no_conns_tcp[1 := Some (new_tcb TCP_LISTEN (0, 0, 0, 0) 80 (0, 0, 0, 0) 0 0 0 0 True 0 0), 0 := Some tc]))) ! 0 = Some tc"
proof -
  let ?l = "new_tcb TCP_LISTEN (0, 0, 0, 0) 80 (0, 0, 0, 0) 0 0 0 0 True 0 0"
  let ?tc = "new_tcb TCP_SYN_RECEIVED (10, 0, 2, 7) 80 (10, 0, 2, 15) 4000 9000 9001 1001 False MAX_RETRIES RETRY_INTERVAL"
  let ?cs = "no_conns_tcp[1 := Some ?l, 0 := Some ?tc]"
  have "\<not> has_flag (ack_seg_to 80) TCP_FLAG_RST" by code_simp
  then have "snd (snd (tcp_input (\<lambda>_ _. True) 0 0 (ack_seg_to 80) ?cs)) ! 0 = Some ?tc"
    by (intro child_before_listener_deaf [where l = 1 and lt = ?l])
       (simp_all add: no_conns_tcp_def MAX_CONNS_def ack_seg_to_def nth_list_update)
  then show ?thesis by (intro exI [of _ ?tc]) (simp add: same_peer_def ack_seg_to_def)
qed

section \<open>The received stream\<close>

text \<open>The fields that processing an acknowledgement leaves alone.\<close>

definition rx_part :: "tcb \<Rightarrow> tcp_status \<times> bool \<times> u16 \<times> u16 \<times> ip4 \<times> bytes \<times> u32 \<times> (u32 \<times> u32) list" where
  "rx_part t = (t_state t, t_listening t, t_local_port t, t_remote_port t, t_remote_ip t, t_rx_data t, t_recv_nxt t,
     t_sack_blocks t)"

lemma rx_part_steps [simp]:
  "rx_part (count_dupack ack t) = rx_part t" "rx_part (note_ack ack t) = rx_part t" "rx_part (trim_tx n t) = rx_part t"
  "rx_part (stop_timer t) = rx_part t" "rx_part (grow_cwnd n t) = rx_part t"
  by (simp_all add: rx_part_def count_dupack_def note_ack_def trim_tx_def stop_timer_def grow_cwnd_def Let_def)

lemma rx_part_upd [simp]:
  "rx_part (t\<lparr>t_send_una := a\<rparr>) = rx_part t" "rx_part (t\<lparr>t_peer_window := w\<rparr>) = rx_part t"
  "rx_part (t\<lparr>t_keepalive_probes := p, t_keepalive_due := d\<rparr>) = rx_part t"
  by (simp_all add: rx_part_def)

lemma rx_part_est_ack: "rx_part (est_ack now g t) = rx_part t"
proof -
  have "rx_part (snd (est_una ack t)) = rx_part t" for ack t by (simp add: est_una_def Let_def)
  then show ?thesis by (simp add: est_ack_def split: prod.split) (metis snd_conv rx_part_steps(1,2))
qed

lemma est_ack_rx [simp]:
  "t_rx_data (est_ack now g t) = t_rx_data t" "t_recv_nxt (est_ack now g t) = t_recv_nxt t"
  "t_state (est_ack now g t) = t_state t" "same_peer g' (est_ack now g t) = same_peer g' t"
  "t_listening (est_ack now g t) = t_listening t" "t_sack_blocks (est_ack now g t) = t_sack_blocks t"
  using rx_part_est_ack [of now g t] by (simp_all add: rx_part_def same_peer_def)

lemma buffer_payload_rx:
  "t_rx_data (buffer_payload g t) = t_rx_data t @ take (rx_free (length (t_rx_data t))) (g_payload g)"
  "t_recv_nxt (buffer_payload g t) = g_seq g + word_of_nat (length (take (rx_free (length (t_rx_data t))) (g_payload g)))"
  "t_state (buffer_payload g t) = t_state t" "same_peer g' (buffer_payload g t) = same_peer g' t"
  "t_listening (buffer_payload g t) = t_listening t"
  by (simp_all add: buffer_payload_def seq_advance_def same_peer_def min_def Let_def)

lemma est_data_rx:
  "t_rx_data (fst (est_data g t)) = t_rx_data t @ (if g_seq g = t_recv_nxt t
     then take (rx_free (length (t_rx_data t))) (g_payload g) else [])"
  "t_recv_nxt (fst (est_data g t)) = t_recv_nxt t + word_of_nat (length (if g_seq g = t_recv_nxt t
     then take (rx_free (length (t_rx_data t))) (g_payload g) else []))"
  "t_state (fst (est_data g t)) = t_state t" "same_peer g' (fst (est_data g t)) = same_peer g' t"
  "t_listening (fst (est_data g t)) = t_listening t"
  using buffer_payload_rx [where g = g and t = t] by (simp_all add: est_data_def Let_def same_peer_def)

text \<open>
  One segment without FIN or RST on an open connection: it appends to the buffer what fits of
  its payload, if it carries an acknowledgement and starts at the expected sequence number, and
  nothing otherwise; \<open>recv_nxt\<close> moves by what was buffered.
\<close>

lemma open_segment_rx:
  assumes "is_open t" "\<not> has_flag g TCP_FLAG_RST" "\<not> has_flag g TCP_FLAG_FIN"
  defines "kept \<equiv> (if has_flag g TCP_FLAG_ACK \<and> g_seq g = t_recv_nxt t
     then take (rx_free (length (t_rx_data t))) (g_payload g) else [])"
  shows "t_rx_data (fst (on_segment now g t)) = t_rx_data t @ kept"
    and "t_recv_nxt (fst (on_segment now g t)) = t_recv_nxt t + word_of_nat (length kept)"
    and "t_state (fst (on_segment now g t)) = t_state t"
    and "same_peer g' (fst (on_segment now g t)) = same_peer g' t"
    and "t_listening (fst (on_segment now g t)) = t_listening t"
proof -
  have e: "on_segment now g t = on_established now g t"
    using assms(1,2) by (auto simp: on_segment_def is_open_def)
  have m: "take (min (length p) n) p = take n p" "min (length p) n = length (take n p)" for n and p :: bytes
    by (simp_all add: min_def)
  let ?t1 = "if has_flag g TCP_FLAG_ACK then est_ack now g t else t"
  let ?t2 = "if g_payload g \<noteq> [] \<and> has_flag g TCP_FLAG_ACK then fst (est_data g ?t1) else ?t1"
  have r: "fst (on_segment now g t) = ?t2"
    using assms(3) by (simp add: e on_established_def Let_def split: prod.splits)
  note d = est_data_rx [where g = g]
  show "t_rx_data (fst (on_segment now g t)) = t_rx_data t @ kept"
    by (simp add: r d kept_def)
  show "t_recv_nxt (fst (on_segment now g t)) = t_recv_nxt t + word_of_nat (length kept)"
    by (simp add: r d kept_def)
  show "t_state (fst (on_segment now g t)) = t_state t" by (simp add: r d)
  show "same_peer g' (fst (on_segment now g t)) = same_peer g' t" by (simp add: r d)
  show "t_listening (fst (on_segment now g t)) = t_listening t" by (simp add: r d)
qed

text \<open>
  What reaches one side: segments from the network and reads of the socket layer. The result is
  what was read so far and the connection table.
\<close>

datatype tcp_event = Arrive tcp_seg | ReadUpTo nat

fun tcp_events :: "(ip4 \<Rightarrow> bytes \<Rightarrow> bool) \<Rightarrow> nat \<Rightarrow> (u32 \<times> u64 \<times> tcp_event) list \<Rightarrow> bytes \<times> conns \<Rightarrow> bytes \<times> conns" where
  "tcp_events tx i [] st = st"
| "tcp_events tx i ((isn, now, Arrive g) # evs) (got, cs) =
     tcp_events tx i evs (got, snd (snd (tcp_input tx isn now g cs)))"
| "tcp_events tx i ((isn, now, ReadUpTo n) # evs) (got, cs) =
     (case receive_data i n cs of
        (None, cs1) \<Rightarrow> tcp_events tx i evs (got, cs1)
      | (Some bs, cs1) \<Rightarrow> tcp_events tx i evs (got @ bs, cs1))"

text \<open>A segment of the peer whose stream is \<open>S\<close>, with sequence number \<open>s0\<close> for its first byte.\<close>

definition carries :: "bytes \<Rightarrow> u32 \<Rightarrow> tcp_seg \<Rightarrow> bool" where
  "carries S s0 g \<longleftrightarrow> \<not> has_flag g TCP_FLAG_FIN \<and> \<not> has_flag g TCP_FLAG_RST \<and>
     (let off = unat (g_seq g - s0)
      in off + length (g_payload g) \<le> length S \<and> g_payload g = take (length (g_payload g)) (drop off S))"

definition peer_events :: "bytes \<Rightarrow> u32 \<Rightarrow> tcb \<Rightarrow> (u32 \<times> u64 \<times> tcp_event) list \<Rightarrow> bool" where
  "peer_events S s0 t evs \<longleftrightarrow>
     list_all (\<lambda>(isn, now, ev). case ev of Arrive g \<Rightarrow> same_peer g t \<longrightarrow> carries S s0 g | ReadUpTo n \<Rightarrow> True) evs"

definition stream_inv :: "bytes \<Rightarrow> u32 \<Rightarrow> nat \<Rightarrow> tcb \<Rightarrow> bytes \<Rightarrow> conns \<Rightarrow> bool" where
  "stream_inv S s0 i t0 got cs \<longleftrightarrow> i < length cs \<and>
     (\<exists>t n. cs ! i = Some t \<and> is_open t \<and> \<not> t_listening t \<and> (\<forall>g. same_peer g t = same_peer g t0) \<and>
        n \<le> length S \<and> got @ t_rx_data t = take n S \<and> t_recv_nxt t = s0 + word_of_nat n \<and>
        length (t_rx_data t) \<le> RX_BUF_LEN)"

lemma is_openD: "is_open t \<Longrightarrow> t_state t \<noteq> TCP_LISTEN \<and> t_state t \<noteq> TCP_CLOSED"
  by (auto simp: is_open_def)

text \<open>A segment for another connection leaves this one alone.\<close>

lemma tcp_input_frame:
  assumes "i < length cs" "cs ! i = Some t" "t_state t \<noteq> TCP_CLOSED" "find_conn g cs \<noteq> Some i"
  shows "snd (snd (tcp_input tx isn now g cs)) ! i = Some t"
proof -
  have "c \<noteq> i" if "find_slot cs = Some c" for c
    using find_slot_Some(2) [OF that] assms(2,3) by auto
  then show ?thesis
    using assms by (auto simp: tcp_input_def on_listen_def Let_def split: option.split prod.split)
qed

lemma length_tcp_input [simp]: "length (snd (snd (tcp_input tx isn now g cs))) = length cs"
  by (auto simp: tcp_input_def on_listen_def Let_def split: option.split prod.split)

lemma take_extend: "n + k \<le> length S \<Longrightarrow> take n S @ take k (drop n S) = take (n + k) S"
  by (simp add: take_add)

text \<open>What an in-order segment adds is the next piece of the stream.\<close>

lemma carried_piece:
  assumes "carries S s0 g" "length S < 2 ^ 32" "n \<le> length S" "g_seq g = s0 + word_of_nat n"
  shows "n + length (take f (g_payload g)) \<le> length S"
    and "take n S @ take f (g_payload g) = take (n + length (take f (g_payload g))) S"
proof -
  have "unat (g_seq g - s0) = n"
    using assms(2-4) by (simp add: unsigned_of_nat take_bit_nat_eq_self)
  with assms(1) have p: "n + length (g_payload g) \<le> length S" "g_payload g = take (length (g_payload g)) (drop n S)"
    by (simp_all add: carries_def Let_def)
  then show "n + length (take f (g_payload g)) \<le> length S" by simp
  have "take f (g_payload g) = take (length (take f (g_payload g))) (drop n S)"
    by (subst p(2)) (simp add: min.commute)
  with p(1) show "take n S @ take f (g_payload g) = take (n + length (take f (g_payload g))) S"
    using take_extend [of n "length (take f (g_payload g))" S] by simp
qed

lemma stream_invI:
  assumes "i < length cs" "cs ! i = Some t" "is_open t" "\<not> t_listening t" "\<And>g. same_peer g t = same_peer g t0"
    and "n \<le> length S" "got @ t_rx_data t = take n S" "t_recv_nxt t = s0 + word_of_nat n" "length (t_rx_data t) \<le> RX_BUF_LEN"
  shows "stream_inv S s0 i t0 got cs"
  unfolding stream_inv_def using assms by blast

lemma stream_inv_input:
  assumes inv: "stream_inv S s0 i t0 got cs" and "length S < 2 ^ 32" and car: "same_peer g t0 \<Longrightarrow> carries S s0 g"
  shows "stream_inv S s0 i t0 got (snd (snd (tcp_input tx isn now g cs)))"
proof -
  obtain t n where t: "cs ! i = Some t" "is_open t" "\<not> t_listening t" "\<And>g. same_peer g t = same_peer g t0" "n \<le> length S"
    "got @ t_rx_data t = take n S" "t_recv_nxt t = s0 + word_of_nat n" "length (t_rx_data t) \<le> RX_BUF_LEN"
    and i: "i < length cs"
    using inv by (auto simp: stream_inv_def)
  show ?thesis
  proof (cases "find_conn g cs = Some i")
    case False
    then show ?thesis
      using tcp_input_frame [OF i t(1)] is_openD [OF t(2)] t i by (auto simp: stream_inv_def)
  next
    case True
    then have "conn_matches g (Some t)" using t(1) by (simp add: find_conn_Some_iff)
    then have c: "carries S s0 g" using car t(3,4) by simp
    then have nf: "\<not> has_flag g TCP_FLAG_RST" "\<not> has_flag g TCP_FLAG_FIN" by (simp_all add: carries_def)
    note rx = open_segment_rx [OF t(2) nf, where now = now]
    let ?k = "if has_flag g TCP_FLAG_ACK \<and> g_seq g = t_recv_nxt t
        then take (rx_free (length (t_rx_data t))) (g_payload g) else []"
    have k: "n + length ?k \<le> length S" "take n S @ ?k = take (n + length ?k) S"
      using carried_piece [OF c assms(2) t(5)] t(5,7) by auto
    let ?t = "fst (on_segment now g t)"
    have "length (t_rx_data t @ ?k) \<le> RX_BUF_LEN" using t(8) by (auto simp: rx_free_def)
    moreover have "(got @ t_rx_data t) @ ?k = take (n + length ?k) S" using k(2) t(6) by simp
    moreover have "is_open ?t" using rx(3) t(2) by (simp add: is_open_def)
    moreover have "snd (snd (tcp_input tx isn now g cs)) ! i = Some ?t"
      using tcp_input_conn [OF True t(1)] is_openD [OF t(2)] i by simp
    moreover have "t_recv_nxt ?t = s0 + word_of_nat (n + length ?k)" using rx(2) t(7) by simp
    ultimately show ?thesis
      using i k(1) t(3,4) rx(1,4,5) by (intro stream_invI [where t = ?t and n = "n + length ?k"]) simp_all
  qed
qed

lemma stream_inv_read:
  assumes "stream_inv S s0 i t0 got cs"
  shows "case receive_data i n cs of (None, cs1) \<Rightarrow> stream_inv S s0 i t0 got cs1
    | (Some bs, cs1) \<Rightarrow> stream_inv S s0 i t0 (got @ bs) cs1"
proof -
  obtain t k where t: "cs ! i = Some t" "is_open t" "\<not> t_listening t" "\<And>g. same_peer g t = same_peer g t0" "k \<le> length S"
    "got @ t_rx_data t = take k S" "t_recv_nxt t = s0 + word_of_nat k" "length (t_rx_data t) \<le> RX_BUF_LEN"
    and i: "i < length cs"
    using assms by (auto simp: stream_inv_def)
  have "stream_inv S s0 i t0 (got @ take m (t_rx_data t)) (cs[i := Some (t\<lparr>t_rx_data := drop m (t_rx_data t)\<rparr>)])" for m
    by (rule stream_invI [where t = "t\<lparr>t_rx_data := drop m (t_rx_data t)\<rparr>" and n = k])
       (use t i in \<open>auto simp: is_open_def same_peer_def\<close>)
  then show ?thesis using assms t(1) by (simp add: receive_data_def Let_def)
qed

lemma stream_inv_events:
  assumes "stream_inv S s0 i t0 got cs" "length S < 2 ^ 32" "peer_events S s0 t0 evs"
  shows "stream_inv S s0 i t0 (fst (tcp_events tx i evs (got, cs))) (snd (tcp_events tx i evs (got, cs)))"
  using assms(1,3)
proof (induction evs arbitrary: got cs)
  case (Cons e evs)
  obtain isn now ev where e: "e = (isn, now, ev)" by (metis prod.exhaust)
  have rest: "peer_events S s0 t0 evs" using Cons.prems(2) by (simp add: peer_events_def)
  show ?case
  proof (cases ev)
    case (Arrive g)
    then have "same_peer g t0 \<Longrightarrow> carries S s0 g" using Cons.prems(2) by (simp add: peer_events_def e)
    from Cons.IH [OF stream_inv_input [OF Cons.prems(1) assms(2) this] rest] show ?thesis by (simp add: e Arrive)
  next
    case (ReadUpTo n)
    then show ?thesis
      using stream_inv_read [OF Cons.prems(1), of n] Cons.IH [OF _ rest] by (auto simp: e split: option.splits prod.splits)
  qed
qed simp

text \<open>
  C22: What a connection receives is its peer's stream: let segments arrive in any order, any number
  of times, with gaps and mixed with segments of other connections, and let the socket layer read
  in between. If every segment of this connection carries a piece of the stream \<open>S\<close> at its
  sequence number (and no FIN or RST), then what was read followed by what is buffered is a prefix
  of \<open>S\<close>, its length is what \<open>recv_nxt\<close> has moved by (so nothing is acknowledged that was not kept), and
  the buffer stays within its size.
\<close>

theorem stream_prefix:
  assumes "i < length cs" "cs ! i = Some t" "is_open t" "\<not> t_listening t" "t_rx_data t = []" "length S < 2 ^ 32"
    and "peer_events S (t_recv_nxt t) t evs"
  shows "\<exists>t' n. snd (tcp_events tx i evs ([], cs)) ! i = Some t' \<and> is_open t' \<and> n \<le> length S \<and>
    fst (tcp_events tx i evs ([], cs)) @ t_rx_data t' = take n S \<and>
    t_recv_nxt t' = t_recv_nxt t + word_of_nat n \<and> length (t_rx_data t') \<le> RX_BUF_LEN"
proof -
  have "stream_inv S (t_recv_nxt t) i t [] cs"
    using assms(1-5) by (auto simp: stream_inv_def intro!: exI [of _ 0])
  from stream_inv_events [OF this assms(6,7), of tx] show ?thesis unfolding stream_inv_def by blast
qed

definition hello_seg :: "u32 \<Rightarrow> bytes \<Rightarrow> tcp_seg" where
  "hello_seg seq payload = (ack_seg_to 80)\<lparr>g_seq := seq, g_payload := payload\<rparr>"

definition sample_tcb :: tcb where
  "sample_tcb = new_tcb TCP_ESTABLISHED (10, 0, 2, 7) 80 (10, 0, 2, 15) 4000 9001 9001 1001 False 0 0"

theorem stream_prefix_witness:
  "\<exists>t' n. snd (tcp_events (\<lambda>_ _. True) 0 [(0, 0, Arrive (hello_seg 1003 [3, 4])), (0, 0, Arrive (hello_seg 1001 [1, 2])),
       (0, 0, ReadUpTo 1), (0, 0, Arrive (hello_seg 1003 [3, 4, 5]))] ([], [Some sample_tcb])) ! 0 = Some t' \<and>
     fst (tcp_events (\<lambda>_ _. True) 0 [(0, 0, Arrive (hello_seg 1003 [3, 4])), (0, 0, Arrive (hello_seg 1001 [1, 2])),
       (0, 0, ReadUpTo 1), (0, 0, Arrive (hello_seg 1003 [3, 4, 5]))] ([], [Some sample_tcb])) @ t_rx_data t' = take n [1, 2, 3, 4, 5]"
proof -
  let ?e = "[(0, 0, Arrive (hello_seg 1003 [3, 4])), (0, 0, Arrive (hello_seg 1001 [1, 2])),
       (0, 0, ReadUpTo 1), (0, 0, Arrive (hello_seg 1003 [3, 4, 5]))] :: (u32 \<times> u64 \<times> tcp_event) list"
  have "peer_events [1, 2, 3, 4, 5] (t_recv_nxt sample_tcb) sample_tcb ?e" by code_simp
  moreover have "is_open sample_tcb" "\<not> t_listening sample_tcb" "t_rx_data sample_tcb = []"
    by (simp_all add: sample_tcb_def is_open_def)
  ultimately show ?thesis
    using stream_prefix [of 0 "[Some sample_tcb]" sample_tcb "[1, 2, 3, 4, 5]" ?e "\<lambda>_ _. True"] by auto
qed



text \<open>
  A reset for a listening port closes the listener, with no check of its sequence number, and the
  next timer pass frees its slot.
\<close>

lemma rst_kills_listener:
  assumes "find_conn g cs = Some l" "cs ! l = Some lt" "has_flag g TCP_FLAG_RST"
  shows "snd (poll_retransmit now' (snd (snd (tcp_input tx isn now g cs)))) ! l = None"
proof -
  have "l < length cs" using assms(1) by (simp add: find_conn_Some_iff)
  then show ?thesis using assms
    by (simp add: tcp_input_def on_segment_def poll_retransmit_def poll_tcb_def Let_def)
qed

section \<open>The timer\<close>

definition polls :: "u64 list \<Rightarrow> conns \<Rightarrow> conns" where
  "polls nows cs = fold (\<lambda>now cs. snd (poll_retransmit now cs)) nows cs"

lemma length_poll [simp]: "length (snd (poll_retransmit now cs)) = length cs"
  by (simp add: poll_retransmit_def Let_def)

lemma nth_poll:
  "i < length cs \<Longrightarrow> snd (poll_retransmit now cs) ! i = (case cs ! i of None \<Rightarrow> None | Some t \<Rightarrow> fst (poll_tcb now t))"
  by (simp add: poll_retransmit_def Let_def split: option.split)

lemma polls_Cons: "polls (now # nows) cs = polls nows (snd (poll_retransmit now cs))"
  by (simp add: polls_def)

lemma length_polls [simp]: "length (polls nows cs) = length cs"
  by (induction nows arbitrary: cs) (simp_all add: polls_Cons, simp add: polls_def)

lemma polls_None: "i < length cs \<Longrightarrow> cs ! i = None \<Longrightarrow> polls nows cs ! i = None"
  by (induction nows arbitrary: cs) (simp_all add: polls_Cons nth_poll, simp add: polls_def)

text \<open>Waiting for an answer to a SYN or FIN, with retries left.\<close>

definition awaiting :: "tcb \<Rightarrow> bool" where
  "awaiting t \<longleftrightarrow> \<not> t_listening t \<and> t_state t \<in> {TCP_SYN_SENT, TCP_SYN_RECEIVED, TCP_LAST_ACK, TCP_FIN_WAIT1, TCP_CLOSING} \<and>
     seq_before (t_send_una t) (t_send_nxt t) \<and> t_retry_count t \<noteq> 0 \<and> t_retry_ticks t \<le> RETRY_INTERVAL"

definition polls_left :: "tcb \<Rightarrow> nat" where
  "polls_left t = unat (t_retry_ticks t) + 11 * (unat (t_retry_count t) - 1) + 1"

lemma unat_dec: "(x :: u8) \<noteq> 0 \<Longrightarrow> unat (x - 1) = unat x - 1"
  by (simp add: unat_minus_one)

lemma awaiting_poll:
  assumes "awaiting t"
  shows "\<exists>t1. fst (poll_tcb now t) = Some t1 \<and>
    (polls_left t = 1 \<and> t_state t1 = TCP_CLOSED \<or> awaiting t1 \<and> polls_left t = Suc (polls_left t1))"
proof (cases "t_retry_ticks t = 0")
  case True
  let ?t1 = "retransmit_count t"
  have "poll_tcb now t = apfst Some (retransmit t)" "fst (retransmit t) = ?t1"
    using assms True by (auto simp: awaiting_def poll_tcb_def retransmit_def)
  then have p: "fst (poll_tcb now t) = Some ?t1" by (simp add: apfst_def map_prod_def split: prod.splits)
  have c: "unat (t_retry_count t) \<noteq> 0" using assms by (simp add: awaiting_def unat_eq_zero)
  show ?thesis
  proof (cases "unat (t_retry_count t) = 1")
    case one: True
    then have "t_retry_count t = 1" by (metis unat_1 word_unat_eq_iff)
    then show ?thesis using p True by (simp add: retransmit_count_def polls_left_def Let_def)
  next
    case False
    then have n: "t_retry_count t - 1 \<noteq> 0" "unat (t_retry_count t - 1) = unat (t_retry_count t) - 1"
      using c assms by (auto simp: unat_dec awaiting_def)
    have "awaiting ?t1 \<and> polls_left t = Suc (polls_left ?t1)"
      using assms True False c n by (auto simp: retransmit_count_def polls_left_def awaiting_def RETRY_INTERVAL_def Let_def)
    with p show ?thesis by blast
  qed
next
  case False
  let ?t1 = "t\<lparr>t_retry_ticks := t_retry_ticks t - 1\<rparr>"
  have "0 < t_retry_ticks t" using False by (simp add: word_gt_0)
  then have "fst (poll_tcb now t) = Some ?t1" using assms by (auto simp: awaiting_def poll_tcb_def)
  moreover have "unat (t_retry_ticks t) \<noteq> 0" using False by (simp add: unat_eq_zero)
  then have "polls_left t = Suc (polls_left ?t1)" using False by (simp add: polls_left_def unat_dec)
  moreover have "t_retry_ticks t - 1 \<le> RETRY_INTERVAL"
    using assms False unat_dec [of "t_retry_ticks t"] by (auto simp: awaiting_def word_le_nat_alt)
  then have "awaiting ?t1" using assms by (simp add: awaiting_def)
  ultimately show ?thesis by blast
qed



text \<open>An open connection with at least a congestion window of unacknowledged data.\<close>

definition stalled :: "tcb \<Rightarrow> bool" where
  "stalled t \<longleftrightarrow> is_open t \<and> \<not> t_listening t \<and> seq_before (t_send_una t) (t_send_nxt t) \<and>
     ucast (t_cwnd t) \<le> t_send_nxt t - t_send_una t"

lemma stalled_poll:
  assumes "stalled t"
  shows "\<exists>k. poll_tcb now t = (Some (t\<lparr>t_retry_ticks := k\<rparr>), [])"
proof -
  have "saturating_sub (ucast (t_cwnd t)) (t_send_nxt t - t_send_una t) = (0 :: u32)"
    using assms by (auto simp: stalled_def saturating_sub_def)
  then have l: "send_limit t = 0" by (simp add: send_limit_def Let_def min_def)
  have st: "t_state t = TCP_ESTABLISHED \<or> t_state t = TCP_CLOSE_WAIT" using assms by (simp add: stalled_def is_open_def)
  have id: "t = t\<lparr>t_retry_ticks := t_retry_ticks t\<rparr>" by simp
  show ?thesis
  proof (cases "t_retry_count t = 0")
    case True
    then have "poll_tcb now t = (Some t, [])" using assms st by (auto simp: poll_tcb_def stalled_def)
    with id show ?thesis by metis
  next
    case False
    then show ?thesis using assms st l by (auto simp: poll_tcb_def stalled_def retransmit_def apfst_def)
  qed
qed

text \<open>
  C26: A full window is never retransmitted: retransmission is limited to what the congestion window
  leaves beyond the data in flight, so once a window's worth is unacknowledged (one full segment
  at the start) and lost, no timer pass ever sends anything for the connection, nor gives it up.
\<close>

theorem full_window_never_retransmitted:
  assumes "i < length cs" "cs ! i = Some t" "stalled t"
  shows "\<exists>t'. polls nows cs ! i = Some t' \<and> stalled t' \<and> t_state t' = t_state t \<and> (\<forall>now. snd (poll_tcb now t') = [])"
  using assms
proof (induction nows arbitrary: cs t)
  case Nil
  then show ?case using stalled_poll by (simp add: polls_def) (metis snd_conv)
next
  case (Cons now nows)
  obtain k where "poll_tcb now t = (Some (t\<lparr>t_retry_ticks := k\<rparr>), [])" using stalled_poll [OF Cons.prems(3)] by blast
  then have "snd (poll_retransmit now cs) ! i = Some (t\<lparr>t_retry_ticks := k\<rparr>)" "stalled (t\<lparr>t_retry_ticks := k\<rparr>)"
    using Cons.prems by (simp_all add: nth_poll stalled_def is_open_def)
  from Cons.IH [OF _ this] Cons.prems(1) show ?case by (simp add: polls_Cons)
qed

theorem full_window_never_retransmitted_witness:
  "\<exists>t'. polls [0, 1000, 100000] (snd (snd (flush_tx (\<lambda>_ _. True) 0 [Some (sample_tcb\<lparr>t_tx_data := replicate 1460 7\<rparr>)]))) ! 0 = Some t' \<and>
     t_state t' = TCP_ESTABLISHED \<and> (\<forall>now. snd (poll_tcb now t') = [])"
proof -
  let ?t = "sample_tcb\<lparr>t_tx_data := replicate 1460 7\<rparr>"
  let ?t1 = "?t\<lparr>t_send_nxt := t_send_nxt ?t + 1460, t_retry_count := MAX_RETRIES, t_retry_ticks := RETRY_INTERVAL\<rparr>"
  have "open_conn 0 [Some ?t] = Some ?t" by (simp add: open_conn_def is_open_def sample_tcb_def MAX_CONNS_def)
  moreover have "word_of_nat (length (take 1460 (t_tx_data ?t))) = (1460 :: u32)" by simp
  ultimately have f: "snd (snd (flush_tx (\<lambda>_ _. True) 0 [Some ?t])) = [Some ?t1]"
    by (simp add: flush_tx_def Let_def)
  have "seq_before 9001 10461" by code_simp
  then have "stalled ?t1" by (simp add: stalled_def is_open_def sample_tcb_def new_tcb_def INIT_CWND_def)
  from full_window_never_retransmitted [OF _ _ this, of 0 "[Some ?t1]" "[0, 1000, 100000]"] show ?thesis
    by (simp add: f) (auto simp: sample_tcb_def)
qed

section \<open>Sending\<close>

lemma seq_before_add:
  assumes "0 < n" "n < 2 ^ 31"
  shows "seq_before a (a + word_of_nat n)"
proof -
  have "a - (a + word_of_nat n) = word_of_int (- int n)" by simp
  moreover have "sint (word_of_int (- int n) :: u32) = - int n"
    using assms by (simp only: signed_of_int) (simp add: signed_take_bit_int_eq_self)
  ultimately show ?thesis using assms(1) by (simp only: seq_before_def)
qed

text \<open>The fields of the send side, which the bookkeeping of an acknowledgement leaves alone.\<close>

lemma tx_steps [simp]:
  "t_send_una (count_dupack ack t) = t_send_una t" "t_send_nxt (count_dupack ack t) = t_send_nxt t"
  "t_tx_data (count_dupack ack t) = t_tx_data t" "t_send_una (note_ack ack t) = t_send_una t"
  "t_send_nxt (note_ack ack t) = t_send_nxt t" "t_tx_data (note_ack ack t) = t_tx_data t"
  "t_send_una (grow_cwnd n t) = t_send_una t" "t_send_nxt (grow_cwnd n t) = t_send_nxt t"
  "t_tx_data (grow_cwnd n t) = t_tx_data t" "t_send_una (stop_timer t) = t_send_una t"
  "t_send_nxt (stop_timer t) = t_send_nxt t" "t_tx_data (stop_timer t) = t_tx_data t"
  "t_send_una (trim_tx n t) = t_send_una t" "t_send_nxt (trim_tx n t) = t_send_nxt t"
  by (simp_all add: count_dupack_def note_ack_def grow_cwnd_def stop_timer_def trim_tx_def Let_def)

text \<open>An acknowledgement of everything in flight empties the send buffer.\<close>

lemma full_ack_empties:
  assumes "t_tx_data t \<noteq> []" "length (t_tx_data t) < 2 ^ 31"
    and "t_send_nxt t = t_send_una t + word_of_nat (length (t_tx_data t))" "g_ack g = t_send_nxt t"
  shows "t_tx_data (est_ack now g t) = []" and "t_send_una (est_ack now g t) = t_send_nxt t"
proof -
  let ?n = "length (t_tx_data t)"
  have "seq_before (t_send_una t) (g_ack g)" using assms by (simp add: seq_before_add)
  moreover have "seq_before_eq (g_ack g) (t_send_nxt t)" using assms(4) by (simp add: seq_before_eq_def)
  moreover have "g_ack g - t_send_una t = word_of_nat ?n" using assms(3,4) by simp
  moreover have "unat (word_of_nat ?n :: u32) = ?n" "uint (word_of_nat ?n :: u32) = int ?n"
    using assms(2) by (simp_all add: unsigned_of_nat take_bit_nat_eq_self take_bit_int_eq_self)
  ultimately show "t_tx_data (est_ack now g t) = []" "t_send_una (est_ack now g t) = t_send_nxt t"
    using assms(4) by (simp_all add: est_ack_def est_una_def trim_tx_def)
qed

lemma flush_tx_eq:
  assumes "open_conn i cs = Some t" "t_tx_data t \<noteq> []" "length (t_tx_data t) \<le> 1460" "\<forall>ip seg. tx ip seg"
  shows "flush_tx tx i cs =
    (True, [tcb_segment t (t_send_nxt t) (TCP_FLAG_ACK OR TCP_FLAG_PSH) (t_tx_data t)],
     cs[i := Some (t\<lparr>t_send_nxt := t_send_nxt t + word_of_nat (length (t_tx_data t)),
        t_retry_count := MAX_RETRIES, t_retry_ticks := RETRY_INTERVAL\<rparr>)])"
  using assms(1-3) assms(4) [rule_format] by (simp add: flush_tx_def Let_def)

lemma est_ack_nxt [simp]: "t_send_nxt (est_ack now g t) = t_send_nxt t"
  by (simp add: est_ack_def est_una_def Let_def)

lemma tcp_parse_tcb_segment:
  assumes "length payload \<le> 1480"
  shows "tcp_parse (t_local_ip t) (t_remote_ip t) (snd (tcb_segment t seq flags payload)) =
    Some \<lparr>g_src_ip = t_local_ip t, g_dst_ip = t_remote_ip t, g_src_port = t_local_port t, g_dst_port = t_remote_port t,
      g_seq = seq, g_ack = t_recv_nxt t, g_flags = flags, g_window = tcb_win t, g_payload = payload\<rparr>"
  using tcp_parse_sealed [OF assms] by (simp add: tcb_segment_def)

text \<open>
  The segment that \<open>flush_tx\<close> of \<open>t\<close> sends, as the receiver parses it.
\<close>

definition flushed :: "tcb \<Rightarrow> tcp_seg" where
  "flushed t = \<lparr>g_src_ip = t_local_ip t, g_dst_ip = t_remote_ip t, g_src_port = t_local_port t,
     g_dst_port = t_remote_port t, g_seq = t_send_nxt t, g_ack = t_recv_nxt t,
     g_flags = TCP_FLAG_ACK OR TCP_FLAG_PSH, g_window = tcb_win t, g_payload = t_tx_data t\<rparr>"

lemma flushed_flags [simp]:
  "has_flag (flushed t) TCP_FLAG_ACK" "\<not> has_flag (flushed t) TCP_FLAG_FIN" "\<not> has_flag (flushed t) TCP_FLAG_RST"
  by (simp_all add: flushed_def has_flag_def tcp_flag_defs)

lemma flushed_fields [simp]: "g_seq (flushed t) = t_send_nxt t" "g_payload (flushed t) = t_tx_data t"
  by (simp_all add: flushed_def)

lemma flushed_ack:
  assumes "is_open tp" "t_recv_nxt tp = t_send_nxt t" "t_tx_data t \<noteq> []"
  shows "\<exists>w. snd (on_segment now (flushed t) tp) =
    [reply_seg (flushed t) (t_send_nxt tp) (t_recv_nxt (fst (on_segment now (flushed t) tp))) TCP_FLAG_ACK w]"
proof -
  have "on_segment now (flushed t) tp = est_data (flushed t) (est_ack now (flushed t) tp)"
    using assms(1,3) by (auto simp: on_segment_def is_open_def on_established_def Let_def split: prod.splits)
  moreover have "g_seq (flushed t) = t_recv_nxt (est_ack now (flushed t) tp)" using assms(2) by simp
  ultimately show ?thesis by (simp add: est_data_def ack_reply_def buffer_payload_def Let_def) (rule exI, rule refl)
qed



text \<open>
  C29: Flushing twice duplicates data: \<open>flush_tx\<close> starts at the head of the send buffer whatever is in
  flight, and gives the bytes a new sequence number. A second call before the acknowledgement
  sends the same bytes as if they were the next ones, and the peer's stream contains them twice.
\<close>

theorem flush_twice_duplicates:
  assumes "open_conn i cs = Some t" "i < length cs" "t_tx_data t \<noteq> []" "length (t_tx_data t) \<le> 1460" "\<forall>ip seg. tx ip seg"
    and "is_open tp" "t_recv_nxt tp = t_send_nxt t" "length (t_rx_data tp) + 2 * length (t_tx_data t) \<le> RX_BUF_LEN"
  shows "\<exists>seg1 seg2 cs1 cs2 g1 g2.
    flush_tx tx i cs = (True, [(t_remote_ip t, seg1)], cs1) \<and> flush_tx tx i cs1 = (True, [(t_remote_ip t, seg2)], cs2) \<and>
    tcp_parse (t_local_ip t) (t_remote_ip t) seg1 = Some g1 \<and> tcp_parse (t_local_ip t) (t_remote_ip t) seg2 = Some g2 \<and>
    t_rx_data (fst (on_segment now' g2 (fst (on_segment now g1 tp)))) = t_rx_data tp @ t_tx_data t @ t_tx_data t"
proof -
  let ?n = "length (t_tx_data t)"
  let ?t1 = "t\<lparr>t_send_nxt := t_send_nxt t + word_of_nat ?n, t_retry_count := MAX_RETRIES, t_retry_ticks := RETRY_INTERVAL\<rparr>"
  let ?seg = "\<lambda>t. tcb_segment t (t_send_nxt t) (TCP_FLAG_ACK OR TCP_FLAG_PSH) (t_tx_data t)"
  have i: "i < MAX_CONNS" "is_open t" using assms(1) by (auto simp: open_conn_def split: option.splits if_splits)
  then have o1: "open_conn i (cs[i := Some ?t1]) = Some ?t1" using assms(2) by (simp add: open_conn_def is_open_def)
  obtain cs2 where fl: "flush_tx tx i cs = (True, [(t_remote_ip t, snd (?seg t))], cs[i := Some ?t1])"
    "flush_tx tx i (cs[i := Some ?t1]) = (True, [(t_remote_ip t, snd (?seg ?t1))], cs2)"
    using flush_tx_eq [OF assms(1,3-5)] flush_tx_eq [OF o1 _ _ assms(5)] assms(3,4) by (simp add: tcb_segment_def)
  have pa: "tcp_parse (t_local_ip t) (t_remote_ip t) (snd (?seg t)) = Some (flushed t)"
    "tcp_parse (t_local_ip t) (t_remote_ip t) (snd (?seg ?t1)) = Some (flushed ?t1)"
    using tcp_parse_tcb_segment [of "t_tx_data t" t] tcp_parse_tcb_segment [of "t_tx_data t" ?t1] assms(4)
    by (simp_all add: flushed_def)
  let ?p1 = "fst (on_segment now (flushed t) tp)"
  have p1: "t_rx_data ?p1 = t_rx_data tp @ t_tx_data t" "t_recv_nxt ?p1 = t_send_nxt ?t1" "is_open ?p1"
    using open_segment_rx(1-3) [OF assms(6), of "flushed t" now] assms(6-8) by (simp_all add: rx_free_def is_open_def)
  have "t_rx_data (fst (on_segment now' (flushed ?t1) ?p1)) = t_rx_data tp @ t_tx_data t @ t_tx_data t"
    using open_segment_rx(1) [OF p1(3), of "flushed ?t1" now'] p1(1,2) assms(8) by (simp add: rx_free_def)
  with fl pa show ?thesis by blast
qed

theorem flush_twice_duplicates_witness:
  "\<exists>seg1 seg2 cs1 cs2 g1 g2.
     flush_tx (\<lambda>_ _. True) 0 [Some (sample_tcb\<lparr>t_tx_data := [1, 2]\<rparr>)] = (True, [((10, 0, 2, 15), seg1)], cs1) \<and>
     flush_tx (\<lambda>_ _. True) 0 cs1 = (True, [((10, 0, 2, 15), seg2)], cs2) \<and>
     tcp_parse (10, 0, 2, 7) (10, 0, 2, 15) seg1 = Some g1 \<and> tcp_parse (10, 0, 2, 7) (10, 0, 2, 15) seg2 = Some g2 \<and>
     t_rx_data (fst (on_segment 0 g2 (fst (on_segment 0 g1 (sample_tcb\<lparr>t_recv_nxt := 9001\<rparr>))))) = [1, 2, 1, 2]"
proof -
  let ?t = "sample_tcb\<lparr>t_tx_data := [1, 2]\<rparr>" and ?tp = "sample_tcb\<lparr>t_recv_nxt := 9001\<rparr>"
  have 1: "open_conn 0 [Some ?t] = Some ?t" "is_open ?tp"
    by (simp_all add: open_conn_def is_open_def sample_tcb_def MAX_CONNS_def)
  have 2: "t_recv_nxt ?tp = t_send_nxt ?t" "t_rx_data ?tp = []" "t_local_ip ?t = (10, 0, 2, 7)"
    "t_remote_ip ?t = (10, 0, 2, 15)" by (simp_all add: sample_tcb_def)
  from flush_twice_duplicates [OF 1(1) _ _ _ _ 1(2) 2(1), of "\<lambda>_ _. True" 0 0] 2(2-4) show ?thesis
    by (auto simp: RX_BUF_LEN_def)
qed

end
