(* ===== verification/Heap.thy ===== *)
theory Heap
  imports Prelude
begin

text \<open>
  The kernel heap, \<^verbatim>\<open>crates/zenus-mem/src/allocator.rs\<close>: a free list of blocks threaded through an
  8 MB arena, each block a header followed by its payload.

  Addresses and sizes are \<open>usize\<close>, 64 bits, and wrap as in a release build. The arena is seen as the
  headers written into it: \<open>hp_mem a\<close> is the header at address \<open>a\<close>. The address of the static array
  \<open>HEAP\<close> is a component of the state. A walk along the list that does not end is \<open>None\<close>.
\<close>

definition HEAP_SIZE :: u64 where
  "HEAP_SIZE = 1024 * 1024 * 8"

definition HEADER_SIZE :: u64 where
  "HEADER_SIZE = 32"

definition MIN_BLOCK :: u64 where
  "MIN_BLOCK = 32"

definition MAGIC_FREE :: u64 where
  "MAGIC_FREE = 0x46524545424C4F43"

definition MAGIC_USED :: u64 where
  "MAGIC_USED = 0x55534544424C4F43"

definition CANARY_VALUE :: u64 where
  "CANARY_VALUE = 0xDEADBEEFCAFEBABE"

record block_header =
  bh_magic :: u64
  bh_size :: u64
  bh_next :: u64
  bh_canary :: u64

record heap =
  hp_start :: u64
  hp_head :: u64
  hp_initialized :: bool
  hp_mem :: "u64 \<Rightarrow> block_header"

definition write_header :: "heap \<Rightarrow> u64 \<Rightarrow> u64 \<Rightarrow> u64 \<Rightarrow> u64 \<Rightarrow> heap" where
  "write_header h a magic sz nxt =
     h\<lparr>hp_mem := (hp_mem h)(a := \<lparr>bh_magic = magic, bh_size = sz, bh_next = nxt, bh_canary = CANARY_VALUE\<rparr>)\<rparr>"

definition ensure_initialized :: "heap \<Rightarrow> heap" where
  "ensure_initialized h =
     (if hp_initialized h then h
      else (write_header h (hp_start h) MAGIC_FREE (HEAP_SIZE - HEADER_SIZE) 0)
             \<lparr>hp_head := hp_start h, hp_initialized := True\<rparr>)"

text \<open>The faults that \<open>debug_check_free_list\<close> reports; it changes nothing.\<close>

datatype list_fault = TooLong | OutsideArena | PastArena | NotAscending | BadMagic | Misaligned

fun check_list :: "nat \<Rightarrow> heap \<Rightarrow> u64 \<Rightarrow> u64 \<Rightarrow> (u64 \<times> list_fault) option" where
  "check_list n h prev cur =
     (if cur = 0 then None
      else case n of
        0 \<Rightarrow> Some (cur, TooLong)
      | Suc m \<Rightarrow>
          let arena_lo = hp_start h; arena_hi = hp_start h + HEAP_SIZE; b = hp_mem h cur
          in if cur < arena_lo \<or> (case checked_add cur HEADER_SIZE of None \<Rightarrow> True | Some e \<Rightarrow> e > arena_hi)
             then Some (cur, OutsideArena)
             else if (case checked_add cur HEADER_SIZE of None \<Rightarrow> True
                      | Some e \<Rightarrow> (case checked_add e (bh_size b) of None \<Rightarrow> True | Some e' \<Rightarrow> \<not> e' \<le> arena_hi))
             then Some (cur, PastArena)
             else if cur \<le> prev then Some (cur, NotAscending)
             else if bh_magic b \<noteq> MAGIC_FREE \<or> bh_canary b \<noteq> CANARY_VALUE then Some (cur, BadMagic)
             else if cur AND 7 \<noteq> 0 then Some (cur, Misaligned)
             else check_list m h cur (bh_next b))"

declare check_list.simps [simp del]

definition debug_check_free_list :: "heap \<Rightarrow> (u64 \<times> list_fault) option" where
  "debug_check_free_list h = check_list 4096 h 0 (hp_head h)"

section \<open>Allocation\<close>

definition round_up :: "u64 \<Rightarrow> u64 \<Rightarrow> u64" where
  "round_up x align = (x + align - 1) AND NOT (align - 1)"

text \<open>Pointing the predecessor, or the head of the list, at \<open>nxt\<close>.\<close>

definition link :: "heap \<Rightarrow> u64 \<Rightarrow> u64 \<Rightarrow> heap" where
  "link h prev nxt =
     (if prev = 0 then h\<lparr>hp_head := nxt\<rparr>
      else h\<lparr>hp_mem := (hp_mem h)(prev := (hp_mem h prev)\<lparr>bh_next := nxt\<rparr>)\<rparr>)"

definition carve :: "heap \<Rightarrow> u64 \<Rightarrow> u64 \<Rightarrow> u64 \<Rightarrow> u64 \<Rightarrow> heap" where
  "carve h sz align prev cur =
     (let b = hp_mem h cur;
          region_end = cur + HEADER_SIZE + bh_size b;
          used_hdr = round_up cur align;
          aligned_data = used_hdr + HEADER_SIZE;
          leftover = round_up (aligned_data + sz) align;
          h1 = (if leftover + HEADER_SIZE + MIN_BLOCK > region_end then link h prev (bh_next b)
                else link (write_header h leftover MAGIC_FREE (region_end - leftover - HEADER_SIZE) (bh_next b))
                       prev leftover)
      in write_header h1 used_hdr MAGIC_USED (round_up sz align) 0)"

partial_function (option) alloc_walk :: "heap \<Rightarrow> u64 \<Rightarrow> u64 \<Rightarrow> u64 \<Rightarrow> u64 \<Rightarrow> (u64 \<times> heap) option" where
  "alloc_walk h sz align prev cur =
     (if cur = 0 then Some (0, h)
      else let b = hp_mem h cur;
               region_end = cur + HEADER_SIZE + bh_size b;
               aligned_data = round_up cur align + HEADER_SIZE
           in if aligned_data + sz > region_end then alloc_walk h sz align cur (bh_next b)
              else Some (aligned_data, carve h sz align prev cur))"

declare alloc_walk.simps [code]

definition alloc_mut :: "heap \<Rightarrow> u64 \<Rightarrow> u64 \<Rightarrow> (u64 \<times> heap) option" where
  "alloc_mut h0 layout_size layout_align =
     (let h = ensure_initialized h0; sz = max layout_size 1; align = max layout_align 16
      in alloc_walk h sz align 0 (hp_head h))"

section \<open>Release\<close>

partial_function (option) dealloc_find :: "heap \<Rightarrow> u64 \<Rightarrow> u64 \<Rightarrow> u64 \<Rightarrow> (u64 \<times> u64) option" where
  "dealloc_find h block prev cur =
     (if cur = 0 \<or> cur > block then Some (prev, cur)
      else dealloc_find h block cur (bh_next (hp_mem h cur)))"

declare dealloc_find.simps [code]

definition set_block :: "heap \<Rightarrow> u64 \<Rightarrow> u64 \<Rightarrow> u64 \<Rightarrow> heap" where
  "set_block h a sz nxt = h\<lparr>hp_mem := (hp_mem h)(a := (hp_mem h a)\<lparr>bh_size := sz, bh_next := nxt\<rparr>)\<rparr>"

definition insert_block :: "heap \<Rightarrow> u64 \<Rightarrow> u64 \<Rightarrow> u64 \<Rightarrow> heap" where
  "insert_block h block prev cur =
     (let block_size = bh_size (hp_mem h block);
          block_end = block + HEADER_SIZE + block_size;
          prev_end = (if prev \<noteq> 0 then prev + HEADER_SIZE + bh_size (hp_mem h prev) else 0);
          coalesce_prev = (prev \<noteq> 0 \<and> prev_end = block);
          coalesce_next = (cur \<noteq> 0 \<and> block_end = cur);
          p = hp_mem h prev; n = hp_mem h cur
      in if coalesce_prev \<and> coalesce_next then
           set_block h prev (bh_size p + (HEADER_SIZE + block_size + HEADER_SIZE + bh_size n)) (bh_next n)
         else if coalesce_prev then set_block h prev (bh_size p + (HEADER_SIZE + block_size)) (bh_next p)
         else if coalesce_next then
           link (set_block h block (block_size + (HEADER_SIZE + bh_size n)) (bh_next n)) prev block
         else link (set_block h block block_size cur) prev block)"

text \<open>A null pointer, a block that is free already, and a damaged header are left alone.\<close>

definition dealloc_mut :: "heap \<Rightarrow> u64 \<Rightarrow> heap option" where
  "dealloc_mut h0 ptr =
     (let h = ensure_initialized h0
      in if ptr = 0 then Some h
         else let block = ptr - HEADER_SIZE; b = hp_mem h block
         in if bh_magic b = MAGIC_FREE then Some h
            else if bh_magic b \<noteq> MAGIC_USED \<or> bh_canary b \<noteq> CANARY_VALUE then Some h
            else let h1 = h\<lparr>hp_mem := (hp_mem h)(block := b\<lparr>bh_magic := MAGIC_FREE\<rparr>)\<rparr>
            in case dealloc_find h1 block 0 (hp_head h1) of
                 None \<Rightarrow> None
               | Some (prev, cur) \<Rightarrow> Some (insert_block h1 block prev cur))"

partial_function (option) free_size_from :: "heap \<Rightarrow> u64 \<Rightarrow> u64 \<Rightarrow> u64 option" where
  "free_size_from h acc cur =
     (if cur = 0 then Some acc
      else let b = hp_mem h cur
           in free_size_from h (if bh_magic b = MAGIC_FREE then acc + bh_size b else acc) (bh_next b))"

declare free_size_from.simps [code]

definition free_size :: "heap \<Rightarrow> u64 option" where
  "free_size h0 = (let h = ensure_initialized h0 in free_size_from h 0 (hp_head h))"

end
