(* ===== verification/HeapInv.thy ===== *)
theory HeapInv
  imports Heap
begin

text \<open>
  The heap keeps its promise for requests aligned to at most 16 bytes: the free list is an
  ascending chain of blocks inside the arena, apart from each other and from every block handed
  out, and both operations end and keep this. For larger alignments and very large sizes it does
  not; the closed evaluations at the end show how.
\<close>

type_synonym block = "u64 \<times> u64"

definition bstart :: "block \<Rightarrow> nat" where
  "bstart b = unat (fst b)"

definition bend :: "block \<Rightarrow> nat" where
  "bend b = unat (fst b) + 32 + unat (snd b)"

definition before :: "block \<Rightarrow> block \<Rightarrow> bool" where
  "before x y \<longleftrightarrow> bend x \<le> bstart y"

definition apart :: "block \<Rightarrow> block \<Rightarrow> bool" where
  "apart x y \<longleftrightarrow> before x y \<or> before y x"

lemma apart_sym: "apart x y \<Longrightarrow> apart y x"
  by (auto simp: apart_def)

lemma before_trans: "before x y \<Longrightarrow> before y z \<Longrightarrow> before x z"
  by (simp add: before_def bstart_def bend_def)

lemma apart_neq: "apart x y \<Longrightarrow> fst x \<noteq> fst y"
  by (auto simp: apart_def before_def bstart_def bend_def)

section \<open>Chains of headers\<close>

fun chain :: "(u64 \<Rightarrow> block_header) \<Rightarrow> u64 \<Rightarrow> block list \<Rightarrow> bool" where
  "chain m a [] \<longleftrightarrow> a = 0"
| "chain m a (b # bs) \<longleftrightarrow> a = fst b \<and> a \<noteq> 0 \<and> bh_magic (m a) = MAGIC_FREE \<and> bh_size (m a) = snd b \<and>
     bh_canary (m a) = CANARY_VALUE \<and> chain m (bh_next (m a)) bs"

lemma chain_upd [simp]: "a \<notin> fst ` set F \<Longrightarrow> chain (m(a := x)) a0 F = chain m a0 F"
  by (induction F arbitrary: a0) auto

lemma chain_nonzero: "chain m a F \<Longrightarrow> b \<in> set F \<Longrightarrow> fst b \<noteq> 0"
  by (induction F arbitrary: a) auto

lemma chain_tail: "chain m a (P @ Q) \<Longrightarrow> \<exists>b. chain m b Q"
  by (induction P arbitrary: a) auto

lemma chain_at: "chain m a (P @ b # Q) \<Longrightarrow> chain m (fst b) (b # Q)"
  by (induction P arbitrary: a) auto

lemma chain_in:
  "chain m a F \<Longrightarrow> b \<in> set F \<Longrightarrow> bh_magic (m (fst b)) = MAGIC_FREE \<and> bh_size (m (fst b)) = snd b"
  by (induction F arbitrary: a) auto

text \<open>Changing the size and the successor of the last block before the rest of the chain.\<close>

lemma chain_replace:
  assumes "chain m a (P @ p # Q)" "chain m n R" "fst p \<notin> fst ` set P" "fst p \<notin> fst ` set R"
  shows "chain (m(fst p := (m (fst p))\<lparr>bh_size := z, bh_next := n\<rparr>)) a (P @ (fst p, z) # R)"
  using assms by (induction P arbitrary: a) auto

definition prev_of :: "block list \<Rightarrow> u64" where
  "prev_of P = (if P = [] then 0 else fst (last P))"

lemma chain_link:
  assumes "chain (hp_mem h) (hp_head h) (P @ Q)" "chain (hp_mem h) n R" "distinct (map fst P)"
    and "fst ` set P \<inter> fst ` set R = {}"
  shows "chain (hp_mem (link h (prev_of P) n)) (hp_head (link h (prev_of P) n)) (P @ R)"
proof (cases P rule: rev_cases)
  case Nil
  then show ?thesis using assms(2) by (simp add: link_def prev_of_def)
next
  case (snoc P0 p)
  then have c: "chain (hp_mem h) (hp_head h) (P0 @ p # Q)" using assms(1) by simp
  then have p: "fst p \<noteq> 0" "bh_size (hp_mem h (fst p)) = snd p" using chain_at [OF c] by auto
  have "chain ((hp_mem h)(fst p := (hp_mem h (fst p))\<lparr>bh_size := snd p, bh_next := n\<rparr>)) (hp_head h) (P0 @ (fst p, snd p) # R)"
    by (rule chain_replace [OF c assms(2)]) (use snoc assms(3,4) in auto)
  moreover have "(hp_mem h (fst p))\<lparr>bh_size := snd p, bh_next := n\<rparr> = (hp_mem h (fst p))\<lparr>bh_next := n\<rparr>"
    using p(2) by (metis block_header.surjective block_header.update_convs(2))
  ultimately show ?thesis using p(1) snoc by (simp add: link_def prev_of_def)
qed

lemma hp_link [simp]:
  "hp_start (link h p n) = hp_start h" "hp_initialized (link h p n) = hp_initialized h"
  by (simp_all add: link_def)

lemma hp_mem_link_other: "a \<noteq> p \<Longrightarrow> hp_mem (link h p n) a = hp_mem h a"
  by (simp add: link_def)

lemma hp_write [simp]:
  "hp_start (write_header h a g s n) = hp_start h" "hp_head (write_header h a g s n) = hp_head h"
  "hp_initialized (write_header h a g s n) = hp_initialized h"
  "hp_mem (write_header h a g s n) = (hp_mem h)(a := \<lparr>bh_magic = g, bh_size = s, bh_next = n, bh_canary = CANARY_VALUE\<rparr>)"
  by (simp_all add: write_header_def)

lemma hp_set_block [simp]:
  "hp_start (set_block h a s n) = hp_start h" "hp_head (set_block h a s n) = hp_head h"
  "hp_initialized (set_block h a s n) = hp_initialized h"
  "hp_mem (set_block h a s n) = (hp_mem h)(a := (hp_mem h a)\<lparr>bh_size := s, bh_next := n\<rparr>)"
  by (simp_all add: set_block_def)

section \<open>The invariant\<close>

abbreviation arena_lo :: "heap \<Rightarrow> nat" where
  "arena_lo h \<equiv> unat (hp_start h)"

abbreviation arena_hi :: "heap \<Rightarrow> nat" where
  "arena_hi h \<equiv> unat (hp_start h) + 8388608"

definition arena_ok :: "heap \<Rightarrow> bool" where
  "arena_ok h \<longleftrightarrow> 0 < arena_lo h \<and> arena_hi h + 64 < 2 ^ 64 \<and> 16 dvd arena_lo h"

definition in_arena :: "heap \<Rightarrow> block \<Rightarrow> bool" where
  "in_arena h b \<longleftrightarrow> arena_lo h \<le> bstart b \<and> bend b \<le> arena_hi h \<and> 16 dvd bstart b \<and> 16 dvd unat (snd b)"

definition used_at :: "heap \<Rightarrow> block \<Rightarrow> bool" where
  "used_at h u \<longleftrightarrow> bh_magic (hp_mem h (fst u)) = MAGIC_USED \<and> bh_size (hp_mem h (fst u)) = snd u \<and>
     bh_canary (hp_mem h (fst u)) = CANARY_VALUE"

definition heap_inv :: "heap \<Rightarrow> block list \<Rightarrow> block list \<Rightarrow> bool" where
  "heap_inv h F U \<longleftrightarrow> hp_initialized h \<and> arena_ok h \<and> chain (hp_mem h) (hp_head h) F \<and>
     (\<forall>b \<in> set F \<union> set U. in_arena h b) \<and> sorted_wrt before F \<and> (\<forall>u \<in> set U. used_at h u) \<and>
     sorted_wrt apart U \<and> (\<forall>f \<in> set F. \<forall>u \<in> set U. apart f u)"

lemmas heap_consts = HEAP_SIZE_def HEADER_SIZE_def MIN_BLOCK_def

lemma sorted_before_distinct: "sorted_wrt before F \<Longrightarrow> distinct (map fst F)"
  by (induction F) (auto simp: before_def bstart_def bend_def)

lemma sorted_apart_distinct: "sorted_wrt apart U \<Longrightarrow> distinct (map fst U)"
  by (induction U) (auto dest: apart_neq)

lemma in_arena_cong: "hp_start h' = hp_start h \<Longrightarrow> in_arena h' b = in_arena h b"
  by (simp add: in_arena_def)

section \<open>Allocation\<close>

lemma unat_round_up_16: "unat x + 15 < 2 ^ 64 \<Longrightarrow> unat (round_up x 16) = (unat x + 15) div 16 * 16"
proof -
  assume "unat x + 15 < 2 ^ 64"
  then have "unat (x + 15) = unat x + 15" by (simp add: unat_add_no_wrap)
  moreover have "round_up x 16 = (x + 15) AND NOT (mask 4)" by (simp add: round_up_def mask_eq_exp_minus_1 add.commute)
  ultimately show ?thesis by (simp add: unat_and_not_mask)
qed

lemma round_up_16_id: "16 dvd unat x \<Longrightarrow> unat x + 15 < 2 ^ 64 \<Longrightarrow> round_up x 16 = x"
  by (rule word_unat_eq_iff [THEN iffD2]) (auto simp: unat_round_up_16 elim!: dvdE)

lemma in_arena_bounds:
  assumes "in_arena h b" "arena_ok h"
  shows "unat (fst b) + 32 + unat (snd b) + 64 < 2 ^ 64" "0 < unat (fst b)" "16 dvd unat (fst b)" "16 dvd unat (snd b)"
  using assms by (auto simp: in_arena_def arena_ok_def bstart_def bend_def)

lemma fits_iff:
  assumes "in_arena h b" "arena_ok h" "arena_hi h + unat sz + 64 < 2 ^ 64"
  shows "round_up (fst b) 16 + HEADER_SIZE + sz > fst b + HEADER_SIZE + snd b \<longleftrightarrow> \<not> sz \<le> snd b"
proof -
  note bb = in_arena_bounds [OF assms(1,2)]
  have "unat (fst b) + 32 + unat sz < 2 ^ 64" using assms by (simp add: in_arena_def bstart_def bend_def)
  then have "unat (fst b + 32 + sz) = unat (fst b) + 32 + unat sz" "unat (fst b + 32 + snd b) = unat (fst b) + 32 + unat (snd b)"
    using bb(1) by (simp_all add: unat_add_no_wrap)
  moreover have "round_up (fst b) 16 = fst b" using bb by (intro round_up_16_id) auto
  ultimately show ?thesis by (auto simp: word_less_nat_alt word_le_nat_alt heap_consts)
qed

lemma alloc_walk_spec:
  assumes "chain (hp_mem h) cur Q" "\<forall>b \<in> set Q. in_arena h b" "arena_ok h" "arena_hi h + unat sz + 64 < 2 ^ 64"
  shows "alloc_walk h sz 16 (prev_of P) cur =
    (case find_index (\<lambda>b. sz \<le> snd b) Q of
       None \<Rightarrow> Some (0, h)
     | Some i \<Rightarrow> Some (fst (Q ! i) + HEADER_SIZE, carve h sz 16 (prev_of (P @ take i Q)) (fst (Q ! i))))"
  using assms(1,2)
proof (induction Q arbitrary: P cur)
  case Nil
  then show ?case by (simp add: alloc_walk.simps)
next
  case (Cons b Q)
  then have b: "in_arena h b" "cur = fst b" "fst b \<noteq> 0" "bh_size (hp_mem h (fst b)) = snd b"
    "chain (hp_mem h) (bh_next (hp_mem h (fst b))) Q" by auto
  have r: "round_up (fst b) 16 = fst b" using in_arena_bounds [OF b(1) assms(3)] by (intro round_up_16_id) auto
  note f = fits_iff [OF b(1) assms(3,4)]
  show ?case
  proof (cases "sz \<le> snd b")
    case True
    then show ?thesis using b f r by (subst alloc_walk.simps) (simp add: Let_def)
  next
    case False
    then have "alloc_walk h sz 16 (prev_of P) cur = alloc_walk h sz 16 (fst b) (bh_next (hp_mem h (fst b)))"
      using b f by (subst alloc_walk.simps) (simp add: Let_def)
    moreover have "prev_of (P @ [b]) = fst b" by (simp add: prev_of_def)
    ultimately show ?thesis
      using Cons.IH [OF b(5), of "P @ [b]"] Cons.prems(2) False by (simp split: option.splits)
  qed
qed

text \<open>Carving: the block becomes a used block of the rounded size, and what is left, if it is worth a block, takes its place.\<close>

lemma carve_eq:
  assumes "in_arena h (a, s)" "arena_ok h" "bh_size (hp_mem h a) = s" "sz \<le> s"
  defines "e \<equiv> round_up sz 16" and "n \<equiv> bh_next (hp_mem h a)"
  shows "unat e = (unat sz + 15) div 16 * 16" "unat e \<le> unat s"
    "carve h sz 16 prev a = write_header
      (if unat s < unat e + 64 then link h prev n
       else link (write_header h (a + 32 + e) MAGIC_FREE (s - e - 32) n) prev (a + 32 + e)) a MAGIC_USED e 0"
proof -
  note bb = in_arena_bounds [OF assms(1,2), simplified]
  have le: "unat sz \<le> unat s" using assms(4) by (simp add: word_le_nat_alt)
  then show e: "unat e = (unat sz + 15) div 16 * 16" unfolding e_def using bb(1) by (intro unat_round_up_16) simp
  obtain k where "unat s = 16 * k" using bb(4) by (elim dvdE)
  then show es: "unat e \<le> unat s" using le by (simp add: e)
  have u: "round_up a 16 = a" using bb by (intro round_up_16_id) auto
  obtain j where j: "unat a = 16 * j" using bb(3) by (elim dvdE)
  have asz: "unat (a + 32 + sz) = unat a + 32 + unat sz" using bb(1) le by (simp add: unat_add_no_wrap)
  have ae: "unat (a + 32 + e) = unat a + 32 + unat e" using bb(1) es by (simp add: unat_add_no_wrap)
  have "unat (round_up (a + 32 + sz) 16) = (unat a + 32 + unat sz + 15) div 16 * 16"
    using bb(1) le asz by (subst unat_round_up_16) auto
  also have "\<dots> = unat a + 32 + (unat sz + 15) div 16 * 16" unfolding j by presburger
  also have "\<dots> = unat (a + 32 + e)" by (simp only: ae e)
  finally have l: "round_up (a + 32 + sz) 16 = a + 32 + e" by (simp add: word_unat_eq_iff)
  have "unat (a + 32 + e + 32 + 32) = unat a + 32 + unat e + 64" "unat (a + 32 + s) = unat a + 32 + unat s"
    using bb(1) es ae by (simp_all add: unat_add_no_wrap add.assoc)
  then have c: "a + 32 + e + 32 + 32 > a + 32 + s \<longleftrightarrow> unat s < unat e + 64" by (auto simp: word_less_nat_alt)
  have d: "a + 32 + s - (a + 32 + e) - 32 = s - e - 32" by simp
  show "carve h sz 16 prev a = write_header
      (if unat s < unat e + 64 then link h prev n
       else link (write_header h (a + 32 + e) MAGIC_FREE (s - e - 32) n) prev (a + 32 + e)) a MAGIC_USED e 0"
    unfolding carve_def Let_def heap_consts u l assms(3) c d e_def [symmetric] n_def [symmetric] by simp
qed

text \<open>Parts of a block are apart from whatever the block is apart from.\<close>

definition within :: "block \<Rightarrow> block \<Rightarrow> bool" where
  "within x y \<longleftrightarrow> bstart y \<le> bstart x \<and> bend x \<le> bend y"

lemma within_before: "within x y \<Longrightarrow> before y z \<Longrightarrow> before x z" "within x y \<Longrightarrow> before z y \<Longrightarrow> before z x"
  by (auto simp: within_def before_def)

lemma within_apart: "within x y \<Longrightarrow> apart y z \<Longrightarrow> apart x z"
  by (auto simp: apart_def dest: within_before)

lemma within_neq: "within x y \<Longrightarrow> apart y z \<Longrightarrow> fst x \<noteq> fst z"
  by (auto dest: within_apart apart_neq)

lemma used_at_upd: "fst u \<noteq> a \<Longrightarrow> used_at (h\<lparr>hp_mem := (hp_mem h)(a := x)\<rparr>) u = used_at h u"
  by (simp add: used_at_def)

lemma used_at_link: "fst u \<noteq> p \<Longrightarrow> used_at (link h p n) u = used_at h u"
  by (simp add: used_at_def hp_mem_link_other)

lemma used_at_write: "fst u \<noteq> a \<Longrightarrow> used_at (write_header h a g s n) u = used_at h u"
  by (simp add: used_at_def)

lemma prev_of_notin:
  assumes "a \<notin> fst ` set P" "a \<noteq> 0"
  shows "prev_of P \<noteq> a"
  using assms last_in_set [of P] by (auto simp: prev_of_def)

text \<open>The facts about one free block among the others.\<close>

lemma heap_inv_free_block:
  assumes "heap_inv h (P @ b # Q) U"
  shows "in_arena h b" "arena_ok h" "bh_size (hp_mem h (fst b)) = snd b" "fst b \<noteq> 0"
    and "chain (hp_mem h) (bh_next (hp_mem h (fst b))) Q" "chain (hp_mem h) (hp_head h) (P @ b # Q)"
    and "\<And>x. x \<in> set P \<union> set Q \<union> set U \<Longrightarrow> apart b x" "sorted_wrt before (P @ Q)" "distinct (map fst P)"
    and "fst ` set P \<inter> fst ` set Q = {}"
proof -
  have c: "chain (hp_mem h) (hp_head h) (P @ b # Q)" and so: "sorted_wrt before (P @ b # Q)"
    using assms by (auto simp: heap_inv_def)
  from chain_at [OF c] show "bh_size (hp_mem h (fst b)) = snd b" "fst b \<noteq> 0"
    "chain (hp_mem h) (bh_next (hp_mem h (fst b))) Q" by auto
  show "in_arena h b" "arena_ok h" using assms by (auto simp: heap_inv_def)
  show "chain (hp_mem h) (hp_head h) (P @ b # Q)" by (rule c)
  show "apart b x" if "x \<in> set P \<union> set Q \<union> set U" for x
    using that assms so by (auto simp: heap_inv_def sorted_wrt_append apart_def)
  show "sorted_wrt before (P @ Q)" using so by (auto simp: sorted_wrt_append)
  have "distinct (map fst (P @ b # Q))" by (rule sorted_before_distinct [OF so])
  then show "distinct (map fst P)" "fst ` set P \<inter> fst ` set Q = {}" by auto
qed

lemma heap_inv_used:
  assumes "heap_inv h F U" "u \<in> set U"
  shows "in_arena h u" "used_at h u" "fst u \<noteq> 0" "fst u \<notin> fst ` set F"
proof -
  show "in_arena h u" "used_at h u" using assms by (auto simp: heap_inv_def)
  have "arena_ok h" using assms by (simp add: heap_inv_def)
  with \<open>in_arena h u\<close> show "fst u \<noteq> 0" using in_arena_bounds(2) by fastforce
  have "apart f u" if "f \<in> set F" for f using assms that by (auto simp: heap_inv_def)
  then show "fst u \<notin> fst ` set F" using apart_neq by fastforce
qed

text \<open>
  Taking the block at \<open>a\<close> off the list, with \<open>R\<close> as the rest of the list instead, and writing its
  header as a used block of size \<open>e\<close>. The heap \<open>h1\<close> is \<open>h\<close>, perhaps with new headers inside the block.
\<close>

lemma carve_gen:
  assumes inv: "heap_inv h (P @ (a, s) # Q) U" and w: "within (a, e) (a, s)" "16 dvd unat e"
    and h1: "hp_start h1 = hp_start h" "hp_initialized h1" "chain (hp_mem h1) (hp_head h1) (P @ (a, s) # Q)"
      "\<And>u. u \<in> set U \<Longrightarrow> used_at h1 u"
    and R: "chain (hp_mem h1) n R" "\<And>r. r \<in> set R \<Longrightarrow> in_arena h r \<and> apart (a, e) r \<and> (\<forall>u \<in> set U. apart r u)"
      "sorted_wrt before (P @ R)"
  shows "heap_inv (write_header (link h1 (prev_of P) n) a MAGIC_USED e 0) (P @ R) ((a, e) # U)"
proof -
  note fb = heap_inv_free_block [OF inv, simplified]
  let ?h = "link h1 (prev_of P) n"
  have di: "distinct (map fst (P @ R))" by (rule sorted_before_distinct [OF R(3)])
  then have ch: "chain (hp_mem ?h) (hp_head ?h) (P @ R)"
    by (intro chain_link [OF h1(3) R(1)]) auto
  have ap: "apart (a, e) x" if "x \<in> set P \<union> set R \<union> set U" for x
    using within_apart [OF w(1) fb(7)] R(2) that by blast
  have a: "a \<notin> fst ` set (P @ R)" using ap apart_neq by fastforce
  have us: "used_at (write_header ?h a MAGIC_USED e 0) u" if u: "u \<in> set U" for u
  proof -
    have "prev_of P \<noteq> fst u" using heap_inv_used [OF inv u] by (intro prev_of_notin) auto
    moreover have "fst u \<noteq> a" using heap_inv_used(4) [OF inv u] by auto
    ultimately show ?thesis using h1(4) [OF u] by (simp add: used_at_write used_at_link)
  qed
  have ae: "in_arena h (a, e)" using fb(1) w by (auto simp: in_arena_def within_def bstart_def)
  have pu: "\<forall>b \<in> set P \<union> set U. in_arena h b" using inv by (auto simp: heap_inv_def)
  have ar: "in_arena h b" if "b \<in> set (P @ R) \<union> set ((a, e) # U)" for b
    using that ae bspec [OF pu, of b] R(2) [of b] by auto
  show ?thesis
    unfolding heap_inv_def
  proof (intro conjI ballI)
    show "chain (hp_mem (write_header ?h a MAGIC_USED e 0)) (hp_head (write_header ?h a MAGIC_USED e 0)) (P @ R)"
      using ch a by simp
    show "sorted_wrt apart ((a, e) # U)" using ap inv by (auto simp: heap_inv_def)
    show "used_at (write_header ?h a MAGIC_USED e 0) u" if "u \<in> set ((a, e) # U)" for u
      by (cases "u = (a, e)") (use that us in \<open>simp_all add: used_at_def [of _ "(a, e)"]\<close>)
    show "apart f u" if "f \<in> set (P @ R)" "u \<in> set ((a, e) # U)" for f u
    proof (cases "u = (a, e)")
      case True
      then show ?thesis using that(1) ap [of f] apart_sym by auto
    next
      case False
      moreover have "\<forall>f \<in> set P. \<forall>u \<in> set U. apart f u" using inv by (auto simp: heap_inv_def)
      ultimately show ?thesis using that R(2) [of f] by auto
    qed
    show "in_arena (write_header ?h a MAGIC_USED e 0) b" if "b \<in> set (P @ R) \<union> set ((a, e) # U)" for b
      using ar [OF that] h1(1) by (simp add: in_arena_def)
  qed (use fb(2) R(3) h1 in \<open>simp_all add: arena_ok_def\<close>)
qed

lemma carve_inv:
  assumes inv: "heap_inv h (P @ (a, s) # Q) U" and "sz \<le> s"
  shows "\<exists>F. heap_inv (carve h sz 16 (prev_of P) a) F ((a, round_up sz 16) # U)"
proof -
  note fb = heap_inv_free_block [OF inv, simplified]
  let ?e = "round_up sz 16" and ?n = "bh_next (hp_mem h a)"
  note ce = carve_eq [OF fb(1,2,3) assms(2)]
  have w: "within (a, ?e) (a, s)" "16 dvd unat ?e" using ce(1,2) by (auto simp: within_def bstart_def bend_def)
  show ?thesis
  proof (cases "unat s < unat ?e + 64")
    case True
    have "heap_inv (write_header (link h (prev_of P) ?n) a MAGIC_USED ?e 0) (P @ Q) ((a, ?e) # U)"
    proof (rule carve_gen [OF inv w])
      show "in_arena h r \<and> apart (a, ?e) r \<and> (\<forall>u \<in> set U. apart r u)" if "r \<in> set Q" for r
        using that inv within_apart [OF w(1) fb(7)] by (auto simp: heap_inv_def)
    qed (use inv fb in \<open>auto simp: heap_inv_def\<close>)
    then show ?thesis using ce(3) True by auto
  next
    case False
    let ?l = "a + 32 + ?e" and ?z = "s - ?e - 32"
    note bb = in_arena_bounds [OF fb(1,2), simplified]
    have l: "unat ?l = unat a + 32 + unat ?e" "unat ?z = unat s - unat ?e - 32"
      using bb(1) False ce(2) by (simp_all add: unat_add_no_wrap unat_sub_no_wrap)
    have wl: "within (?l, ?z) (a, s)" "before (a, ?e) (?l, ?z)" "in_arena h (?l, ?z)"
      using l False fb(1) bb w(2) by (auto simp: within_def before_def in_arena_def bstart_def bend_def)
    have la: "?l \<noteq> 0" "?l \<noteq> a" using l(1) by (auto simp: word_unat_eq_iff)
    let ?h1 = "write_header h ?l MAGIC_FREE ?z ?n"
    have nl: "?l \<noteq> fst x" if "x \<in> set P \<union> set Q \<union> set U" for x
      using within_neq [OF wl(1) fb(7)] that by fastforce
    have "?l \<notin> fst ` set (P @ (a, s) # Q)" "?l \<notin> fst ` set Q" using nl la by (auto simp: image_iff)
    then have c1: "chain (hp_mem ?h1) (hp_head ?h1) (P @ (a, s) # Q)" "chain (hp_mem ?h1) ?l ((?l, ?z) # Q)"
      using fb(5,6) la by auto
    have "heap_inv (write_header (link ?h1 (prev_of P) ?l) a MAGIC_USED ?e 0) (P @ (?l, ?z) # Q) ((a, ?e) # U)"
    proof (rule carve_gen [OF inv w _ _ c1(1) _ c1(2)])
      show "used_at ?h1 u" if "u \<in> set U" for u
        using that nl [of u] heap_inv_used(2) [OF inv that] by (simp add: used_at_write)
      show "in_arena h r \<and> apart (a, ?e) r \<and> (\<forall>u \<in> set U. apart r u)" if "r \<in> set ((?l, ?z) # Q)" for r
      proof (cases "r = (?l, ?z)")
        case True
        moreover have "\<forall>u \<in> set U. apart (?l, ?z) u" using within_apart [OF wl(1) fb(7)] by blast
        ultimately show ?thesis using wl(2,3) by (simp add: apart_def)
      next
        case False
        then have "r \<in> set Q" using that by simp
        moreover have "apart (a, ?e) r" using within_apart [OF w(1) fb(7)] calculation by blast
        ultimately show ?thesis using inv by (auto simp: heap_inv_def)
      qed
      show "sorted_wrt before (P @ (?l, ?z) # Q)"
        using inv within_before [OF wl(1)] by (auto simp: heap_inv_def sorted_wrt_append)
    qed (use inv in \<open>auto simp: heap_inv_def\<close>)
    then show ?thesis using ce(3) False by auto
  qed
qed

end
