(* ===== verification/HeapSafety.thy ===== *)
theory HeapSafety
  imports HeapInv
begin

text \<open>
  Releasing blocks, and the safety of the heap: in every state reached by allocating and releasing,
  what the allocator returns is aligned, inside the arena and apart from every block in use.
\<close>

section \<open>Release\<close>

text \<open>A list of free blocks that can stand beside the used blocks \<open>V\<close>.\<close>

definition free_ok :: "heap \<Rightarrow> block list \<Rightarrow> block list \<Rightarrow> bool" where
  "free_ok h V L \<longleftrightarrow> (\<forall>b \<in> set L. in_arena h b \<and> (\<forall>u \<in> set V. apart b u)) \<and> sorted_wrt before L"

text \<open>Two blocks that touch make one block.\<close>

definition join :: "block \<Rightarrow> block \<Rightarrow> block" where
  "join x y = (fst x, snd x + HEADER_SIZE + snd y)"

lemma join_ends:
  assumes "in_arena h x" "in_arena h y" "arena_ok h" "bend x = bstart y"
  shows "bstart (join x y) = bstart x" "bend (join x y) = bend y" "in_arena h (join x y)"
proof -
  have "unat (snd x + 32 + snd y) = unat (snd x) + 32 + unat (snd y)"
    using assms by (intro unat_add_no_wrap [THEN trans]) (auto simp: unat_add_no_wrap in_arena_def arena_ok_def bstart_def bend_def)
  then show "bstart (join x y) = bstart x" "bend (join x y) = bend y" "in_arena h (join x y)"
    using assms by (auto simp: join_def heap_consts in_arena_def bstart_def bend_def)
qed

lemma free_ok_join:
  assumes "free_ok h V (A @ x # y # B)" "arena_ok h" "bend x = bstart y"
  shows "free_ok h V (A @ join x y # B)"
proof -
  have xy: "in_arena h x" "in_arena h y" "\<forall>u \<in> set V. apart x u \<and> apart y u" using assms(1) by (auto simp: free_ok_def)
  note j = join_ends [OF xy(1,2) assms(2,3)]
  have "apart (join x y) u" if "u \<in> set V" for u
  proof -
    have "bstart u < bend u" by (simp add: bend_def bstart_def)
    then show ?thesis using xy(3) that assms(3) j(1,2) by (force simp: apart_def before_def)
  qed
  then show ?thesis using assms(1) j by (auto simp: free_ok_def sorted_wrt_append before_def)
qed

lemma free_ok_inv:
  assumes "free_ok h V L" "hp_initialized h'" "arena_ok h" "hp_start h' = hp_start h" "chain (hp_mem h') (hp_head h') L"
    and "\<forall>u \<in> set V. in_arena h u \<and> used_at h' u" "sorted_wrt apart V"
  shows "heap_inv h' L V"
  using assms unfolding heap_inv_def free_ok_def arena_ok_def in_arena_def by auto

text \<open>The walk stops at the first block behind the one that is released.\<close>

definition head_of :: "block list \<Rightarrow> u64" where
  "head_of Q = (case Q of [] \<Rightarrow> 0 | b # _ \<Rightarrow> fst b)"

lemma chain_head: "chain m a Q \<Longrightarrow> a = head_of Q"
  by (cases Q) (auto simp: head_of_def)

lemma dealloc_find_spec:
  assumes "chain (hp_mem h) cur Q"
  shows "dealloc_find h block (prev_of P) cur =
    Some (prev_of (P @ takeWhile (\<lambda>b. fst b \<le> block) Q), head_of (dropWhile (\<lambda>b. fst b \<le> block) Q))"
  using assms
proof (induction Q arbitrary: P cur)
  case Nil
  then show ?case by (subst dealloc_find.simps) (simp add: head_of_def)
next
  case (Cons b Q)
  then have b: "cur = fst b" "fst b \<noteq> 0" "chain (hp_mem h) (bh_next (hp_mem h (fst b))) Q" by auto
  show ?case
  proof (cases "fst b \<le> block")
    case True
    then have "\<not> block < fst b" by (simp add: linorder_not_less)
    then show ?thesis using b True Cons.IH [OF b(3), of "P @ [b]"]
      by (subst dealloc_find.simps) (simp add: prev_of_def)
  next
    case False
    then have "block < fst b" by (simp add: linorder_not_le)
    then show ?thesis using b False by (subst dealloc_find.simps) (simp add: head_of_def)
  qed
qed

text \<open>The list splits at a block that is apart from all its members.\<close>

lemma split_at:
  assumes "sorted_wrt before F" "\<forall>f \<in> set F. apart f u"
  defines "P \<equiv> takeWhile (\<lambda>b. fst b \<le> fst u) F" and "Q \<equiv> dropWhile (\<lambda>b. fst b \<le> fst u) F"
  shows "F = P @ Q" "sorted_wrt before (P @ u # Q)"
proof -
  show F: "F = P @ Q" by (simp add: P_def Q_def)
  have "before p u" if "p \<in> set P" for p
    using set_takeWhileD [OF that [unfolded P_def]] assms(2)
    by (auto simp: apart_def before_def bstart_def bend_def word_le_nat_alt)
  moreover have "before u q" if "q \<in> set Q" for q
  proof (cases Q)
    case (Cons q0 Q')
    then have "\<not> fst q0 \<le> fst u" using hd_dropWhile [of "\<lambda>b. fst b \<le> fst u" F] by (auto simp: Q_def)
    then have "before u q0" using assms(2) F Cons
      by (auto simp: apart_def before_def bstart_def bend_def word_le_nat_alt)
    moreover have "q = q0 \<or> before q0 q" using assms(1) F Cons that by (auto simp: sorted_wrt_append)
    ultimately show ?thesis using before_trans by blast
  qed (use that in simp)
  ultimately show "sorted_wrt before (P @ u # Q)" using assms(1) F by (auto simp: sorted_wrt_append)
qed

lemma insert_block_frame [simp]:
  "hp_start (insert_block h a p c) = hp_start h" "hp_initialized (insert_block h a p c) = hp_initialized h"
  by (simp_all add: insert_block_def Let_def)

lemma insert_block_other: "x \<noteq> a \<Longrightarrow> x \<noteq> p \<Longrightarrow> hp_mem (insert_block h a p c) x = hp_mem h x"
  by (simp add: insert_block_def Let_def link_def)

lemma touch_iff:
  assumes "in_arena h x" "arena_ok h"
  shows "fst x + HEADER_SIZE + snd x = fst y \<longleftrightarrow> bend x = bstart y"
proof -
  have "unat (fst x + 32 + snd x) = unat (fst x) + 32 + unat (snd x)"
    using in_arena_bounds(1) [OF assms] by (simp add: unat_add_no_wrap)
  then show ?thesis by (auto simp: word_unat_eq_iff bend_def bstart_def heap_consts)
qed

lemma prev_of_snoc: "prev_of (P @ [p]) = fst p"
  by (simp add: prev_of_def)

lemma set_block_chain:
  assumes "chain (hp_mem h) a Q" "fst u \<notin> fst ` set Q" "fst u \<noteq> 0" "bh_magic (hp_mem h (fst u)) = MAGIC_FREE"
    and "bh_canary (hp_mem h (fst u)) = CANARY_VALUE"
  shows "chain (hp_mem (set_block h (fst u) z a)) (fst u) ((fst u, z) # Q)"
  using assms by simp

lemma chain_head_of: "chain m a (P @ Q) \<Longrightarrow> chain m (head_of Q) Q"
  using chain_tail chain_head by metis

lemma disjoint_mono_right: "A \<inter> B = {} \<Longrightarrow> C \<subseteq> B \<Longrightarrow> A \<inter> C = {}"
  by blast

lemma insert_block_alt:
  "insert_block h a p c =
    (let cp = (p \<noteq> 0 \<and> p + HEADER_SIZE + bh_size (hp_mem h p) = a);
         cn = (c \<noteq> 0 \<and> a + HEADER_SIZE + bh_size (hp_mem h a) = c)
     in if cp \<and> cn then set_block h p (bh_size (hp_mem h p) + (HEADER_SIZE + bh_size (hp_mem h a) + HEADER_SIZE + bh_size (hp_mem h c))) (bh_next (hp_mem h c))
        else if cp then set_block h p (bh_size (hp_mem h p) + (HEADER_SIZE + bh_size (hp_mem h a))) (bh_next (hp_mem h p))
        else if cn then link (set_block h a (bh_size (hp_mem h a) + (HEADER_SIZE + bh_size (hp_mem h c))) (bh_next (hp_mem h c))) p a
        else link (set_block h a (bh_size (hp_mem h a)) c) p a)"
  by (simp add: insert_block_def Let_def)

lemma insert_block_eq:
  assumes c: "chain (hp_mem h) (hp_head h) (P @ Q)" and ar: "\<forall>b \<in> set (P @ u # Q). in_arena h b" "arena_ok h"
    and u: "bh_size (hp_mem h (fst u)) = snd u"
  defines "tp \<equiv> P \<noteq> [] \<and> bend (last P) = bstart u" and "tn \<equiv> Q \<noteq> [] \<and> bend u = bstart (hd Q)"
    and "n \<equiv> bh_next (hp_mem h (fst (hd Q)))"
  shows "insert_block h (fst u) (prev_of P) (head_of Q) =
    (if tp \<and> tn then set_block h (fst (last P)) (snd (join (join (last P) u) (hd Q))) n
     else if tp then set_block h (fst (last P)) (snd (join (last P) u)) (head_of Q)
     else if tn then link (set_block h (fst u) (snd (join u (hd Q))) n) (prev_of P) (fst u)
     else link (set_block h (fst u) (snd u) (head_of Q)) (prev_of P) (fst u))"
proof -
  note t = touch_iff [OF _ ar(2)]
  have p: "prev_of P = fst (last P) \<and> fst (last P) \<noteq> 0 \<and> bh_size (hp_mem h (fst (last P))) = snd (last P) \<and>
      bh_next (hp_mem h (fst (last P))) = head_of Q \<and> in_arena h (last P)" if "P \<noteq> []"
  proof -
    have e: "P @ Q = butlast P @ last P # Q" using that by (cases P rule: rev_cases) auto
    have "chain (hp_mem h) (fst (last P)) (last P # Q)" by (rule chain_at [OF c [unfolded e]])
    then show ?thesis using that ar(1) chain_head by (auto simp: prev_of_def)
  qed
  have q: "head_of Q = fst (hd Q) \<and> fst (hd Q) \<noteq> 0 \<and> bh_size (hp_mem h (fst (hd Q))) = snd (hd Q)" if "Q \<noteq> []"
    using that chain_head_of [OF c] by (cases Q) (auto simp: head_of_def)
  have tp: "prev_of P \<noteq> 0 \<and> prev_of P + HEADER_SIZE + bh_size (hp_mem h (prev_of P)) = fst u \<longleftrightarrow> tp"
    using p t [of "last P"] by (cases "P = []") (auto simp: tp_def prev_of_def)
  have tn: "head_of Q \<noteq> 0 \<and> fst u + HEADER_SIZE + snd u = head_of Q \<longleftrightarrow> tn"
    using q t [of u] ar(1) by (cases "Q = []") (auto simp: tn_def head_of_def)
  have ne: "tp \<Longrightarrow> P \<noteq> []" "tn \<Longrightarrow> Q \<noteq> []" by (auto simp: tp_def tn_def)
  show ?thesis
    unfolding insert_block_alt Let_def u tp tn n_def
    by (cases tp; cases tn) (use p [OF ne(1)] q [OF ne(2)] in \<open>simp_all add: join_def add.assoc\<close>)
qed

text \<open>
  Insertion on the four paths: the block is joined to its predecessor, its successor, both or neither.
\<close>

lemma insert_chain:
  assumes c: "chain (hp_mem h) (hp_head h) (P @ Q)" and ok: "free_ok h V (P @ u # Q)" "arena_ok h"
    and u: "fst u \<noteq> 0" "bh_magic (hp_mem h (fst u)) = MAGIC_FREE" "bh_size (hp_mem h (fst u)) = snd u"
      "bh_canary (hp_mem h (fst u)) = CANARY_VALUE"
  defines "h' \<equiv> insert_block h (fst u) (prev_of P) (head_of Q)"
  shows "\<exists>L. free_ok h V L \<and> chain (hp_mem h') (hp_head h') L"
proof -
  have so: "sorted_wrt before (P @ u # Q)" and ar: "\<forall>b \<in> set (P @ u # Q). in_arena h b"
    using ok by (auto simp: free_ok_def)
  have d: "distinct (map fst (P @ u # Q))" by (rule sorted_before_distinct [OF so])
  note t = touch_iff [OF _ ok(2)]
  have pc: "\<exists>L. free_ok h V L \<and> chain (hp_mem (set_block h (fst p) z n)) (hp_head h) L"
    if "P = P0 @ [p]" "free_ok h V (P0 @ (fst p, z) # R)" "chain (hp_mem h) n R" "set R \<subseteq> set Q" for P0 p z n R
  proof -
    have "chain ((hp_mem h)(fst p := (hp_mem h (fst p))\<lparr>bh_size := z, bh_next := n\<rparr>)) (hp_head h) (P0 @ (fst p, z) # R)"
      using c d that by (intro chain_replace [of _ _ _ _ Q]) auto
    then show ?thesis using that(2) by auto
  qed
  have lc: "\<exists>L. free_ok h V L \<and> chain (hp_mem (link (set_block h (fst u) z n) (prev_of P) (fst u)))
      (hp_head (link (set_block h (fst u) z n) (prev_of P) (fst u))) L"
    if "free_ok h V (P @ (fst u, z) # R)" "chain (hp_mem h) n R" "set R \<subseteq> set Q" for z n R
  proof -
    have im: "fst ` set R \<subseteq> fst ` set Q" using that(3) by (rule image_mono)
    have dd: "fst u \<notin> fst ` set Q" "fst u \<notin> fst ` set P" "fst ` set P \<inter> fst ` set Q = {}" "distinct (map fst P)"
      using d by simp_all
    have r1: "fst u \<notin> fst ` set R" using dd(1) im by (rule contra_subsetD [rotated])
    have "fst ` set P \<inter> fst ` set R = {}" using im by (rule disjoint_mono_right [OF dd(3)])
    then have r2: "fst ` set P \<inter> fst ` set ((fst u, z) # R) = {}" using dd(2) by simp
    have r3: "fst u \<notin> fst ` set (P @ Q)" using dd(1,2) by (simp add: image_Un)
    have "chain (hp_mem (set_block h (fst u) z n)) (hp_head (set_block h (fst u) z n)) (P @ Q)" using c r3 by simp
    then have "chain (hp_mem (link (set_block h (fst u) z n) (prev_of P) (fst u)))
      (hp_head (link (set_block h (fst u) z n) (prev_of P) (fst u))) (P @ (fst u, z) # R)"
      by (intro chain_link [OF _ set_block_chain [OF that(2) r1 u(1,2,4)] dd(4) r2])
    then show ?thesis using that(1) by blast
  qed
  have q: "chain (hp_mem h) (bh_next (hp_mem h (fst (hd Q)))) (tl Q)" if "Q \<noteq> []"
    using chain_head_of [OF c] that by (cases Q) auto
  have pj: "free_ok h V (butlast P @ join (last P) u # Q)" if "P \<noteq> []" "bend (last P) = bstart u"
    using that ok free_ok_join [of h V "butlast P" "last P" u Q] by (cases P rule: rev_cases) simp_all
  have nj: "free_ok h V (P @ join u (hd Q) # tl Q)" if "Q \<noteq> []" "bend u = bstart (hd Q)"
    using ok that free_ok_join [of h V P u "hd Q" "tl Q"] by simp
  note eq = insert_block_eq [OF c ar ok(2) u(3)]
  consider "P \<noteq> [] \<and> bend (last P) = bstart u" "Q \<noteq> [] \<and> bend u = bstart (hd Q)"
    | "P \<noteq> [] \<and> bend (last P) = bstart u" "\<not> (Q \<noteq> [] \<and> bend u = bstart (hd Q))"
    | "\<not> (P \<noteq> [] \<and> bend (last P) = bstart u)" "Q \<noteq> [] \<and> bend u = bstart (hd Q)"
    | "\<not> (P \<noteq> [] \<and> bend (last P) = bstart u)" "\<not> (Q \<noteq> [] \<and> bend u = bstart (hd Q))" by blast
  then show ?thesis
  proof cases
    case 1
    have "bend (join (last P) u) = bstart (hd Q)" using 1 ar join_ends(2) [of h "last P" u] ok(2) by auto
    then have "free_ok h V (butlast P @ (fst (last P), snd (join (join (last P) u) (hd Q))) # tl Q)"
      using free_ok_join [of h V "butlast P" "join (last P) u" "hd Q" "tl Q"] pj 1 ok(2) by (simp add: join_def)
    from pc [OF _ this q] show ?thesis using 1 by (auto simp: h'_def eq dest: list.set_sel(2))
  next
    case 2
    then have "free_ok h V (butlast P @ (fst (last P), snd (join (last P) u)) # Q)" using pj by (simp add: join_def)
    from pc [OF _ this chain_head_of [OF c]] show ?thesis using 2 by (auto simp: h'_def eq)
  next
    case 3
    then have "free_ok h V (P @ (fst u, snd (join u (hd Q))) # tl Q)" using nj by (simp add: join_def)
    from lc [OF this q] show ?thesis using 3 by (auto simp: h'_def eq dest: list.set_sel(2))
  next
    case 4
    have "free_ok h V (P @ (fst u, snd u) # Q)" using ok(1) by simp
    from lc [OF this chain_head_of [OF c]] show ?thesis using 4 by (auto simp: h'_def eq)
  qed
qed

lemma sorted_apart_remove1: "sorted_wrt apart U \<Longrightarrow> sorted_wrt apart (remove1 u U)"
  by (induction U) (auto dest: subsetD [OF set_remove1_subset])

lemma apart_remove1: "sorted_wrt apart U \<Longrightarrow> u \<in> set U \<Longrightarrow> v \<in> set (remove1 u U) \<Longrightarrow> v \<in> set U \<and> apart u v"
  by (induction U) (auto split: if_splits dest: apart_sym)

lemma insert_inv:
  assumes "chain (hp_mem h) (hp_head h) (P @ Q)" "free_ok h V (P @ u # Q)" "arena_ok h" "hp_initialized h"
    and u: "fst u \<noteq> 0" "bh_magic (hp_mem h (fst u)) = MAGIC_FREE" "bh_size (hp_mem h (fst u)) = snd u"
      "bh_canary (hp_mem h (fst u)) = CANARY_VALUE"
    and V: "\<forall>v \<in> set V. in_arena h v \<and> used_at h v" "sorted_wrt apart V"
  shows "\<exists>L. heap_inv (insert_block h (fst u) (prev_of P) (head_of Q)) L V"
proof -
  let ?h = "insert_block h (fst u) (prev_of P) (head_of Q)"
  obtain L where L: "free_ok h V L" "chain (hp_mem ?h) (hp_head ?h) L"
    using insert_chain [OF assms(1,2,3) u] by blast
  have "used_at ?h v" if v: "v \<in> set V" for v
  proof -
    have a: "\<forall>b \<in> set (P @ u # Q). apart b v" using assms(2) v by (auto simp: free_ok_def)
    then have "fst v \<noteq> fst u" using apart_neq [of u v] by auto
    moreover have "fst v \<noteq> 0" using V(1) v in_arena_bounds(2) [OF _ assms(3), of v] by auto
    moreover have "fst v \<notin> fst ` set P" using a apart_neq by fastforce
    ultimately have "hp_mem ?h (fst v) = hp_mem h (fst v)"
      by (intro insert_block_other prev_of_notin [symmetric]) auto
    then show ?thesis using V(1) v by (simp add: used_at_def)
  qed
  then have "\<forall>v \<in> set V. in_arena h v \<and> used_at ?h v" using V(1) by blast
  then have "heap_inv ?h L V" using V(2) assms(3,4) L(2) by (intro free_ok_inv [OF L(1)]) auto
  then show ?thesis by blast
qed

lemma dealloc_inv:
  assumes inv: "heap_inv h F U" and u: "u \<in> set U"
  shows "\<exists>h' L. dealloc_mut h (fst u + HEADER_SIZE) = Some h' \<and> hp_start h' = hp_start h \<and> heap_inv h' L (remove1 u U)"
proof -
  note ub = heap_inv_used [OF inv u]
  let ?V = "remove1 u U" and ?h = "h\<lparr>hp_mem := (hp_mem h)(fst u := (hp_mem h (fst u))\<lparr>bh_magic := MAGIC_FREE\<rparr>)\<rparr>"
  let ?P = "takeWhile (\<lambda>b. fst b \<le> fst u) F" and ?Q = "dropWhile (\<lambda>b. fst b \<le> fst u) F"
  have i: "hp_initialized h" "arena_ok h" "chain (hp_mem h) (hp_head h) F" "sorted_wrt before F" "sorted_wrt apart U"
    "\<forall>f \<in> set F. apart f u" using inv u by (auto simp: heap_inv_def)
  note sp = split_at [OF i(4,6)]
  have "unat (fst u + 32) = unat (fst u) + 32" using in_arena_bounds(1) [OF ub(1) i(2)] by (simp add: unat_add_no_wrap)
  then have nz: "fst u + HEADER_SIZE \<noteq> 0" by (auto simp: heap_consts word_unat_eq_iff)
  have ch: "chain (hp_mem ?h) (hp_head ?h) F" using i(3) ub(4) by simp
  have "dealloc_find ?h (fst u) 0 (hp_head ?h) = Some (prev_of ?P, head_of ?Q)"
    using dealloc_find_spec [OF ch, of "fst u" "[]"] by (simp add: prev_of_def)
  then have d: "dealloc_mut h (fst u + HEADER_SIZE) = Some (insert_block ?h (fst u) (prev_of ?P) (head_of ?Q))"
    using nz i(1) ub(2) by (simp add: dealloc_mut_def ensure_initialized_def used_at_def MAGIC_FREE_def MAGIC_USED_def Let_def)
  have v: "v \<in> set U" "apart u v" "fst v \<noteq> fst u" if "v \<in> set ?V" for v
    using apart_remove1 [OF i(5) u that] apart_neq [of u v] by auto
  have "\<exists>L. heap_inv (insert_block ?h (fst u) (prev_of ?P) (head_of ?Q)) L ?V"
  proof (rule insert_inv)
    show "chain (hp_mem ?h) (hp_head ?h) (?P @ ?Q)" using ch sp(1) by simp
    have "\<forall>b \<in> set F. in_arena h b \<and> (\<forall>v \<in> set U. apart b v)" using inv by (simp add: heap_inv_def)
    then have "\<forall>b \<in> set (?P @ u # ?Q). in_arena h b \<and> (\<forall>v \<in> set ?V. apart b v)"
      using v ub(1) by (metis Un_iff set_ConsD set_append sp(1))
    then show "free_ok ?h ?V (?P @ u # ?Q)" using sp(2) by (simp add: free_ok_def in_arena_def)
    show "\<forall>v \<in> set ?V. in_arena ?h v \<and> used_at ?h v"
      using heap_inv_used(1,2) [OF inv v(1)] v(3) by (simp add: in_arena_def used_at_def)
  qed (use i ub sorted_apart_remove1 in \<open>simp_all add: used_at_def arena_ok_def\<close>)
  then show ?thesis using d by auto
qed

section \<open>The life of the heap\<close>

lemma find_index_split: "find_index p xs = Some i \<Longrightarrow> xs = take i xs @ xs ! i # drop (Suc i) xs \<and> p (xs ! i)"
  by (meson find_index_Some_iff id_take_nth_drop)

lemma payload_nonzero: "in_arena h (a, s) \<Longrightarrow> arena_ok h \<Longrightarrow> a + HEADER_SIZE \<noteq> 0"
proof -
  assume "in_arena h (a, s)" "arena_ok h"
  then have "unat (a + 32) = unat a + 32" using in_arena_bounds(1) by (fastforce simp: unat_add_no_wrap)
  then show ?thesis by (auto simp: heap_consts word_unat_eq_iff)
qed

lemma alloc_inv:
  assumes inv: "heap_inv h F U" and al: "al \<le> 16" and sz: "arena_hi h + unat sz + 128 < 2 ^ 64"
  shows "\<exists>p h'. alloc_mut h sz al = Some (p, h') \<and> (p = 0 \<and> h' = h \<or>
    (\<exists>b L. b \<in> set F \<and> max sz 1 \<le> snd b \<and> p = fst b + HEADER_SIZE \<and> p \<noteq> 0 \<and> hp_start h' = hp_start h \<and>
       heap_inv h' L ((fst b, round_up (max sz 1) 16) # U)))"
proof -
  have i: "hp_initialized h" "arena_ok h" "chain (hp_mem h) (hp_head h) F" "\<forall>b \<in> set F. in_arena h b"
    using inv by (auto simp: heap_inv_def)
  have "max al 16 = 16" using al by (simp add: max_def)
  then have a: "alloc_mut h sz al = alloc_walk h (max sz 1) 16 (prev_of []) (hp_head h)"
    using i(1) by (simp add: alloc_mut_def ensure_initialized_def Let_def prev_of_def)
  have "unat (max sz 1) \<le> max (unat sz) 1" by (simp add: max_def)
  then have "arena_hi h + unat (max sz 1) + 64 < 2 ^ 64" using sz by simp
  note w = alloc_walk_spec [OF i(3,4,2) this, of "[]", folded a]
  show ?thesis
  proof (cases "find_index (\<lambda>b. max sz 1 \<le> snd b) F")
    case None
    then show ?thesis using w by simp
  next
    case (Some k)
    note f = find_index_split [OF Some]
    obtain a s where b: "F ! k = (a, s)" by (cases "F ! k")
    have F: "F = take k F @ (a, s) # drop (Suc k) F" using f b by simp
    then have "heap_inv h (take k F @ (a, s) # drop (Suc k) F) U" using inv by simp
    moreover have "max sz 1 \<le> s" using f b by simp
    ultimately obtain L where
      "heap_inv (carve h (max sz 1) 16 (prev_of (take k F)) a) L ((a, round_up (max sz 1) 16) # U)" using carve_inv by blast
    moreover have as: "(a, s) \<in> set F" using F by (metis in_set_conv_decomp)
    moreover have "a + HEADER_SIZE \<noteq> 0" using bspec [OF i(4) as] i(2) by (rule payload_nonzero)
    moreover have "hp_start (carve h (max sz 1) 16 (prev_of (take k F)) a) = hp_start h" by (simp add: carve_def Let_def)
    ultimately show ?thesis using w Some f b by (intro exI conjI, simp) (rule disjI2, rule exI [of _ "(a, s)"], auto)
  qed
qed

text \<open>
  The states of the heap together with the blocks in use, each as the pointer that was returned and
  the size that was asked for. Requests are aligned to at most 16 bytes and small enough that no
  address computed for them wraps.
\<close>

definition request_ok :: "heap \<Rightarrow> u64 \<Rightarrow> u64 \<Rightarrow> bool" where
  "request_ok h sz al \<longleftrightarrow> al \<le> 16 \<and> arena_hi h + unat sz + 128 < 2 ^ 64"

inductive heap_reach :: "heap \<Rightarrow> (u64 \<times> u64) list \<Rightarrow> bool" where
  heap_start: "\<not> hp_initialized h \<Longrightarrow> arena_ok h \<Longrightarrow> heap_reach (ensure_initialized h) []"
| heap_alloc: "heap_reach h live \<Longrightarrow> request_ok h sz al \<Longrightarrow> alloc_mut h sz al = Some (p, h') \<Longrightarrow> p \<noteq> 0 \<Longrightarrow>
    heap_reach h' ((p, sz) # live)"
| heap_full: "heap_reach h live \<Longrightarrow> request_ok h sz al \<Longrightarrow> alloc_mut h sz al = Some (0, h') \<Longrightarrow> heap_reach h' live"
| heap_free: "heap_reach h live \<Longrightarrow> (p, sz) \<in> set live \<Longrightarrow> dealloc_mut h p = Some h' \<Longrightarrow>
    heap_reach h' (remove1 (p, sz) live)"

definition block_of :: "u64 \<times> u64 \<Rightarrow> block" where
  "block_of x = (fst x - HEADER_SIZE, round_up (max (snd x) 1) 16)"

lemma heap_start_inv:
  assumes "\<not> hp_initialized h" "arena_ok h"
  shows "heap_inv (ensure_initialized h) [(hp_start h, HEAP_SIZE - HEADER_SIZE)] []"
  using assms by (auto simp: heap_inv_def ensure_initialized_def heap_consts arena_ok_def in_arena_def bstart_def bend_def word_unat_eq_iff)

lemma map_remove1_inj: "x \<in> set xs \<Longrightarrow> inj_on f (set xs) \<Longrightarrow> map f (remove1 x xs) = remove1 (f x) (map f xs)"
  by (induction xs) (auto simp: inj_on_def)

lemma live_inj:
  assumes "sorted_wrt apart (map block_of live)"
  shows "inj_on block_of (set live) \<and> distinct live"
proof -
  have "distinct (map block_of live)" using sorted_apart_distinct [OF assms] distinct_map by blast
  then show ?thesis by (simp add: distinct_map)
qed

lemma block_covers: "request_ok h sz al \<Longrightarrow> unat sz \<le> unat (snd (block_of (p, sz)))"
proof -
  assume "request_ok h sz al"
  then have "unat sz + 128 < 2 ^ 64" by (simp add: request_ok_def)
  then have "unat (max sz 1) + 15 < 2 ^ 64" "unat sz \<le> unat (max sz 1)" by (auto simp: max_def word_le_nat_alt)
  then show ?thesis by (simp add: block_of_def unat_round_up_16)
qed

lemma heap_reach_inv:
  "heap_reach h live \<Longrightarrow> \<exists>F. heap_inv h F (map block_of live) \<and> (\<forall>x \<in> set live. unat (snd x) \<le> unat (snd (block_of x)))"
proof (induction rule: heap_reach.induct)
  case (heap_start h)
  then show ?case using heap_start_inv by fastforce
next
  case (heap_alloc h live sz al p h')
  then obtain F where F: "heap_inv h F (map block_of live)" "\<forall>x \<in> set live. unat (snd x) \<le> unat (snd (block_of x))" by blast
  from alloc_inv [OF F(1), of al sz] heap_alloc.hyps obtain L where "heap_inv h' L (map block_of ((p, sz) # live))"
    by (auto simp: request_ok_def block_of_def [of "(p, sz)"])
  then show ?case using F(2) block_covers [OF heap_alloc.hyps(2)] by auto
next
  case (heap_full h live sz al h')
  then obtain F where F: "heap_inv h F (map block_of live)" "\<forall>x \<in> set live. unat (snd x) \<le> unat (snd (block_of x))" by blast
  from alloc_inv [OF F(1), of al sz] heap_full.hyps show ?case using F by (auto simp: request_ok_def)
next
  case (heap_free h live p sz h')
  then obtain F where F: "heap_inv h F (map block_of live)" "\<forall>x \<in> set live. unat (snd x) \<le> unat (snd (block_of x))" by blast
  have "block_of (p, sz) \<in> set (map block_of live)" using heap_free.hyps(2) by auto
  from dealloc_inv [OF F(1) this] heap_free.hyps(3) obtain L where
    L: "heap_inv h' L (remove1 (block_of (p, sz)) (map block_of live))" by (auto simp: block_of_def)
  have "inj_on block_of (set live)" using F(1) live_inj [of live] by (simp add: heap_inv_def)
  then have "map block_of (remove1 (p, sz) live) = remove1 (block_of (p, sz)) (map block_of live)"
    using heap_free.hyps(2) by (intro map_remove1_inj)
  then show ?case using L F(2) by (metis notin_set_remove1)
qed

lemma payload_at: "in_arena h (block_of x) \<Longrightarrow> arena_ok h \<Longrightarrow> unat (fst x) = bstart (block_of x) + 32"
proof -
  assume "in_arena h (block_of x)" "arena_ok h"
  then have "unat (fst x - 32) + 32 < 2 ^ 64" using in_arena_bounds(1) by (fastforce simp: block_of_def heap_consts)
  then have "unat (fst x) = unat (fst x - 32) + 32" using unat_add_no_wrap [of "fst x - 32" 32] by simp
  then show ?thesis by (simp add: block_of_def bstart_def heap_consts)
qed


text \<open>The heap at boot, and after two allocations and a release.\<close>

definition boot_heap :: heap where
  "boot_heap = \<lparr>hp_start = 0xffffffff80830f70, hp_head = 0, hp_initialized = False,
     hp_mem = (\<lambda>_. \<lparr>bh_magic = 0, bh_size = 0, bh_next = 0, bh_canary = 0\<rparr>)\<rparr>"

lemma boot_heap_ok: "\<not> hp_initialized boot_heap \<and> arena_ok boot_heap"
  by (simp add: boot_heap_def arena_ok_def)

definition used_heap :: heap where
  "used_heap = snd (the (alloc_mut (snd (the (alloc_mut (ensure_initialized boot_heap) 100 8))) 24 16))"

lemma alloc_some: "map_option fst x = Some p \<Longrightarrow> x = Some (p, snd (the x))"
  by (cases x) auto

lemma used_heap_reach: "heap_reach used_heap [(0xffffffff80831020, 24), (0xffffffff80830f90, 100)]"
proof -
  let ?h0 = "ensure_initialized boot_heap"
  let ?h1 = "snd (the (alloc_mut ?h0 100 8))"
  have 0: "heap_reach ?h0 []" using boot_heap_ok by (intro heap_start) auto
  have "map_option fst (alloc_mut ?h0 100 8) = Some 0xffffffff80830f90" by code_simp
  note 1 = alloc_some [OF this]
  have "map_option fst (alloc_mut ?h1 24 16) = Some 0xffffffff80831020" by code_simp
  note 2 = alloc_some [OF this, folded used_heap_def]
  have "hp_start ?h0 = 0xffffffff80830f70" "hp_start ?h1 = 0xffffffff80830f70" by code_simp+
  then have r: "request_ok ?h0 100 8" "request_ok ?h1 24 16" by (simp_all add: request_ok_def)
  from heap_alloc [OF heap_alloc [OF 0 r(1) 1] r(2) 2] show ?thesis by simp
qed


text \<open>The checker accepts every list the allocator makes, unless it is longer than the checker looks.\<close>

lemma check_list_null: "check_list n h prev 0 = None"
  by (subst check_list.simps) simp

lemma check_list_zero: "cur \<noteq> 0 \<Longrightarrow> check_list 0 h prev cur = Some (cur, TooLong)"
  by (subst check_list.simps) simp

lemma check_list_step:
  assumes "in_arena h b" "arena_ok h" "fst b \<noteq> 0" "bh_magic (hp_mem h (fst b)) = MAGIC_FREE" "bh_size (hp_mem h (fst b)) = snd b"
    "bh_canary (hp_mem h (fst b)) = CANARY_VALUE" "unat prev < bstart b"
  shows "check_list (Suc m) h prev (fst b) = check_list m h (fst b) (bh_next (hp_mem h (fst b)))"
proof -
  note bb = in_arena_bounds [OF assms(1,2)]
  have u: "unat (fst b + 32) = unat (fst b) + 32" "unat (fst b + 32 + snd b) = unat (fst b) + 32 + unat (snd b)"
    "unat (hp_start h + 8388608) = arena_hi h"
    using bb(1) assms(2) by (simp_all add: unat_add_no_wrap arena_ok_def)
  have c: "checked_add (fst b) HEADER_SIZE = Some (fst b + 32)" "checked_add (fst b + 32) (snd b) = Some (fst b + 32 + snd b)"
    using bb(1) u by (simp_all add: checked_add_u64 heap_consts)
  have k: "\<not> fst b < hp_start h" "\<not> fst b + 32 > hp_start h + HEAP_SIZE" "fst b + 32 + snd b \<le> hp_start h + HEAP_SIZE" "\<not> fst b \<le> prev"
    using assms(1,7) u by (auto simp: word_less_nat_alt word_le_nat_alt heap_consts in_arena_def bstart_def bend_def)
  obtain j where "unat (fst b) = 16 * j" using bb(3) by (elim dvdE)
  moreover have "fst b AND 7 = take_bit 3 (fst b)" by (simp add: take_bit_eq_mask mask_numeral)
  moreover have "unat (take_bit 3 (fst b)) = unat (fst b) mod 2 ^ 3" by (subst unsigned_take_bit_eq) (simp add: take_bit_eq_mod)
  ultimately have "unat (fst b AND 7) = 0" by simp
  then have a: "fst b AND 7 = 0" by (simp add: word_unat_eq_iff)
  show ?thesis
    by (subst check_list.simps) (simp only: Let_def nat.case option.case c k a assms simp_thms if_False if_True not_not)
qed

lemma check_list_chain:
  assumes "chain (hp_mem h) cur Q" "\<forall>b \<in> set Q. in_arena h b" "sorted_wrt before Q" "arena_ok h"
    and "\<forall>b \<in> set Q. unat prev < bstart b"
  shows "check_list n h prev cur = None \<or> (\<exists>a. check_list n h prev cur = Some (a, TooLong))"
  using assms(1-3,5)
proof (induction Q arbitrary: n prev cur)
  case Nil
  then show ?case by (simp add: check_list_null)
next
  case (Cons b Q)
  show ?case
  proof (cases n)
    case 0
    then show ?thesis using Cons.prems(1) check_list_zero [of cur h prev] by auto
  next
    case (Suc m)
    have "check_list m h (fst b) (bh_next (hp_mem h (fst b))) = None \<or>
        (\<exists>a. check_list m h (fst b) (bh_next (hp_mem h (fst b))) = Some (a, TooLong))"
      using Cons.prems by (intro Cons.IH) (auto simp: before_def bend_def bstart_def)
    then show ?thesis using Cons.prems check_list_step [of h b prev m] assms(4) Suc by auto
  qed
qed

lemma free_size_chain: "chain (hp_mem h) cur Q \<Longrightarrow> \<exists>n. free_size_from h acc cur = Some n"
proof (induction Q arbitrary: acc cur)
  case Nil
  then show ?case by (subst free_size_from.simps) simp
next
  case (Cons b Q)
  then show ?case by (subst free_size_from.simps) (auto simp: Let_def)
qed



section \<open>Beyond the alignment of 16\<close>

lemma alloc_walk_data:
  "alloc_walk h sz al prev cur = Some y \<Longrightarrow> fst y = 0 \<or> (\<exists>c. fst y = round_up c al + HEADER_SIZE)"
  by (erule alloc_walk.raw_induct [where P = "\<lambda>h sz al prev cur y. fst y = 0 \<or> (\<exists>c. fst y = round_up c al + HEADER_SIZE)", rotated])
    (auto simp: Let_def split: if_splits)

lemma unat_round_up_dvd: "k < 64 \<Longrightarrow> 2 ^ k dvd unat (round_up c (2 ^ k))"
  by (simp add: round_up_def mask_eq_exp_minus_1 [symmetric] unat_and_not_mask)

text \<open>
  C32: The header stands at the aligned address and the payload 32 bytes behind it, so no request for an
  alignment of 64 bytes or more is ever met: the pointer is 32 bytes off.
\<close>

theorem heap_large_alignment:
  assumes "6 \<le> k" "k < 64" "alloc_mut h sz (2 ^ k) = Some (p, h')" "p \<noteq> 0"
  shows "unat p mod 2 ^ k = 32"
proof -
  have k: "(2 :: nat) ^ 6 \<le> 2 ^ k" "(2 :: nat) ^ k dvd 2 ^ 64" 
    using assms(1,2) by (intro power_increasing le_imp_power_dvd; simp)+
  have "(2 :: nat) ^ k < 2 ^ 64" using assms(2) by (intro power_strict_increasing) auto
  moreover have "(2 :: u64) ^ k = word_of_nat (2 ^ k)" by simp
  ultimately have "unat ((2 :: u64) ^ k) = 2 ^ k" using assms(2) by (simp only: unsigned_of_nat) (simp add: take_bit_nat_eq_self)
  then have "max (2 ^ k) 16 = (2 ^ k :: u64)" using k(1) by (auto simp: max_def word_le_nat_alt)
  then obtain c where c: "p = round_up c (2 ^ k) + 32"
    using alloc_walk_data assms(3,4) by (fastforce simp: alloc_mut_def Let_def heap_consts)
  have "unat p mod 2 ^ k = (unat (round_up c (2 ^ k)) + 32) mod 2 ^ 64 mod 2 ^ k" by (simp add: c unat_word_ariths)
  also have "\<dots> = (unat (round_up c (2 ^ k)) + 32) mod 2 ^ k" using k(2) by (rule mod_mod_cancel)
  also have "\<dots> = 32" using unat_round_up_dvd [OF assms(2), of c] k(1) by (auto elim!: dvdE)
  finally show ?thesis .
qed

theorem heap_large_alignment_witness:
  "\<exists>p. map_option fst (alloc_mut boot_heap 8 64) = Some p \<and> unat p mod 64 = 32"
proof -
  have "map_option fst (alloc_mut boot_heap 8 (2 ^ 6)) = Some 0xffffffff80830fa0" by code_simp
  note a = alloc_some [OF this]
  from heap_large_alignment [OF _ _ a] have "unat (0xffffffff80830fa0 :: u64) mod 64 = 32" by simp
  then show ?thesis using a by auto
qed


text \<open>What is left behind a block and is too small for a block of its own does not come back.\<close>

lemma heap_tail_lost:
  "free_size (the (dealloc_mut (snd (the (alloc_mut boot_heap 8388544 8))) 0xffffffff80830f90)) = Some 8388544"
  by code_simp

end
