(* ===== verification/BlockCache.thy ===== *)
theory BlockCache
  imports Prelude
begin

text \<open>
  The block cache, \<^verbatim>\<open>crates/zenus-fs/src/block_cache.rs\<close>, in front of the block devices of
  \<^verbatim>\<open>devfs.rs\<close>, and the counters of \<^verbatim>\<open>io_scheduler.rs\<close>.

  A device is what the drivers make of it: which sectors it can read and write, what it held at the
  start, and the writes it has done since, in order. \<open>block_device_read\<close> and \<open>block_device_write\<close> fail
  on a sector the device does not take. The slots of a block are those its hash selects; \<open>& 511\<close> on an
  index is \<open>mod 512\<close>.
\<close>

datatype sector = Sector (sec_dev: u8) (sec_block: u64)

definition CACHE_SIZE :: nat where
  "CACHE_SIZE = 512"

definition SECTOR_SIZE :: nat where
  "SECTOR_SIZE = 512"

definition WAYS :: nat where
  "WAYS = 4"

record disk =
  dk_readable :: "sector \<Rightarrow> bool"
  dk_writable :: "sector \<Rightarrow> bool"
  dk_init :: "sector \<Rightarrow> bytes"
  dk_log :: "(sector \<times> bytes) list"

definition dk_content :: "disk \<Rightarrow> sector \<Rightarrow> bytes" where
  "dk_content dk = fold (\<lambda>(k, v) f. f(k := v)) (dk_log dk) (dk_init dk)"

definition block_device_read :: "disk \<Rightarrow> sector \<Rightarrow> bytes option" where
  "block_device_read dk k = (if dk_readable dk k then Some (dk_content dk k) else None)"

definition block_device_write :: "disk \<Rightarrow> sector \<Rightarrow> bytes \<Rightarrow> bool \<times> disk" where
  "block_device_write dk k v = (if dk_writable dk k then (True, dk\<lparr>dk_log := dk_log dk @ [(k, v)]\<rparr>) else (False, dk))"

definition cache_hash :: "sector \<Rightarrow> nat" where
  "cache_hash k =
     (let h = (ucast (sec_dev k) :: u64) * 0x9E3779B97F4A7C15 + sec_block k
      in unat ((h XOR drop_bit 16 h XOR drop_bit 32 h XOR drop_bit 48 h) AND 511))"

record cache_entry =
  ce_sector :: sector
  ce_dirty :: bool
  ce_valid :: bool
  ce_data :: bytes

record bstate =
  bs_entries :: "cache_entry list"
  bs_hits :: u64
  bs_misses :: u64
  bs_disk :: disk

definition new_cache :: "disk \<Rightarrow> bstate" where
  "new_cache dk = \<lparr>bs_entries = replicate CACHE_SIZE \<lparr>ce_sector = Sector 0 0, ce_dirty = False, ce_valid = False,
     ce_data = replicate SECTOR_SIZE 0\<rparr>, bs_hits = 0, bs_misses = 0, bs_disk = dk\<rparr>"

definition window :: "sector \<Rightarrow> nat list" where
  "window k = map (\<lambda>i. (cache_hash k + i) mod CACHE_SIZE) [0..<WAYS]"

definition find_entry :: "bstate \<Rightarrow> sector \<Rightarrow> nat option" where
  "find_entry st k = List.find (\<lambda>i. let e = bs_entries st ! i in ce_valid e \<and> ce_sector e = k) (window k)"

definition evict_one :: "bstate \<Rightarrow> sector \<Rightarrow> nat" where
  "evict_one st k =
     (case List.find (\<lambda>i. \<not> ce_valid (bs_entries st ! i)) (window k) of
        Some i \<Rightarrow> i
      | None \<Rightarrow> (case List.find (\<lambda>i. \<not> ce_dirty (bs_entries st ! i)) (window k) of
          Some i \<Rightarrow> i
        | None \<Rightarrow> (case List.find (\<lambda>i. \<not> ce_valid (bs_entries st ! i) \<or> \<not> ce_dirty (bs_entries st ! i)) [0..<CACHE_SIZE] of
            Some i \<Rightarrow> i
          | None \<Rightarrow> cache_hash k)))"

definition put_entry :: "bstate \<Rightarrow> nat \<Rightarrow> cache_entry \<Rightarrow> bstate" where
  "put_entry st i e = st\<lparr>bs_entries := (bs_entries st)[i := e]\<rparr>"

definition flush_entry :: "bstate \<Rightarrow> nat \<Rightarrow> bool \<times> bstate" where
  "flush_entry st i =
     (let e = bs_entries st ! i
      in if ce_dirty e then
           (case block_device_write (bs_disk st) (ce_sector e) (ce_data e) of
              (False, _) \<Rightarrow> (False, st)
            | (True, dk) \<Rightarrow> (True, put_entry (st\<lparr>bs_disk := dk\<rparr>) i (e\<lparr>ce_dirty := False\<rparr>)))
         else (True, st))"

text \<open>A miss: choose a slot, clear it, and fill it from the device.\<close>

definition load_block :: "bstate \<Rightarrow> sector \<Rightarrow> nat option \<times> bstate" where
  "load_block st k =
     (let i = evict_one st k
      in case flush_entry st i of
           (False, st1) \<Rightarrow> (None, st1)
         | (True, st1) \<Rightarrow>
             (case block_device_read (bs_disk st1) k of
                None \<Rightarrow> (None, st1)
              | Some v \<Rightarrow> (Some i, put_entry st1 i \<lparr>ce_sector = k, ce_dirty = False, ce_valid = True, ce_data = v\<rparr>)))"

definition read_block :: "bstate \<Rightarrow> sector \<Rightarrow> nat \<Rightarrow> bytes option \<times> bstate" where
  "read_block st k n =
     (case find_entry st k of
        Some i \<Rightarrow> (Some (take (min n SECTOR_SIZE) (ce_data (bs_entries st ! i))), st\<lparr>bs_hits := bs_hits st + 1\<rparr>)
      | None \<Rightarrow>
          (case load_block (st\<lparr>bs_misses := bs_misses st + 1\<rparr>) k of
             (None, st1) \<Rightarrow> (None, st1)
           | (Some i, st1) \<Rightarrow> (Some (take (min n SECTOR_SIZE) (ce_data (bs_entries st1 ! i))), st1)))"

definition patch :: "bytes \<Rightarrow> bytes \<Rightarrow> bytes" where
  "patch old buf = (let n = min (length buf) SECTOR_SIZE in take n buf @ drop n old)"

definition slot_of :: "bstate \<Rightarrow> sector \<Rightarrow> nat option \<times> bstate" where
  "slot_of st k = (case find_entry st k of Some i \<Rightarrow> (Some i, st) | None \<Rightarrow> load_block st k)"

definition write_block :: "bstate \<Rightarrow> sector \<Rightarrow> bytes \<Rightarrow> bool \<times> bstate" where
  "write_block st k buf =
     (case slot_of st k of
        (None, st1) \<Rightarrow> (False, st1)
      | (Some i, st1) \<Rightarrow>
          (let e = bs_entries st1 ! i
           in (True, put_entry st1 i (e\<lparr>ce_data := patch (ce_data e) buf, ce_dirty := True\<rparr>))))"

definition flush_step :: "nat \<Rightarrow> bool \<times> bstate \<Rightarrow> bool \<times> bstate" where
  "flush_step i r =
     (let e = bs_entries (snd r) ! i
      in if ce_valid e \<and> ce_dirty e then
           (case flush_entry (snd r) i of (ok, st) \<Rightarrow> (fst r \<and> ok, st))
         else r)"

definition flush_all :: "bstate \<Rightarrow> bool \<times> bstate" where
  "flush_all st = fold flush_step [0..<CACHE_SIZE] (True, st)"

definition drop_entry :: "cache_entry \<Rightarrow> cache_entry" where
  "drop_entry e = e\<lparr>ce_valid := False, ce_dirty := False\<rparr>"

definition bc_invalidate :: "bstate \<Rightarrow> sector \<Rightarrow> bool \<times> bstate" where
  "bc_invalidate st k =
     (case find_entry st k of
        Some i \<Rightarrow> (True, put_entry st i (drop_entry (bs_entries st ! i)))
      | None \<Rightarrow> (False, st))"

definition bc_invalidate_all :: "bstate \<Rightarrow> bool \<times> bstate" where
  "bc_invalidate_all st =
     (case flush_all st of (ok, st1) \<Rightarrow> (ok, st1\<lparr>bs_entries := map drop_entry (bs_entries st1)\<rparr>))"

section \<open>The counters in front of the cache\<close>

record io_scheduler =
  io_total :: u64
  io_reads :: u64
  io_writes :: u64

definition io_submit_read :: "io_scheduler \<Rightarrow> bstate \<Rightarrow> sector \<Rightarrow> nat \<Rightarrow> bytes option \<times> io_scheduler \<times> bstate" where
  "io_submit_read io st k n =
     (case read_block st k n of
        (None, st1) \<Rightarrow> (None, io, st1)
      | (Some v, st1) \<Rightarrow> (Some v, io\<lparr>io_total := io_total io + 1, io_reads := io_reads io + 1\<rparr>, st1))"

definition io_submit_write :: "io_scheduler \<Rightarrow> bstate \<Rightarrow> sector \<Rightarrow> bytes \<Rightarrow> bool \<times> io_scheduler \<times> bstate" where
  "io_submit_write io st k buf =
     (case write_block st k buf of
        (False, st1) \<Rightarrow> (False, io, st1)
      | (True, st1) \<Rightarrow> (True, io\<lparr>io_total := io_total io + 1, io_writes := io_writes io + 1\<rparr>, st1))"

section \<open>What the cache stands for\<close>

text \<open>
  The view of the store through the cache: the entry of a sector if there is one, else the device. The invariant
  keeps every entry in the window of its sector, at most one per sector, and clean entries equal to the
  device.
\<close>

definition holds :: "bstate \<Rightarrow> nat \<Rightarrow> sector \<Rightarrow> bool" where
  "holds st i k \<longleftrightarrow> i < CACHE_SIZE \<and> ce_valid (bs_entries st ! i) \<and> ce_sector (bs_entries st ! i) = k"

definition view :: "bstate \<Rightarrow> sector \<Rightarrow> bytes" where
  "view st k = (case find_entry st k of Some i \<Rightarrow> ce_data (bs_entries st ! i) | None \<Rightarrow> dk_content (bs_disk st) k)"

definition bc_inv :: "bstate \<Rightarrow> bool" where
  "bc_inv st \<longleftrightarrow> length (bs_entries st) = CACHE_SIZE \<and>
     (\<forall>i < CACHE_SIZE. let e = bs_entries st ! i in
        (ce_valid e \<longrightarrow> i \<in> set (window (ce_sector e)) \<and> (\<not> ce_dirty e \<longrightarrow> ce_data e = dk_content (bs_disk st) (ce_sector e))) \<and>
        (ce_dirty e \<longrightarrow> ce_valid e) \<and>
        (\<forall>j < CACHE_SIZE. ce_valid e \<longrightarrow> holds st j (ce_sector e) \<longrightarrow> i = j))"

lemma window_bound: "i \<in> set (window k) \<Longrightarrow> i < CACHE_SIZE"
  by (auto simp: window_def CACHE_SIZE_def)

lemma find_Some: "List.find P xs = Some x \<Longrightarrow> P x \<and> x \<in> set xs"
  by (auto simp: find_Some_iff)

lemma bc_invD:
  assumes "bc_inv st" "i < CACHE_SIZE" "ce_valid (bs_entries st ! i)"
  shows "i \<in> set (window (ce_sector (bs_entries st ! i)))"
    and "\<not> ce_dirty (bs_entries st ! i) \<Longrightarrow> ce_data (bs_entries st ! i) = dk_content (bs_disk st) (ce_sector (bs_entries st ! i))"
    and "holds st j (ce_sector (bs_entries st ! i)) \<Longrightarrow> i = j"
proof -
  have e: "i \<in> set (window (ce_sector (bs_entries st ! i))) \<and>
      (\<not> ce_dirty (bs_entries st ! i) \<longrightarrow> ce_data (bs_entries st ! i) = dk_content (bs_disk st) (ce_sector (bs_entries st ! i))) \<and>
      (\<forall>j < CACHE_SIZE. holds st j (ce_sector (bs_entries st ! i)) \<longrightarrow> i = j)"
    using assms unfolding bc_inv_def Let_def by blast
  then show "i \<in> set (window (ce_sector (bs_entries st ! i)))"
    and "\<not> ce_dirty (bs_entries st ! i) \<Longrightarrow> ce_data (bs_entries st ! i) = dk_content (bs_disk st) (ce_sector (bs_entries st ! i))"
    by blast+
  show "i = j" if "holds st j (ce_sector (bs_entries st ! i))" using e that by (simp add: holds_def)
qed

lemma bc_inv_entry:
  assumes "bc_inv st" "holds st i k"
  shows "i < CACHE_SIZE" "i \<in> set (window k)" "\<not> ce_dirty (bs_entries st ! i) \<Longrightarrow> ce_data (bs_entries st ! i) = dk_content (bs_disk st) k"
    "holds st j k \<Longrightarrow> i = j"
proof -
  have h: "i < CACHE_SIZE" "ce_valid (bs_entries st ! i)" "ce_sector (bs_entries st ! i) = k" using assms(2) by (simp_all add: holds_def)
  show "i < CACHE_SIZE" by (rule h(1))
  note d = bc_invD [OF assms(1) h(1,2), unfolded h(3)]
  show "i \<in> set (window k)" "\<not> ce_dirty (bs_entries st ! i) \<Longrightarrow> ce_data (bs_entries st ! i) = dk_content (bs_disk st) k"
    "holds st j k \<Longrightarrow> i = j" by (fact d)+
qed

lemma find_entry_Some: "find_entry st k = Some i \<Longrightarrow> holds st i k \<and> i \<in> set (window k)"
  unfolding find_entry_def Let_def by (drule find_Some) (use window_bound [of i k] in \<open>simp add: holds_def\<close>)

lemma find_entry_None: "bc_inv st \<Longrightarrow> find_entry st k = None \<Longrightarrow> \<not> holds st i k"
  using bc_inv_entry(2) [of st i k] by (auto simp: find_entry_def find_None_iff holds_def Let_def)

lemma view_holds:
  assumes "bc_inv st" "holds st i k"
  shows "view st k = ce_data (bs_entries st ! i)"
proof (cases "find_entry st k")
  case None
  then show ?thesis using find_entry_None [OF assms(1)] assms(2) by blast
next
  case (Some j)
  then have "i = j" using find_entry_Some bc_inv_entry(4) [OF assms] by blast
  then show ?thesis using Some by (simp add: view_def)
qed

lemma view_miss: "(\<And>i. \<not> holds st i k) \<Longrightarrow> view st k = dk_content (bs_disk st) k"
  using find_entry_Some [of st k] by (cases "find_entry st k") (auto simp: view_def)

lemma view_clean: "bc_inv st \<Longrightarrow> holds st i k \<Longrightarrow> \<not> ce_dirty (bs_entries st ! i) \<Longrightarrow> view st k = dk_content (bs_disk st) k"
  using bc_inv_entry(3) [of st i k] by (simp add: view_holds)

section \<open>Changing one entry\<close>

lemma put_entry_sel [simp]:
  "bs_entries (put_entry st i e) = (bs_entries st)[i := e]" "bs_disk (put_entry st i e) = bs_disk st"
  by (simp_all add: put_entry_def)

lemma holds_put: "i < length (bs_entries st) \<Longrightarrow>
  holds (put_entry st i e) j k \<longleftrightarrow> (if j = i then i < CACHE_SIZE \<and> ce_valid e \<and> ce_sector e = k else holds st j k)"
  by (auto simp: holds_def nth_list_update)

lemma put_entry_inv:
  assumes inv: "bc_inv st" and i: "i \<in> set (window (ce_sector e))" and "ce_valid e"
    and u: "\<And>j. holds st j (ce_sector e) \<Longrightarrow> j = i"
    and c: "\<not> ce_dirty e \<Longrightarrow> ce_data e = dk_content (bs_disk st) (ce_sector e)"
  shows "bc_inv (put_entry st i e)"
proof -
  have l: "length (bs_entries st) = CACHE_SIZE" "i < CACHE_SIZE" using inv i window_bound by (auto simp: bc_inv_def)
  have "let f = bs_entries (put_entry st i e) ! m in
      (ce_valid f \<longrightarrow> m \<in> set (window (ce_sector f)) \<and> (\<not> ce_dirty f \<longrightarrow> ce_data f = dk_content (bs_disk st) (ce_sector f))) \<and>
      (ce_dirty f \<longrightarrow> ce_valid f) \<and> (\<forall>j < CACHE_SIZE. ce_valid f \<longrightarrow> holds (put_entry st i e) j (ce_sector f) \<longrightarrow> m = j)"
    if m: "m < CACHE_SIZE" for m
  proof (cases "m = i")
    case True
    have "holds (put_entry st i e) j (ce_sector e) \<Longrightarrow> i = j" for j using u [of j] l by (simp add: holds_put split: if_splits)
    then show ?thesis using True l assms(2,3) c by (simp add: Let_def)
  next
    case False
    have "\<not> (ce_valid (bs_entries st ! m) \<and> ce_sector (bs_entries st ! m) = ce_sector e)" using u [of m] False m by (auto simp: holds_def)
    then show ?thesis using False l inv m by (auto simp: Let_def holds_put bc_inv_def)
  qed
  then show ?thesis using l by (simp add: bc_inv_def)
qed

lemma put_entry_view:
  assumes inv: "bc_inv st" and i: "i \<in> set (window (ce_sector e))" and v: "ce_valid e"
    and u: "\<And>j. holds st j (ce_sector e) \<Longrightarrow> j = i"
    and c: "\<not> ce_dirty e \<Longrightarrow> ce_data e = dk_content (bs_disk st) (ce_sector e)"
    and o: "\<not> ce_dirty (bs_entries st ! i) \<or> holds st i (ce_sector e)"
  shows "view (put_entry st i e) = (view st)(ce_sector e := ce_data e)"
proof
  fix k
  let ?s = "put_entry st i e"
  have l: "length (bs_entries st) = CACHE_SIZE" "i < CACHE_SIZE" using inv i window_bound by (auto simp: bc_inv_def)
  note inv' = put_entry_inv [OF assms(1-5)]
  show "view ?s k = ((view st)(ce_sector e := ce_data e)) k"
  proof (cases "k = ce_sector e")
    case True
    then have "holds ?s i k" using l v by (simp add: holds_put)
    from view_holds [OF inv' this] True l show ?thesis by simp
  next
    case False
    show ?thesis
    proof (cases "\<exists>j. j \<noteq> i \<and> holds st j k")
      case True
      then obtain j where j: "j \<noteq> i" "holds st j k" by blast
      then have "holds ?s j k" using l by (simp add: holds_put)
      from view_holds [OF inv' this] view_holds [OF inv j(2)] j False show ?thesis by simp
    next
      case none: False
      have "\<not> holds ?s j k" for j using none False l by (auto simp: holds_put)
      then have "view ?s k = dk_content (bs_disk st) k" using view_miss [of ?s k] by simp
      moreover have "view st k = dk_content (bs_disk st) k"
      proof (cases "holds st i k")
        case True
        then show ?thesis using o False inv by (intro view_clean) (auto simp: holds_def)
      next
        case miss: False
        have "\<not> holds st j k" for j using none miss by metis
        then show ?thesis by (rule view_miss)
      qed
      ultimately show ?thesis using False by simp
    qed
  qed
qed

section \<open>Reading and writing while the window has room\<close>

definition dirty_count :: "bstate \<Rightarrow> nat" where
  "dirty_count st = length (filter ce_dirty (bs_entries st))"

definition all_usable :: "disk \<Rightarrow> bool" where
  "all_usable dk \<longleftrightarrow> (\<forall>k. dk_readable dk k \<and> dk_writable dk k)"

lemma all_usableD: "all_usable dk \<Longrightarrow> dk_readable dk k" "all_usable dk \<Longrightarrow> dk_writable dk k"
  unfolding all_usable_def by blast+

lemma cache_hash_bound: "cache_hash k < CACHE_SIZE"
proof -
  have "unat (x AND 511 :: u64) \<le> unat (511 :: u64)" for x by (intro word_le_nat_alt [THEN iffD1] word_and_le1)
  then show ?thesis by (simp add: cache_hash_def CACHE_SIZE_def Let_def less_Suc_eq_le [symmetric])
qed

lemma distinct_window: "distinct (window k)"
proof -
  have le: "i = j" if "(h + i) mod 512 = (h + j) mod 512" "i < 4" "j \<le> i" for h i j :: nat
  proof -
    have "512 dvd (h + i) - (h + j)" using that by (subst mod_eq_dvd_iff_nat [symmetric]) auto
    then have "i - j = 0" using that(2) by (auto dest: dvd_imp_le)
    then show ?thesis using that(3) by simp
  qed
  have "i = j" if "(h + i) mod 512 = (h + j) mod 512" "i < 4" "j < 4" for h i j :: nat
    using that le [of h i j] le [of h j i] by (cases "j \<le> i") auto
  then have "inj_on (\<lambda>i. (cache_hash k + i) mod CACHE_SIZE) (set [0..<WAYS])"
    unfolding CACHE_SIZE_def WAYS_def by (intro inj_onI) (simp only: set_upt atLeastLessThan_iff)
  then show ?thesis unfolding window_def distinct_map by simp
qed

lemma dirty_count_index: "dirty_count st = card {i. i < length (bs_entries st) \<and> ce_dirty (bs_entries st ! i)}"
  by (simp add: dirty_count_def length_filter_conv_card)

lemma window_room:
  assumes "length (bs_entries st) = CACHE_SIZE" "dirty_count st < WAYS"
  shows "\<exists>i \<in> set (window k). \<not> ce_dirty (bs_entries st ! i)"
proof (rule ccontr)
  assume "\<not> ?thesis"
  then have "set (window k) \<subseteq> {i. i < length (bs_entries st) \<and> ce_dirty (bs_entries st ! i)}"
    using window_bound [of _ k] assms(1) by auto
  then have "card (set (window k)) \<le> dirty_count st" unfolding dirty_count_index by (intro card_mono) auto
  then show False using assms(2) distinct_card [OF distinct_window [of k]] by (simp add: window_def)
qed

lemma evict_room:
  assumes "bc_inv st" "\<exists>i \<in> set (window k). \<not> ce_dirty (bs_entries st ! i)"
  shows "evict_one st k \<in> set (window k) \<and> \<not> ce_dirty (bs_entries st ! evict_one st k)"
proof (cases "List.find (\<lambda>i. \<not> ce_valid (bs_entries st ! i)) (window k)")
  case None
  obtain i where i: "List.find (\<lambda>i. \<not> ce_dirty (bs_entries st ! i)) (window k) = Some i"
    by (cases "List.find (\<lambda>i. \<not> ce_dirty (bs_entries st ! i)) (window k)") (use assms(2) in \<open>auto simp: find_None_iff\<close>)
  then show ?thesis using None find_Some [OF i] by (simp add: evict_one_def)
next
  case (Some i)
  from find_Some [OF Some] have i: "\<not> ce_valid (bs_entries st ! i)" "i \<in> set (window k)" by auto
  then have "\<not> ce_dirty (bs_entries st ! i)" using assms(1) window_bound [OF i(2)] by (auto simp: bc_inv_def Let_def)
  then show ?thesis using Some i by (simp add: evict_one_def)
qed

lemma dirty_count_put:
  assumes "i < length (bs_entries st)"
  shows "\<not> ce_dirty e \<Longrightarrow> dirty_count (put_entry st i e) \<le> dirty_count st" "dirty_count (put_entry st i e) \<le> Suc (dirty_count st)"
proof -
  let ?D = "\<lambda>st. {i. i < length (bs_entries st) \<and> ce_dirty (bs_entries st ! i)}"
  have "?D (put_entry st i e) \<subseteq> (if ce_dirty e then insert i (?D st) else ?D st)"
    using assms by (auto simp: nth_list_update split: if_splits)
  then have c: "card (?D (put_entry st i e)) \<le> card (if ce_dirty e then insert i (?D st) else ?D st)" by (intro card_mono) auto
  then show "\<not> ce_dirty e \<Longrightarrow> dirty_count (put_entry st i e) \<le> dirty_count st" by (simp add: dirty_count_index)
  show "dirty_count (put_entry st i e) \<le> Suc (dirty_count st)"
    using c by (auto simp: dirty_count_index card_insert_if split: if_splits)
qed

lemma load_block_ok:
  assumes inv: "bc_inv st" and n: "find_entry st k = None" and r: "dirty_count st < WAYS" and d: "dk_readable (bs_disk st) k"
  shows "\<exists>i st1. load_block st k = (Some i, st1) \<and> holds st1 i k \<and> bc_inv st1 \<and> view st1 = view st \<and>
    bs_disk st1 = bs_disk st \<and> dirty_count st1 \<le> dirty_count st"
proof -
  let ?i = "evict_one st k" and ?e = "\<lparr>ce_sector = k, ce_dirty = False, ce_valid = True, ce_data = dk_content (bs_disk st) k\<rparr>"
  have l: "length (bs_entries st) = CACHE_SIZE" using inv by (simp add: bc_inv_def)
  have i: "?i \<in> set (window k)" "\<not> ce_dirty (bs_entries st ! ?i)" using evict_room [OF inv window_room [OF l r]] by auto
  have eq: "load_block st k = (Some ?i, put_entry st ?i ?e)"
    using i(2) d by (simp add: load_block_def flush_entry_def block_device_read_def Let_def)
  have u: "holds st j k \<Longrightarrow> j = ?i" for j using find_entry_None [OF inv n] by blast
  have "view st k = dk_content (bs_disk st) k" using find_entry_None [OF inv n] by (intro view_miss)
  moreover have "view (put_entry st ?i ?e) = (view st)(k := dk_content (bs_disk st) k)"
    using put_entry_view [OF inv, of ?i ?e] i u by simp
  ultimately have "view (put_entry st ?i ?e) = view st" by (simp add: fun_upd_idem)
  moreover have "bc_inv (put_entry st ?i ?e)" using put_entry_inv [OF inv, of ?i ?e] i u by simp
  moreover have "holds (put_entry st ?i ?e) ?i k" using l window_bound [OF i(1)] by (simp add: holds_put)
  moreover have "dirty_count (put_entry st ?i ?e) \<le> dirty_count st" using dirty_count_put(1) l window_bound [OF i(1)] by simp
  ultimately show ?thesis using eq by (intro exI conjI) (assumption | simp)+
qed

lemma write_eq:
  "write_block st k buf = (case slot_of st k of
     (None, st1) \<Rightarrow> (False, st1)
   | (Some i, st1) \<Rightarrow> (True, put_entry st1 i ((bs_entries st1 ! i)\<lparr>ce_data := patch (ce_data (bs_entries st1 ! i)) buf, ce_dirty := True\<rparr>)))"
  unfolding write_block_def Let_def ..

text \<open>The slot of a sector after a hit or a miss.\<close>

lemma slot_ok:
  assumes inv: "bc_inv st" and r: "dirty_count st < WAYS" and d: "all_usable (bs_disk st)"
  shows "\<exists>i st1. slot_of st k = (Some i, st1) \<and> holds st1 i k \<and> bc_inv st1 \<and> view st1 = view st \<and> bs_disk st1 = bs_disk st \<and>
    dirty_count st1 \<le> dirty_count st"
proof (cases "find_entry st k")
  case None
  then show ?thesis using load_block_ok [OF inv None r all_usableD(1) [OF d]] by (simp add: slot_of_def)
next
  case (Some i)
  then show ?thesis using find_entry_Some [OF Some] inv by (simp add: slot_of_def)
qed

lemma write_block_ok:
  assumes inv: "bc_inv st" and r: "dirty_count st < WAYS" and d: "all_usable (bs_disk st)"
  shows "fst (write_block st k buf)" "bc_inv (snd (write_block st k buf))"
    "view (snd (write_block st k buf)) = (view st)(k := patch (view st k) buf)"
    "bs_disk (snd (write_block st k buf)) = bs_disk st" "dirty_count (snd (write_block st k buf)) \<le> Suc (dirty_count st)"
proof -
  obtain i st1 where s: "slot_of st k = (Some i, st1)"
    and st1: "holds st1 i k" "bc_inv st1" "view st1 = view st" "bs_disk st1 = bs_disk st" "dirty_count st1 \<le> dirty_count st"
    using slot_ok [OF assms, of k] by blast
  let ?e = "(bs_entries st1 ! i)\<lparr>ce_data := patch (ce_data (bs_entries st1 ! i)) buf, ce_dirty := True\<rparr>"
  have eq: "write_block st k buf = (True, put_entry st1 i ?e)" using s by (simp add: write_eq)
  have h: "ce_valid (bs_entries st1 ! i)" "ce_sector (bs_entries st1 ! i) = k" "i < CACHE_SIZE" using st1(1) by (auto simp: holds_def)
  have l: "length (bs_entries st1) = CACHE_SIZE" using st1(2) by (simp add: bc_inv_def)
  have u: "holds st1 j k \<Longrightarrow> j = i" for j using bc_inv_entry(4) [OF st1(2,1)] by blast
  have w: "i \<in> set (window k)" using bc_inv_entry(2) [OF st1(2,1)] .
  show "fst (write_block st k buf)" "bs_disk (snd (write_block st k buf)) = bs_disk st" using eq st1(4) by simp_all
  have e: "ce_valid ?e" "ce_sector ?e = k" "ce_dirty ?e" "ce_data ?e = patch (view st k) buf"
    using h view_holds [OF st1(2,1)] st1(3) by simp_all
  have p: "i \<in> set (window (ce_sector ?e))" "\<And>j. holds st1 j (ce_sector ?e) \<Longrightarrow> j = i"
    "\<not> ce_dirty ?e \<Longrightarrow> ce_data ?e = dk_content (bs_disk st1) (ce_sector ?e)" "\<not> ce_dirty (bs_entries st1 ! i) \<or> holds st1 i (ce_sector ?e)"
    unfolding e(2) using w u e(3) st1(1) by blast+
  then show "bc_inv (snd (write_block st k buf))" using put_entry_inv [OF st1(2) p(1) e(1) p(2,3)] eq by simp
  have "view (put_entry st1 i ?e) = (view st1)(ce_sector ?e := ce_data ?e)" by (rule put_entry_view [OF st1(2) p(1) e(1) p(2,3,4)])
  then show "view (snd (write_block st k buf)) = (view st)(k := patch (view st k) buf)" using eq e(2,4) st1(3) by simp
  show "dirty_count (snd (write_block st k buf)) \<le> Suc (dirty_count st)"
    using dirty_count_put(2) [of i st1 ?e] h(3) l eq st1(5) by simp
qed

lemma stats_irrelevant [simp]:
  "find_entry (st\<lparr>bs_hits := a\<rparr>) k = find_entry st k" "find_entry (st\<lparr>bs_misses := b\<rparr>) k = find_entry st k"
  "view (st\<lparr>bs_hits := a\<rparr>) = view st" "view (st\<lparr>bs_misses := b\<rparr>) = view st"
  "bc_inv (st\<lparr>bs_hits := a\<rparr>) = bc_inv st" "bc_inv (st\<lparr>bs_misses := b\<rparr>) = bc_inv st"
  "dirty_count (st\<lparr>bs_hits := a\<rparr>) = dirty_count st" "dirty_count (st\<lparr>bs_misses := b\<rparr>) = dirty_count st"
proof -
  show f: "find_entry (st\<lparr>bs_hits := a\<rparr>) k = find_entry st k" "find_entry (st\<lparr>bs_misses := b\<rparr>) k = find_entry st k" for k
    by (simp_all add: find_entry_def)
  show "view (st\<lparr>bs_hits := a\<rparr>) = view st" "view (st\<lparr>bs_misses := b\<rparr>) = view st" unfolding view_def f
    by (rule ext, simp split: option.split)+
qed (simp_all add: bc_inv_def holds_def dirty_count_def)

lemma read_block_ok:
  assumes inv: "bc_inv st" and r: "dirty_count st < WAYS" and d: "all_usable (bs_disk st)"
  shows "fst (read_block st k n) = Some (take (min n SECTOR_SIZE) (view st k))" "bc_inv (snd (read_block st k n))"
    "view (snd (read_block st k n)) = view st" "bs_disk (snd (read_block st k n)) = bs_disk st"
    "dirty_count (snd (read_block st k n)) \<le> dirty_count st"
proof -
  have "fst (read_block st k n) = Some (take (min n SECTOR_SIZE) (view st k)) \<and> bc_inv (snd (read_block st k n)) \<and>
    view (snd (read_block st k n)) = view st \<and> bs_disk (snd (read_block st k n)) = bs_disk st \<and>
    dirty_count (snd (read_block st k n)) \<le> dirty_count st"
  proof (cases "find_entry st k")
    case None
    let ?m = "st\<lparr>bs_misses := bs_misses st + 1\<rparr>"
    obtain i st1 where s: "load_block ?m k = (Some i, st1)"
      and st1: "holds st1 i k" "bc_inv st1" "view st1 = view st" "bs_disk st1 = bs_disk st" "dirty_count st1 \<le> dirty_count st"
      using load_block_ok [of ?m k] all_usableD(1) [OF d, of k] None inv r by auto
    then show ?thesis using None view_holds [OF st1(2,1)] by (simp add: read_block_def)
  next
    case (Some i)
    then show ?thesis using inv by (simp add: read_block_def view_def)
  qed
  then show "fst (read_block st k n) = Some (take (min n SECTOR_SIZE) (view st k))" "bc_inv (snd (read_block st k n))"
    "view (snd (read_block st k n)) = view st" "bs_disk (snd (read_block st k n)) = bs_disk st"
    "dirty_count (snd (read_block st k n)) \<le> dirty_count st" by blast+
qed

section \<open>Flushing\<close>

lemma content_write: "dk_content (dk\<lparr>dk_log := dk_log dk @ [(k, v)]\<rparr>) = (dk_content dk)(k := v)"
  by (simp add: dk_content_def)

lemma all_usable_log [simp]: "all_usable (dk\<lparr>dk_log := l\<rparr>) = all_usable dk"
  by (simp add: all_usable_def)

definition clean :: "cache_entry \<Rightarrow> cache_entry" where
  "clean e = e\<lparr>ce_dirty := False\<rparr>"

lemma clean_sel [simp]: "ce_sector (clean e) = ce_sector e" "ce_valid (clean e) = ce_valid e" "ce_data (clean e) = ce_data e" "\<not> ce_dirty (clean e)"
  by (simp_all add: clean_def)

lemma clean_id: "\<not> ce_dirty e \<Longrightarrow> clean e = e"
  by (simp add: clean_def)

text \<open>Writing out the dirty entry of one slot.\<close>

definition written :: "bstate \<Rightarrow> nat \<Rightarrow> bstate" where
  "written st i = put_entry (st\<lparr>bs_disk := (bs_disk st)\<lparr>dk_log := dk_log (bs_disk st) @
     [(ce_sector (bs_entries st ! i), ce_data (bs_entries st ! i))]\<rparr>\<rparr>) i (clean (bs_entries st ! i))"

lemma written_sel [simp]:
  "bs_entries (written st i) = (bs_entries st)[i := clean (bs_entries st ! i)]"
  "bs_disk (written st i) = (bs_disk st)\<lparr>dk_log := dk_log (bs_disk st) @ [(ce_sector (bs_entries st ! i), ce_data (bs_entries st ! i))]\<rparr>"
  by (simp_all add: written_def)

lemma holds_written: "i < length (bs_entries st) \<Longrightarrow> holds (written st i) j k = holds st j k"
  by (auto simp: holds_def nth_list_update)

lemma written_ok:
  assumes inv: "bc_inv st" and i: "i < CACHE_SIZE" "ce_dirty (bs_entries st ! i)"
  shows "bc_inv (written st i)" "view (written st i) = view st"
proof -
  let ?k = "ce_sector (bs_entries st ! i)" and ?s = "written st i"
  have l: "length (bs_entries st) = CACHE_SIZE" and v: "ce_valid (bs_entries st ! i)" using inv i by (auto simp: bc_inv_def Let_def)
  have hi: "holds st i ?k" using i v by (simp add: holds_def)
  note hw = holds_written [of i st, unfolded l, OF i(1)]
  have c: "dk_content (bs_disk ?s) = (dk_content (bs_disk st))(?k := ce_data (bs_entries st ! i))" by (simp add: content_write)
  have other: "ce_sector (bs_entries st ! m) \<noteq> ?k" if "m < CACHE_SIZE" "m \<noteq> i" "ce_valid (bs_entries st ! m)" for m
    using bc_inv_entry(4) [OF inv hi, of m] that by (auto simp: holds_def)
  have "let f = bs_entries ?s ! m in
      (ce_valid f \<longrightarrow> m \<in> set (window (ce_sector f)) \<and> (\<not> ce_dirty f \<longrightarrow> ce_data f = dk_content (bs_disk ?s) (ce_sector f))) \<and>
      (ce_dirty f \<longrightarrow> ce_valid f) \<and> (\<forall>j < CACHE_SIZE. ce_valid f \<longrightarrow> holds ?s j (ce_sector f) \<longrightarrow> m = j)"
    if m: "m < CACHE_SIZE" for m
  proof (cases "m = i")
    case True
    then show ?thesis using bc_inv_entry(2,4) [OF inv hi] c l i v by (simp add: Let_def hw)
  next
    case False
    then show ?thesis using inv m other [OF m False] c by (simp add: Let_def hw bc_inv_def)
  qed
  then show inv': "bc_inv ?s" using l by (simp add: bc_inv_def)
  show "view ?s = view st"
  proof
    fix k
    show "view ?s k = view st k"
    proof (cases "\<exists>j. holds st j k")
      case True
      then obtain j where j: "holds st j k" by blast
      have "ce_data (bs_entries ?s ! j) = ce_data (bs_entries st ! j)" using l i by (cases "j = i") simp_all
      then show ?thesis using view_holds [OF inv j] view_holds [OF inv', of j k] j hw by simp
    next
      case False
      then have "k \<noteq> ?k" using hi by blast
      then show ?thesis using view_miss [of st k] view_miss [of ?s k] False c hw by simp
    qed
  qed
qed

lemma flush_step_eq:
  assumes "bc_inv st" "i < CACHE_SIZE" "all_usable (bs_disk st)"
  shows "flush_step i (b, st) = (b, if ce_dirty (bs_entries st ! i) then written st i else st)"
proof -
  have "ce_dirty (bs_entries st ! i) \<Longrightarrow> ce_valid (bs_entries st ! i)" using assms by (auto simp: bc_inv_def Let_def)
  then show ?thesis using all_usableD(2) [OF assms(3)]
    by (simp add: flush_step_def flush_entry_def block_device_write_def written_def clean_def Let_def put_entry_def)
qed

definition pending :: "bstate \<Rightarrow> nat list \<Rightarrow> (sector \<times> bytes) list" where
  "pending st is = map (\<lambda>i. (ce_sector (bs_entries st ! i), ce_data (bs_entries st ! i))) (filter (\<lambda>i. ce_dirty (bs_entries st ! i)) is)"

lemma flush_fold:
  assumes "bc_inv st" "all_usable (bs_disk st)" "distinct is" "set is \<subseteq> {..<CACHE_SIZE}"
  shows "\<exists>st'. fold flush_step is (True, st) = (True, st') \<and> bc_inv st' \<and> view st' = view st \<and>
    bs_disk st' = (bs_disk st)\<lparr>dk_log := dk_log (bs_disk st) @ pending st is\<rparr> \<and>
    (\<forall>m. bs_entries st' ! m = (if m \<in> set is then clean (bs_entries st ! m) else bs_entries st ! m))"
  using assms
proof (induction "is" arbitrary: st)
  case Nil
  then show ?case by (simp add: pending_def)
next
  case (Cons i "is")
  let ?s = "if ce_dirty (bs_entries st ! i) then written st i else st"
  have l: "length (bs_entries st) = CACHE_SIZE" "i < CACHE_SIZE" "i \<notin> set is" using Cons.prems by (auto simp: bc_inv_def)
  have e: "bs_entries ?s ! m = (if m = i then clean (bs_entries st ! i) else bs_entries st ! m)" for m
    using l by (auto simp: clean_id)
  have s: "bc_inv ?s" "view ?s = view st" "all_usable (bs_disk ?s)" "flush_step i (True, st) = (True, ?s)"
    "bs_disk ?s = (bs_disk st)\<lparr>dk_log := dk_log (bs_disk st) @ pending st [i]\<rparr>"
    using Cons.prems(1,2) l(2) written_ok [OF Cons.prems(1) l(2)] flush_step_eq [of st i True] by (auto simp: pending_def)
  have "pending ?s is = pending st is" unfolding pending_def using l(3) e by (intro map_cong filter_cong) auto
  moreover have "pending st (i # is) = pending st [i] @ pending st is" by (simp add: pending_def)
  moreover obtain st' where "fold flush_step is (True, ?s) = (True, st')" "bc_inv st'" "view st' = view ?s"
    "bs_disk st' = (bs_disk ?s)\<lparr>dk_log := dk_log (bs_disk ?s) @ pending ?s is\<rparr>"
    "\<forall>m. bs_entries st' ! m = (if m \<in> set is then clean (bs_entries ?s ! m) else bs_entries ?s ! m)"
    using Cons.IH [OF s(1,3)] Cons.prems(3,4) by auto
  ultimately show ?case using s(2,4,5) e l(3) by (intro exI [of _ st']) (auto simp del: written_sel)
qed

lemma flush_all_ok:
  assumes "bc_inv st" "all_usable (bs_disk st)"
  shows "\<exists>st'. flush_all st = (True, st') \<and> bc_inv st' \<and> view st' = view st \<and> dk_content (bs_disk st') = view st \<and> dirty_count st' = 0 \<and>
    bs_disk st' = (bs_disk st)\<lparr>dk_log := dk_log (bs_disk st) @ pending st [0..<CACHE_SIZE]\<rparr>"
proof -
  have "set [0..<CACHE_SIZE] \<subseteq> {..<CACHE_SIZE}" by auto
  from flush_fold [OF assms distinct_upt this] obtain st' where st': "flush_all st = (True, st')" "bc_inv st'" "view st' = view st"
    "bs_disk st' = (bs_disk st)\<lparr>dk_log := dk_log (bs_disk st) @ pending st [0..<CACHE_SIZE]\<rparr>"
    "\<forall>m. bs_entries st' ! m = (if m \<in> set [0..<CACHE_SIZE] then clean (bs_entries st ! m) else bs_entries st ! m)"
    unfolding flush_all_def by blast
  have nd: "\<not> ce_dirty (bs_entries st' ! m)" if "m < CACHE_SIZE" for m using st'(5) that by simp
  then have "dirty_count st' = 0" using st'(2) by (auto simp: dirty_count_index bc_inv_def)
  moreover have "view st' k = dk_content (bs_disk st') k" for k
  proof (cases "\<exists>j. holds st' j k")
    case True
    then show ?thesis using view_clean [OF st'(2)] nd by (auto simp: holds_def)
  qed (auto intro: view_miss)
  ultimately show ?thesis using st' by (intro exI [of _ st']) auto
qed

lemma drop_entry_sel [simp]: "\<not> ce_valid (drop_entry e)" "\<not> ce_dirty (drop_entry e)"
  by (simp_all add: drop_entry_def)

lemma invalidate_ok:
  assumes inv: "bc_inv st" and d: "dirty_count st = 0"
  shows "bc_inv (snd (bc_invalidate st k))" "view (snd (bc_invalidate st k)) = view st" "bs_disk (snd (bc_invalidate st k)) = bs_disk st"
    "dirty_count (snd (bc_invalidate st k)) = 0"
proof -
  have l: "length (bs_entries st) = CACHE_SIZE" using inv by (simp add: bc_inv_def)
  have nd: "\<not> ce_dirty (bs_entries st ! m)" if "m < CACHE_SIZE" for m using d that l by (simp add: dirty_count_index)
  have "bc_inv (snd (bc_invalidate st k)) \<and> view (snd (bc_invalidate st k)) = view st \<and> bs_disk (snd (bc_invalidate st k)) = bs_disk st \<and>
    dirty_count (snd (bc_invalidate st k)) = 0"
  proof (cases "find_entry st k")
    case None
    then show ?thesis using assms by (simp add: bc_invalidate_def)
  next
    case (Some i)
    let ?s = "put_entry st i (drop_entry (bs_entries st ! i))"
    have hi: "holds st i k" "i < CACHE_SIZE" using find_entry_Some [OF Some] by (auto simp: holds_def)
    have h: "holds ?s j k' \<longleftrightarrow> j \<noteq> i \<and> holds st j k'" for j k' using l hi(2) by (simp add: holds_put)
    have inv': "bc_inv ?s" using inv l hi(2) unfolding bc_inv_def Let_def by (simp add: h nth_list_update)
    have "view ?s k' = view st k'" for k'
    proof (cases "\<exists>j. holds st j k'")
      case True
      then obtain j where j: "holds st j k'" by blast
      then have c: "view st k' = dk_content (bs_disk st) k'" using nd by (intro view_clean [OF inv j]) (auto simp: holds_def)
      show ?thesis
      proof (cases "j = i")
        case True
        then have "\<not> holds ?s m k'" for m using bc_inv_entry(4) [OF inv j, of m] h by blast
        then show ?thesis using view_miss [of ?s k'] c by simp
      next
        case False
        then show ?thesis using view_holds [OF inv', of j k'] view_holds [OF inv j] h j by simp
      qed
    qed (use view_miss [of st k'] view_miss [of ?s k'] h in auto)
    moreover have "dirty_count ?s = 0" using dirty_count_put(1) [of i st "drop_entry (bs_entries st ! i)"] l hi(2) d by simp
    ultimately show ?thesis using Some inv' by (auto simp: bc_invalidate_def)
  qed
  then show "bc_inv (snd (bc_invalidate st k))" "view (snd (bc_invalidate st k)) = view st" "bs_disk (snd (bc_invalidate st k)) = bs_disk st"
    "dirty_count (snd (bc_invalidate st k)) = 0" by blast+
qed

section \<open>The store as an interface\<close>

text \<open>
  What the journal uses of the cache: reads return the view, writes of whole sectors change it at one place. The number
  counts the writes the store can still take before it must be flushed.
\<close>

locale sector_store =
  fixes rd :: "'s \<Rightarrow> 'k \<Rightarrow> 'v option \<times> 's" and wr :: "'s \<Rightarrow> 'k \<Rightarrow> 'v \<Rightarrow> bool \<times> 's"
    and vw :: "'s \<Rightarrow> 'k \<Rightarrow> 'v" and ok :: "nat \<Rightarrow> 's \<Rightarrow> bool" and whole :: "'v \<Rightarrow> bool"
  assumes rd_ok: "ok n s \<Longrightarrow> fst (rd s k) = Some (vw s k) \<and> vw (snd (rd s k)) = vw s \<and> ok n (snd (rd s k))"
    and wr_ok: "ok (Suc n) s \<Longrightarrow> whole v \<Longrightarrow> fst (wr s k v) \<and> vw (snd (wr s k v)) = (vw s)(k := v) \<and> ok n (snd (wr s k v))"
    and vw_whole: "ok n s \<Longrightarrow> whole (vw s k)"

text \<open>Copying sectors one after the other, the first failure ending it.\<close>

fun copy_sectors :: "('s \<Rightarrow> 'k \<Rightarrow> 'v option \<times> 's) \<Rightarrow> ('s \<Rightarrow> 'k \<Rightarrow> 'v \<Rightarrow> bool \<times> 's) \<Rightarrow> ('k \<times> 'k) list \<Rightarrow> 's \<Rightarrow> bool \<times> 's" where
  "copy_sectors rd wr [] s = (True, s)"
| "copy_sectors rd wr ((src, dst) # ps) s =
     (case rd s src of
        (None, s1) \<Rightarrow> (False, s1)
      | (Some v, s1) \<Rightarrow>
          (case wr s1 dst v of
             (False, s2) \<Rightarrow> (False, s2)
           | (True, s2) \<Rightarrow> copy_sectors rd wr ps s2))"

definition copied :: "('k \<times> 'k) list \<Rightarrow> ('k \<Rightarrow> 'v) \<Rightarrow> 'k \<Rightarrow> 'v" where
  "copied ps f = fold (\<lambda>p f. f(snd p := f (fst p))) ps f"

context sector_store
begin

lemma copy_ok:
  "ok (length ps + n) s \<Longrightarrow> \<exists>s'. copy_sectors rd wr ps s = (True, s') \<and> vw s' = copied ps (vw s) \<and> ok n s'"
proof (induction ps arbitrary: s)
  case Nil
  then show ?case by (simp add: copied_def)
next
  case (Cons p ps)
  obtain src dst where p: "p = (src, dst)" by (cases p)
  have o: "ok (Suc (length ps + n)) s" using Cons.prems by simp
  obtain s1 where s1: "rd s src = (Some (vw s src), s1)" "vw s1 = vw s" "ok (Suc (length ps + n)) s1"
    using rd_ok [OF o, of src] by (metis prod.collapse)
  obtain s2 where s2: "wr s1 dst (vw s src) = (True, s2)" "vw s2 = (vw s)(dst := vw s src)" "ok (length ps + n) s2"
    using wr_ok [OF s1(3) vw_whole [OF o], of dst src] s1(2) by (metis prod.collapse)
  from Cons.IH [OF s2(3)] obtain s' where "copy_sectors rd wr ps s2 = (True, s')" "vw s' = copied ps (vw s2)" "ok n s'" by blast
  moreover have "copied ps (vw s2) = copied (p # ps) (vw s)" by (simp add: copied_def p s2(2))
  moreover have "copy_sectors rd wr (p # ps) s = copy_sectors rd wr ps s2" using p s1(1) s2(1) by simp
  ultimately show ?case by simp
qed

end

lemma patch_whole: "length v = SECTOR_SIZE \<Longrightarrow> length old = SECTOR_SIZE \<Longrightarrow> patch old v = v"
  by (simp add: patch_def)

definition store_at :: "disk \<Rightarrow> nat \<Rightarrow> bstate \<Rightarrow> bool" where
  "store_at dk n st \<longleftrightarrow> bc_inv st \<and> bs_disk st = dk \<and> all_usable dk \<and> dirty_count st + n < WAYS \<and> (\<forall>k. length (view st k) = SECTOR_SIZE)"

interpretation cache: sector_store "\<lambda>st k. read_block st k SECTOR_SIZE" write_block view "store_at dk" "\<lambda>v. length v = SECTOR_SIZE" for dk
proof
  fix n st k and v :: bytes
  show "store_at dk n st \<Longrightarrow> fst (read_block st k SECTOR_SIZE) = Some (view st k) \<and>
      view (snd (read_block st k SECTOR_SIZE)) = view st \<and> store_at dk n (snd (read_block st k SECTOR_SIZE))"
    using read_block_ok [of st k SECTOR_SIZE] by (auto simp: store_at_def)
  show "store_at dk (Suc n) st \<Longrightarrow> length v = SECTOR_SIZE \<Longrightarrow> fst (write_block st k v) \<and>
      view (snd (write_block st k v)) = (view st)(k := v) \<and> store_at dk n (snd (write_block st k v))"
    using write_block_ok [of st k v] by (auto simp: store_at_def patch_whole)
  show "store_at dk n st \<Longrightarrow> length (view st k) = SECTOR_SIZE" by (simp add: store_at_def)
qed

lemma flush_store:
  assumes "store_at dk n st"
  shows "\<exists>st'. flush_all st = (True, st') \<and> store_at (dk\<lparr>dk_log := dk_log dk @ pending st [0..<CACHE_SIZE]\<rparr>) 3 st' \<and> view st' = view st \<and>
    dk_content (bs_disk st') = view st"
proof -
  have a: "bc_inv st" "all_usable (bs_disk st)" "bs_disk st = dk" "\<forall>k. length (view st k) = SECTOR_SIZE" using assms by (auto simp: store_at_def)
  from flush_all_ok [OF a(1,2)] a(2-4) show ?thesis by (auto simp: store_at_def WAYS_def)
qed

lemma clean_content:
  assumes "store_at dk 3 st"
  shows "dk_content dk = view st"
proof
  fix k
  have a: "bc_inv st" "bs_disk st = dk" "dirty_count st = 0" using assms by (auto simp: store_at_def WAYS_def)
  show "dk_content dk k = view st k"
  proof (cases "\<exists>i. holds st i k")
    case True
    then obtain i where i: "holds st i k" by blast
    then have "\<not> ce_dirty (bs_entries st ! i)" using a(1,3) by (auto simp: dirty_count_index holds_def bc_inv_def)
    then show ?thesis using view_clean [OF a(1) i] a(2) by simp
  qed (use view_miss [of st k] a(2) in auto)
qed

text \<open>What a flush writes: one sector for each dirty entry, with the data of the view.\<close>

lemma length_pending: "length (bs_entries st) = CACHE_SIZE \<Longrightarrow> length (pending st [0..<CACHE_SIZE]) = dirty_count st"
proof -
  assume l: "length (bs_entries st) = CACHE_SIZE"
  have "map ((!) (bs_entries st)) [0..<CACHE_SIZE] = bs_entries st" using l by (metis map_nth)
  then have "dirty_count st = length (filter ce_dirty (map ((!) (bs_entries st)) [0..<CACHE_SIZE]))" by (simp add: dirty_count_def)
  then show ?thesis by (simp add: pending_def filter_map comp_def)
qed

lemma pending_view: "bc_inv st \<Longrightarrow> p \<in> set (pending st [0..<CACHE_SIZE]) \<Longrightarrow> snd p = view st (fst p)"
proof -
  assume inv: "bc_inv st" and "p \<in> set (pending st [0..<CACHE_SIZE])"
  then obtain i where i: "i < CACHE_SIZE" "ce_dirty (bs_entries st ! i)" "p = (ce_sector (bs_entries st ! i), ce_data (bs_entries st ! i))"
    by (auto simp: pending_def)
  then have "holds st i (fst p)" using inv by (auto simp: holds_def bc_inv_def Let_def)
  from view_holds [OF inv this] i(3) show ?thesis by simp
qed

section \<open>Properties\<close>

definition blank_disk :: disk where
  "blank_disk = \<lparr>dk_readable = (\<lambda>_. True), dk_writable = (\<lambda>_. True), dk_init = (\<lambda>_. replicate SECTOR_SIZE 0), dk_log = []\<rparr>"

lemma blank_disk_usable: "all_usable blank_disk"
  by (simp add: blank_disk_def all_usable_def)

lemma new_cache_inv: "bc_inv (new_cache dk)" "dirty_count (new_cache dk) = 0"
  by (simp_all add: bc_inv_def new_cache_def holds_def Let_def dirty_count_def)

text \<open>
  C34: While fewer than four entries are dirty, the cache in front of a device that takes every sector is the
  store its view describes: a read returns the view and keeps it, a write changes the view at its sector only, and
  a flush leaves on the device what the view shows.
\<close>

theorem cache_refines_store:
  assumes "bc_inv st" "dirty_count st < WAYS" "all_usable (bs_disk st)"
  shows "fst (read_block st k n) = Some (take (min n SECTOR_SIZE) (view st k)) \<and> view (snd (read_block st k n)) = view st \<and>
    bc_inv (snd (read_block st k n)) \<and>
    fst (write_block st k buf) \<and> view (snd (write_block st k buf)) = (view st)(k := patch (view st k) buf) \<and>
    bc_inv (snd (write_block st k buf)) \<and>
    fst (flush_all st) \<and> dk_content (bs_disk (snd (flush_all st))) = view st"
proof -
  note read_block_ok(1-3) [OF assms, of k n] write_block_ok(1-3) [OF assms, of k buf]
  moreover have "fst (flush_all st) \<and> dk_content (bs_disk (snd (flush_all st))) = view st"
    using flush_all_ok [OF assms(1,3)] by auto
  ultimately show ?thesis by blast
qed

theorem cache_refines_store_witness:
  "view (snd (write_block (new_cache blank_disk) (Sector 0 7) [1, 2])) =
     (view (new_cache blank_disk))(Sector 0 7 := patch (view (new_cache blank_disk) (Sector 0 7)) [1, 2])"
proof -
  have "dirty_count (new_cache blank_disk) < WAYS" "all_usable (bs_disk (new_cache blank_disk))"
    using new_cache_inv(2) blank_disk_usable by (simp_all add: WAYS_def new_cache_def)
  from cache_refines_store [OF new_cache_inv(1) this, of _ 0 "[1, 2]"] show ?thesis by blast
qed

text \<open>A slot outside the window is never looked at.\<close>

lemma evict_outside:
  assumes inv: "\<forall>m < CACHE_SIZE. ce_dirty (bs_entries st ! m) \<longrightarrow> ce_valid (bs_entries st ! m)"
    and w: "\<forall>i \<in> set (window k). ce_valid (bs_entries st ! i) \<and> ce_dirty (bs_entries st ! i)"
    and c: "i < CACHE_SIZE" "\<not> ce_dirty (bs_entries st ! i)"
  shows "evict_one st k < CACHE_SIZE \<and> \<not> ce_dirty (bs_entries st ! evict_one st k) \<and> evict_one st k \<notin> set (window k)"
proof -
  let ?P = "\<lambda>i. \<not> ce_valid (bs_entries st ! i) \<or> \<not> ce_dirty (bs_entries st ! i)"
  have n: "List.find (\<lambda>i. \<not> ce_valid (bs_entries st ! i)) (window k) = None" "List.find (\<lambda>i. \<not> ce_dirty (bs_entries st ! i)) (window k) = None"
    using w by (auto simp: find_None_iff)
  obtain j where j: "List.find ?P [0..<CACHE_SIZE] = Some j"
    by (cases "List.find ?P [0..<CACHE_SIZE]") (use c in \<open>auto simp: find_None_iff\<close>)
  have "j < CACHE_SIZE" "\<not> ce_dirty (bs_entries st ! j)"
    using find_Some [OF j] inv by auto
  then show ?thesis using n j w by (auto simp: evict_one_def)
qed

text \<open>
  C35: When the four slots of a sector hold other dirty sectors and a clean slot is left elsewhere, a write
  of the sector succeeds, but the next read returns what the device holds, not what was written: the entry went to a slot that the
  lookup never visits.
\<close>

theorem full_window_stale:
  assumes inv: "bc_inv st" and rd: "dk_readable (bs_disk st) k"
    and w: "\<forall>i \<in> set (window k). ce_valid (bs_entries st ! i) \<and> ce_dirty (bs_entries st ! i) \<and> ce_sector (bs_entries st ! i) \<noteq> k"
    and c: "i1 < CACHE_SIZE" "i2 < CACHE_SIZE" "i1 \<noteq> i2" "\<not> ce_dirty (bs_entries st ! i1)" "\<not> ce_dirty (bs_entries st ! i2)"
  shows "fst (write_block st k buf) \<and>
    fst (read_block (snd (write_block st k buf)) k n) = Some (take (min n SECTOR_SIZE) (dk_content (bs_disk st) k))"
proof -
  have l: "length (bs_entries st) = CACHE_SIZE" and dv: "\<forall>m < CACHE_SIZE. ce_dirty (bs_entries st ! m) \<longrightarrow> ce_valid (bs_entries st ! m)"
    using inv by (auto simp: bc_inv_def Let_def)
  let ?j = "evict_one st k" and ?e = "\<lparr>ce_sector = k, ce_dirty = False, ce_valid = True, ce_data = dk_content (bs_disk st) k\<rparr>"
  let ?s = "put_entry (put_entry st ?j ?e) ?j (?e\<lparr>ce_data := patch (ce_data ?e) buf, ce_dirty := True\<rparr>)"
  have j: "?j < CACHE_SIZE" "\<not> ce_dirty (bs_entries st ! ?j)" "?j \<notin> set (window k)" using evict_outside [OF dv _ c(1,4), of k] w by auto
  have f: "find_entry st k = None" using w by (auto simp: find_entry_def find_None_iff Let_def)
  have s: "write_block st k buf = (True, ?s)"
    using f rd j(1,2) l by (simp add: write_eq slot_of_def load_block_def flush_entry_def block_device_read_def Let_def)
  have same: "bs_entries ?s ! m = bs_entries st ! m" if "m \<noteq> ?j" for m using that by simp
  have win: "\<forall>i \<in> set (window k). bs_entries ?s ! i = bs_entries st ! i" using same j(3) by metis
  have dv': "\<forall>m < CACHE_SIZE. ce_dirty (bs_entries ?s ! m) \<longrightarrow> ce_valid (bs_entries ?s ! m)"
  proof (intro allI impI)
    fix m assume m: "m < CACHE_SIZE" "ce_dirty (bs_entries ?s ! m)"
    then show "ce_valid (bs_entries ?s ! m)" using same [of m] dv l by (cases "m = ?j") auto
  qed
  have "\<exists>i < CACHE_SIZE. \<not> ce_dirty (bs_entries ?s ! i)"
  proof (cases "i1 = ?j")
    case True
    then show ?thesis using same [of i2] c by metis
  next
    case False
    then show ?thesis using same [of i1] c by metis
  qed
  then obtain i where i: "i < CACHE_SIZE" "\<not> ce_dirty (bs_entries ?s ! i)" by blast
  let ?t = "?s\<lparr>bs_misses := bs_misses ?s + 1\<rparr>"
  have v: "evict_one ?t k < CACHE_SIZE" "\<not> ce_dirty (bs_entries ?t ! evict_one ?t k)"
    using evict_outside [of ?t k i] dv' i w win by auto
  have "find_entry ?s k = None" using w win by (auto simp: find_entry_def find_None_iff Let_def)
  then have "fst (read_block ?s k n) = Some (take (min n SECTOR_SIZE) (dk_content (bs_disk st) k))"
    using v rd l by (simp add: read_block_def load_block_def flush_entry_def block_device_read_def Let_def)
  then show ?thesis by (simp only: s fst_conv snd_conv simp_thms)
qed

definition dirty_entry :: "u64 \<Rightarrow> cache_entry" where
  "dirty_entry b = \<lparr>ce_sector = Sector 0 b, ce_dirty = True, ce_valid = True, ce_data = replicate SECTOR_SIZE 1\<rparr>"

definition crowded_cache :: bstate where
  "crowded_cache = (new_cache blank_disk)\<lparr>bs_entries := (bs_entries (new_cache blank_disk))
     [0 := dirty_entry 512, 1 := dirty_entry 1024, 2 := dirty_entry 1536, 3 := dirty_entry 2048]\<rparr>"

lemma crowded_nth: "i < 512 \<Longrightarrow> bs_entries crowded_cache ! i =
    (if i = 0 then dirty_entry 512 else if i = 1 then dirty_entry 1024 else if i = 2 then dirty_entry 1536
     else if i = 3 then dirty_entry 2048 else \<lparr>ce_sector = Sector 0 0, ce_dirty = False, ce_valid = False, ce_data = replicate SECTOR_SIZE 0\<rparr>)"
  by (simp add: crowded_cache_def new_cache_def CACHE_SIZE_def nth_list_update)

lemma crowded_window: "b \<in> {512, 1024, 1536, 2048, 2560} \<Longrightarrow> set (window (Sector 0 b)) = {0, 1, 2, 3}"
proof -
  assume "b \<in> {512, 1024, 1536, 2048, 2560}"
  then have "cache_hash (Sector 0 b) = 0" by (auto simp: cache_hash_def Let_def)
  moreover have "[0..<4] = [0, 1, 2, 3]" by (simp add: upt_rec)
  ultimately show ?thesis by (simp add: window_def WAYS_def CACHE_SIZE_def)
qed

lemma crowded_inv: "bc_inv crowded_cache"
proof -
  have "length (bs_entries crowded_cache) = CACHE_SIZE" by (simp add: crowded_cache_def new_cache_def)
  then show ?thesis
    unfolding bc_inv_def by (auto simp: CACHE_SIZE_def Let_def crowded_nth holds_def dirty_entry_def crowded_window)
qed

theorem full_window_stale_witness:
  "fst (write_block crowded_cache (Sector 0 2560) [9]) \<and>
   fst (read_block (snd (write_block crowded_cache (Sector 0 2560) [9])) (Sector 0 2560) 1) = Some (take (min 1 SECTOR_SIZE) (dk_content (bs_disk crowded_cache) (Sector 0 2560)))"
proof (rule full_window_stale [OF crowded_inv, of _ 4 5])
  show "dk_readable (bs_disk crowded_cache) (Sector 0 2560)" by (simp add: crowded_cache_def new_cache_def blank_disk_def)
  show "\<forall>i \<in> set (window (Sector 0 2560)). ce_valid (bs_entries crowded_cache ! i) \<and> ce_dirty (bs_entries crowded_cache ! i) \<and>
      ce_sector (bs_entries crowded_cache ! i) \<noteq> Sector 0 2560"
    by (simp add: crowded_window crowded_nth dirty_entry_def)
qed (simp_all add: CACHE_SIZE_def crowded_nth)

end
