(* ===== verification/Journal.thy ===== *)
theory Journal
  imports BlockCache
begin

text \<open>
  The redo journal, \<^verbatim>\<open>crates/zenus-fs/src/journal.rs\<close>, a client of the block cache.

  The statics of the module are the record \<open>journal\<close>, which also holds the cache the module works on. The
  outcome of the device barrier \<open>device_flush\<close> is an argument. Numbers in the header sector are little-endian.
\<close>

definition JOURNAL_MAGIC :: u32 where
  "JOURNAL_MAGIC = 0x4A524E4C"

definition MAX_ENTRIES :: nat where
  "MAX_ENTRIES = 123"

definition JNL_STATE_EMPTY :: u32 where
  "JNL_STATE_EMPTY = 0"

definition JNL_STATE_ACTIVE :: u32 where
  "JNL_STATE_ACTIVE = 1"

definition JNL_STATE_COMMITTED :: u32 where
  "JNL_STATE_COMMITTED = 2"

definition le32 :: "u32 \<Rightarrow> bytes" where
  "le32 x = rev (be32 x)"

definition le32_at :: "bytes \<Rightarrow> nat \<Rightarrow> u32" where
  "le32_at bs i = of_be32 (bs ! (i + 3)) (bs ! (i + 2)) (bs ! (i + 1)) (bs ! i)"

record journal_header =
  jh_magic :: u32
  jh_sequence :: u32
  jh_num_entries :: u32
  jh_state :: u32
  jh_reserved :: u32
  jh_targets :: "u32 list"

definition empty_header :: journal_header where
  "empty_header = \<lparr>jh_magic = JOURNAL_MAGIC, jh_sequence = 0, jh_num_entries = 0, jh_state = JNL_STATE_EMPTY,
     jh_reserved = 0, jh_targets = replicate MAX_ENTRIES 0\<rparr>"

definition header_bytes :: "journal_header \<Rightarrow> bytes" where
  "header_bytes h = le32 (jh_magic h) @ le32 (jh_sequence h) @ le32 (jh_num_entries h) @ le32 (jh_state h) @
     le32 (jh_reserved h) @ concat (map le32 (jh_targets h))"

definition parse_header :: "bytes \<Rightarrow> journal_header option" where
  "parse_header buf =
     (if le32_at buf 0 \<noteq> JOURNAL_MAGIC then None
      else Some \<lparr>jh_magic = le32_at buf 0, jh_sequence = le32_at buf 4, jh_num_entries = le32_at buf 8,
        jh_state = le32_at buf 12, jh_reserved = le32_at buf 16,
        jh_targets = map (\<lambda>i. le32_at buf (20 + i * 4)) [0..<MAX_ENTRIES]\<rparr>)"

record journal =
  jn_store :: bstate
  jn_dev :: u8
  jn_start :: u64
  jn_blocks :: u64
  jn_sequence :: u32
  jn_active :: bool

definition capacity_for_blocks :: "u64 \<Rightarrow> nat" where
  "capacity_for_blocks num_blocks = min MAX_ENTRIES (unat (saturating_sub num_blocks 1))"

definition data_block_for :: "u64 \<Rightarrow> u64 \<Rightarrow> nat \<Rightarrow> u64 option" where
  "data_block_for start_block num_blocks idx =
     (if idx \<ge> capacity_for_blocks num_blocks then None else Some (start_block + 1 + word_of_nat idx))"

definition replay_entry_limit :: "u32 \<Rightarrow> u64 \<Rightarrow> nat" where
  "replay_entry_limit num_entries num_blocks = min (unat num_entries) (min MAX_ENTRIES (capacity_for_blocks num_blocks))"

definition header_sector :: "journal \<Rightarrow> sector" where
  "header_sector j = Sector (jn_dev j) (jn_start j)"

definition bc_flush :: "journal \<Rightarrow> bool \<times> journal" where
  "bc_flush j = (case flush_all (jn_store j) of (ok, st) \<Rightarrow> (ok, j\<lparr>jn_store := st\<rparr>))"

definition read_header :: "journal \<Rightarrow> journal_header option \<times> journal" where
  "read_header j =
     (case read_block (jn_store j) (header_sector j) SECTOR_SIZE of
        (None, st) \<Rightarrow> (None, j\<lparr>jn_store := st\<rparr>)
      | (Some buf, st) \<Rightarrow> (parse_header buf, j\<lparr>jn_store := st\<rparr>))"

definition put_header :: "journal \<Rightarrow> journal_header \<Rightarrow> bool \<times> journal" where
  "put_header j h = (case write_block (jn_store j) (header_sector j) (header_bytes h) of (ok, st) \<Rightarrow> (ok, j\<lparr>jn_store := st\<rparr>))"

definition journal_init :: "journal \<Rightarrow> u8 \<Rightarrow> u64 \<Rightarrow> u64 \<Rightarrow> bool \<times> journal" where
  "journal_init j0 dev start_block num_blocks =
     (let j = j0\<lparr>jn_dev := dev, jn_start := start_block, jn_blocks := num_blocks, jn_sequence := 0, jn_active := False\<rparr>;
          (ok, j2) = (case put_header j empty_header of
             (False, j1) \<Rightarrow> (False, j1)
           | (True, j1) \<Rightarrow> bc_flush j1)
      in (ok, j2\<lparr>jn_store := snd (bc_invalidate (jn_store j2) (Sector dev start_block))\<rparr>))"

definition journal_begin :: "journal \<Rightarrow> bool \<times> journal" where
  "journal_begin j =
     (if jn_dev j = 0xFF \<or> jn_active j then (False, j)
      else let j1 = j\<lparr>jn_active := True, jn_sequence := jn_sequence j + 1\<rparr>
      in case read_header j1 of
           (None, j2) \<Rightarrow> (False, j2\<lparr>jn_active := False\<rparr>)
         | (Some h, j2) \<Rightarrow>
             (case put_header j2 (h\<lparr>jh_state := JNL_STATE_ACTIVE\<rparr>) of
                (False, j3) \<Rightarrow> (False, j3\<lparr>jn_active := False\<rparr>)
              | (True, j3) \<Rightarrow>
                  (case bc_flush j3 of
                     (False, j4) \<Rightarrow> (False, j4\<lparr>jn_active := False\<rparr>)
                   | (True, j4) \<Rightarrow> (True, j4))))"

definition padded :: "bytes \<Rightarrow> bytes" where
  "padded d = take SECTOR_SIZE d @ replicate (SECTOR_SIZE - length d) 0"

definition add_entry :: "journal_header \<Rightarrow> nat \<Rightarrow> u64 \<Rightarrow> journal_header" where
  "add_entry h idx target = h\<lparr>jh_targets := (jh_targets h)[idx := ucast target], jh_num_entries := jh_num_entries h + 1\<rparr>"

definition journal_write :: "journal \<Rightarrow> u64 \<Rightarrow> bytes \<Rightarrow> bool \<times> journal" where
  "journal_write j target_block data =
     (if \<not> jn_active j \<or> jn_dev j = 0xFF then (False, j)
      else case read_header j of
        (None, j1) \<Rightarrow> (False, j1)
      | (Some h, j1) \<Rightarrow>
          (let idx = unat (jh_num_entries h)
           in case data_block_for (jn_start j) (jn_blocks j) idx of
                None \<Rightarrow> (False, j1)
              | Some b \<Rightarrow>
                  (case write_block (jn_store j1) (Sector (jn_dev j) b) (padded data) of
                     (False, st) \<Rightarrow> (False, j1\<lparr>jn_store := st\<rparr>)
                   | (True, st) \<Rightarrow>
                       if target_block > 0xFFFFFFFF then (False, j1\<lparr>jn_store := st\<rparr>)
                       else (case put_header (j1\<lparr>jn_store := st\<rparr>) (add_entry h idx target_block) of
                               (False, j2) \<Rightarrow> (False, j2)
                             | (True, j2) \<Rightarrow> (True, snd (bc_flush j2))))))"

text \<open>
  The sectors that a commit or a replay copies: the redo block of each entry to its target, entries with target 0 left
  out. An index below \<open>replay_entry_limit\<close> always has a redo block, so the branches for an entry without one are never taken.
\<close>

lemma redo_block_present: "i < replay_entry_limit m n \<Longrightarrow> data_block_for s n i = Some (s + 1 + word_of_nat i)"
  by (simp add: replay_entry_limit_def data_block_for_def)

definition redo_pairs :: "u8 \<Rightarrow> u64 \<Rightarrow> u64 \<Rightarrow> nat \<Rightarrow> u32 list \<Rightarrow> (sector \<times> sector) list" where
  "redo_pairs dev start num_blocks limit targets =
     map (\<lambda>i. (Sector dev (the (data_block_for start num_blocks i)), Sector dev (ucast (targets ! i))))
       (filter (\<lambda>i. targets ! i \<noteq> 0) [0..<limit])"

text \<open>The three phases of a commit: copy to the targets, mark the header, clear it.\<close>

definition commit_copy :: "journal \<Rightarrow> journal_header \<Rightarrow> bool \<times> journal" where
  "commit_copy j h =
     (case copy_sectors (\<lambda>st k. read_block st k SECTOR_SIZE) write_block
             (redo_pairs (jn_dev j) (jn_start j) (jn_blocks j) (replay_entry_limit (jh_num_entries h) (jn_blocks j)) (jh_targets h))
             (jn_store j) of
        (False, st) \<Rightarrow> (False, j\<lparr>jn_store := st\<rparr>)
      | (True, st) \<Rightarrow> (True, snd (bc_flush (j\<lparr>jn_store := st\<rparr>))))"

definition commit_mark :: "journal \<Rightarrow> bool \<times> journal" where
  "commit_mark j =
     (case read_header j of
        (None, j1) \<Rightarrow> (False, j1)
      | (Some h, j1) \<Rightarrow>
          (case put_header j1 (h\<lparr>jh_state := JNL_STATE_COMMITTED\<rparr>) of
             (False, j2) \<Rightarrow> (False, j2)
           | (True, j2) \<Rightarrow> (True, snd (bc_flush j2))))"

definition commit_clear :: "journal \<Rightarrow> bool \<times> journal" where
  "commit_clear j =
     (case read_header j of
        (None, j1) \<Rightarrow> (False, j1)
      | (Some h, j1) \<Rightarrow>
          (True, (snd (bc_flush (snd (put_header j1 (h\<lparr>jh_num_entries := 0, jh_state := JNL_STATE_EMPTY\<rparr>)))))
                   \<lparr>jn_active := False\<rparr>))"

definition journal_commit :: "bool \<Rightarrow> bool \<Rightarrow> journal \<Rightarrow> bool \<times> journal" where
  "journal_commit barrier1 barrier2 j =
     (if \<not> jn_active j \<or> jn_dev j = 0xFF then (False, j)
      else case read_header j of
        (None, j1) \<Rightarrow> (False, j1)
      | (Some h, j1) \<Rightarrow>
          (case commit_copy j1 h of
             (False, j2) \<Rightarrow> (False, j2)
           | (True, j2) \<Rightarrow>
               if \<not> barrier1 then (False, j2)
               else (case commit_mark j2 of
                       (False, j3) \<Rightarrow> (False, j3)
                     | (True, j3) \<Rightarrow> if \<not> barrier2 then (False, j3) else commit_clear j3)))"

text \<open>Replay goes on after a sector it cannot read or write.\<close>

fun replay_sectors :: "(sector \<times> sector) list \<Rightarrow> bstate \<Rightarrow> bstate" where
  "replay_sectors [] st = st"
| "replay_sectors ((src, dst) # ps) st =
     (case read_block st src SECTOR_SIZE of
        (None, st1) \<Rightarrow> replay_sectors ps st1
      | (Some v, st1) \<Rightarrow> replay_sectors ps (snd (write_block st1 dst v)))"

definition retire :: "bytes \<Rightarrow> bytes" where
  "retire buf = take 12 buf @ le32 JNL_STATE_EMPTY @ drop 16 buf"

definition journal_replay :: "journal \<Rightarrow> u8 \<Rightarrow> u64 \<Rightarrow> u64 \<Rightarrow> bool \<times> journal" where
  "journal_replay j dev start_block num_blocks =
     (case read_block (jn_store j) (Sector dev start_block) SECTOR_SIZE of
        (None, st) \<Rightarrow> (False, j\<lparr>jn_store := st\<rparr>)
      | (Some buf, st) \<Rightarrow>
          (if le32_at buf 0 \<noteq> JOURNAL_MAGIC then (False, j\<lparr>jn_store := st\<rparr>)
           else if le32_at buf 12 \<noteq> JNL_STATE_COMMITTED then (True, j\<lparr>jn_store := st\<rparr>)
           else let limit = replay_entry_limit (le32_at buf 8) num_blocks
           in if limit = 0 then (True, j\<lparr>jn_store := st\<rparr>)
           else let targets = map (\<lambda>i. le32_at buf (20 + i * 4)) [0..<limit];
                    st1 = snd (flush_all (replay_sectors (redo_pairs dev start_block num_blocks limit targets) st));
                    st2 = snd (flush_all (snd (write_block st1 (Sector dev start_block) (retire buf))));
                    st3 = snd (bc_invalidate st2 (Sector dev start_block))
           in (True, \<lparr>jn_store = st3, jn_dev = dev, jn_start = start_block, jn_blocks = num_blocks,
                      jn_sequence = 0, jn_active = False\<rparr>)))"

section \<open>The header sector\<close>

lemma length_le32 [simp]: "length (le32 x) = 4"
  by (simp add: le32_def)

lemma le32_at_le32: "le32_at (le32 x @ r) 0 = x"
  by (simp add: le32_at_def le32_def be32_def of_be32_split)

lemma le32_at_append: "length xs = n \<Longrightarrow> le32_at (xs @ ys) (n + i) = le32_at ys i"
  by (simp add: le32_at_def nth_append)

lemma le32_at_mid: "length xs = n \<Longrightarrow> le32_at (xs @ le32 x @ ys) n = x"
  using le32_at_append [of xs n "le32 x @ ys" 0] le32_at_le32 [of x ys] by simp

lemma le32_at_concat: "i < length ts \<Longrightarrow> le32_at (concat (map le32 ts)) (i * 4) = ts ! i"
proof (induction ts arbitrary: i)
  case (Cons t ts)
  then show ?case
    using le32_at_append [of "le32 t" 4 "concat (map le32 ts)"] le32_at_le32 [of t "concat (map le32 ts)"] by (cases i) simp_all
qed simp

lemma length_header_bytes: "length (jh_targets h) = MAX_ENTRIES \<Longrightarrow> length (header_bytes h) = SECTOR_SIZE"
proof -
  assume "length (jh_targets h) = MAX_ENTRIES"
  moreover have "length (concat (map le32 ts)) = 4 * length ts" for ts by (induction ts) auto
  ultimately show ?thesis by (simp add: header_bytes_def MAX_ENTRIES_def SECTOR_SIZE_def)
qed

lemma header_roundtrip:
  assumes "jh_magic h = JOURNAL_MAGIC" "length (jh_targets h) = MAX_ENTRIES"
  shows "parse_header (header_bytes h) = Some h"
proof -
  let ?b = "header_bytes h"
  have at: "le32_at ?b 0 = jh_magic h" "le32_at ?b 4 = jh_sequence h" "le32_at ?b 8 = jh_num_entries h" "le32_at ?b 12 = jh_state h"
    "le32_at ?b 16 = jh_reserved h" "le32_at ?b (20 + n) = le32_at (concat (map le32 (jh_targets h))) n" for n
    unfolding header_bytes_def
    using le32_at_le32 [of "jh_magic h"] le32_at_mid [of "le32 (jh_magic h)" 4] le32_at_mid [of "le32 (jh_magic h) @ le32 (jh_sequence h)" 8]
      le32_at_mid [of "le32 (jh_magic h) @ le32 (jh_sequence h) @ le32 (jh_num_entries h)" 12]
      le32_at_mid [of "le32 (jh_magic h) @ le32 (jh_sequence h) @ le32 (jh_num_entries h) @ le32 (jh_state h)" 16]
      le32_at_append [of "le32 (jh_magic h) @ le32 (jh_sequence h) @ le32 (jh_num_entries h) @ le32 (jh_state h) @ le32 (jh_reserved h)" 20]
    by simp_all
  have "map (\<lambda>i. le32_at ?b (20 + i * 4)) [0..<MAX_ENTRIES] = jh_targets h"
    using assms(2) by (intro nth_equalityI) (simp_all add: at le32_at_concat)
  then show ?thesis using at assms(1) by (simp add: parse_header_def)
qed

section \<open>Steps of the journal\<close>

text \<open>
  The journal with header \<open>h\<close> in the view, and a cache on the device \<open>dk\<close> that can take \<open>n\<close> more writes before a flush.
\<close>

definition jn_at :: "disk \<Rightarrow> nat \<Rightarrow> journal_header \<Rightarrow> journal \<Rightarrow> bool" where
  "jn_at dk n h j \<longleftrightarrow> store_at dk n (jn_store j) \<and> view (jn_store j) (header_sector j) = header_bytes h \<and>
     jh_magic h = JOURNAL_MAGIC \<and> length (jh_targets h) = MAX_ENTRIES"

definition jn_view :: "journal \<Rightarrow> sector \<Rightarrow> bytes" where
  "jn_view j = view (jn_store j)"

text \<open>The state of the module apart from the cache.\<close>

definition geometry :: "journal \<Rightarrow> u8 \<times> u64 \<times> u64 \<times> bool" where
  "geometry j = (jn_dev j, jn_start j, jn_blocks j, jn_active j)"

lemma read_header_ok:
  assumes "jn_at dk n h j"
  shows "\<exists>j'. read_header j = (Some h, j') \<and> jn_at dk n h j' \<and> jn_view j' = jn_view j \<and> geometry j' = geometry j"
proof -
  have a: "store_at dk n (jn_store j)" "view (jn_store j) (header_sector j) = header_bytes h" "jh_magic h = JOURNAL_MAGIC"
    "length (jh_targets h) = MAX_ENTRIES" using assms by (auto simp: jn_at_def)
  obtain st where st: "read_block (jn_store j) (header_sector j) SECTOR_SIZE = (Some (header_bytes h), st)" "view st = view (jn_store j)" "store_at dk n st"
    using cache.rd_ok [OF a(1), of "header_sector j"] a(2) by (metis prod.collapse)
  then show ?thesis using header_roundtrip [OF a(3,4)] a
    by (simp add: read_header_def jn_at_def jn_view_def geometry_def header_sector_def)
qed

lemma put_header_ok:
  assumes "jn_at dk (Suc n) h j" "jh_magic h' = JOURNAL_MAGIC" "length (jh_targets h') = MAX_ENTRIES"
  shows "\<exists>j'. put_header j h' = (True, j') \<and> jn_at dk n h' j' \<and> jn_view j' = (jn_view j)(header_sector j := header_bytes h') \<and> geometry j' = geometry j"
proof -
  have a: "store_at dk (Suc n) (jn_store j)" using assms by (auto simp: jn_at_def)
  obtain st where st: "write_block (jn_store j) (header_sector j) (header_bytes h') = (True, st)"
    "view st = (view (jn_store j))(header_sector j := header_bytes h')" "store_at dk n st"
    using cache.wr_ok [OF a length_header_bytes [OF assms(3)], of "header_sector j"] by (metis prod.collapse)
  then show ?thesis using assms(2,3) by (simp add: put_header_def jn_at_def jn_view_def geometry_def header_sector_def)
qed

lemma bc_flush_ok:
  assumes "jn_at dk n h j"
  shows "\<exists>j'. bc_flush j = (True, j') \<and> jn_at (dk\<lparr>dk_log := dk_log dk @ pending (jn_store j) [0..<CACHE_SIZE]\<rparr>) 3 h j' \<and>
    jn_view j' = jn_view j \<and> geometry j' = geometry j"
proof -
  have a: "store_at dk n (jn_store j)" using assms by (simp add: jn_at_def)
  from flush_store [OF a] assms show ?thesis by (auto simp: bc_flush_def jn_at_def jn_view_def geometry_def header_sector_def)
qed

lemma jn_at_mono: "jn_at dk n h j \<Longrightarrow> m \<le> n \<Longrightarrow> jn_at dk m h j"
  by (auto simp: jn_at_def store_at_def)

lemma begin_ok:
  assumes "jn_at dk 3 h j" "jn_dev j \<noteq> 0xFF" "\<not> jn_active j"
  shows "\<exists>dk' j'. journal_begin j = (True, j') \<and> jn_at dk' 3 (h\<lparr>jh_state := JNL_STATE_ACTIVE\<rparr>) j' \<and>
    jn_view j' = (jn_view j)(header_sector j := header_bytes (h\<lparr>jh_state := JNL_STATE_ACTIVE\<rparr>)) \<and>
    geometry j' = (jn_dev j, jn_start j, jn_blocks j, True)"
proof -
  let ?j = "j\<lparr>jn_active := True, jn_sequence := jn_sequence j + 1\<rparr>" and ?h = "h\<lparr>jh_state := JNL_STATE_ACTIVE\<rparr>"
  have g: "jh_magic ?h = JOURNAL_MAGIC" "length (jh_targets ?h) = MAX_ENTRIES" using assms(1) by (auto simp: jn_at_def)
  have "jn_at dk 3 h ?j" using assms(1) by (simp add: jn_at_def header_sector_def)
  from read_header_ok [OF this] obtain j1 where 1: "read_header ?j = (Some h, j1)" "jn_at dk 3 h j1" "jn_view j1 = jn_view j"
    "geometry j1 = (jn_dev j, jn_start j, jn_blocks j, True)" by (auto simp: jn_view_def geometry_def)
  from put_header_ok [of dk 2, OF _ g, of h j1] 1(2) obtain j2 where 2: "put_header j1 ?h = (True, j2)" "jn_at dk 2 ?h j2"
    "jn_view j2 = (jn_view j1)(header_sector j1 := header_bytes ?h)" "geometry j2 = geometry j1" by (auto simp: numeral_3_eq_3)
  from bc_flush_ok [OF 2(2)] obtain dk' j3 where 3: "bc_flush j2 = (True, j3)" "jn_at dk' 3 ?h j3" "jn_view j3 = jn_view j2" "geometry j3 = geometry j2"
    by blast
  have "header_sector j1 = header_sector j" using 1(4) by (simp add: header_sector_def geometry_def)
  then show ?thesis using 1 2 3 assms(2,3) by (intro exI [of _ dk'] exI [of _ j3]) (simp add: journal_begin_def Let_def)
qed

lemma data_sector_ne: "i < MAX_ENTRIES \<Longrightarrow> (s :: u64) + 1 + word_of_nat i \<noteq> s"
proof
  assume i: "i < MAX_ENTRIES" and "s + 1 + word_of_nat i = s"
  then have "word_of_nat (Suc i) = (0 :: u64)" by (simp add: add.assoc)
  then have "unat (word_of_nat (Suc i) :: u64) = 0" by (metis unsigned_0)
  then show False using i by (simp add: unsigned_of_nat take_bit_nat_eq_self MAX_ENTRIES_def del: of_nat_Suc)
qed

lemma length_padded: "length (padded d) = SECTOR_SIZE"
  by (simp add: padded_def)

lemma write_ok:
  assumes j: "jn_at dk 3 h j" "jn_dev j \<noteq> 0xFF" "jn_active j" and i: "unat (jh_num_entries h) < capacity_for_blocks (jn_blocks j)"
    and t: "t \<le> 0xFFFFFFFF"
  defines "i \<equiv> unat (jh_num_entries h)"
  shows "\<exists>dk' j'. journal_write j t d = (True, j') \<and> jn_at dk' 3 (add_entry h i t) j' \<and> geometry j' = geometry j \<and>
    jn_view j' = (jn_view j)(Sector (jn_dev j) (jn_start j + 1 + word_of_nat i) := padded d, header_sector j := header_bytes (add_entry h i t))"
proof -
  let ?k = "Sector (jn_dev j) (jn_start j + 1 + word_of_nat i)" and ?h = "add_entry h i t"
  have im: "i < MAX_ENTRIES" using i by (simp add: i_def capacity_for_blocks_def)
  have g: "jh_magic ?h = JOURNAL_MAGIC" "length (jh_targets ?h) = MAX_ENTRIES" using j(1) by (auto simp: jn_at_def add_entry_def)
  from read_header_ok [OF j(1)] obtain j1 where 1: "read_header j = (Some h, j1)" "jn_at dk 3 h j1" "jn_view j1 = jn_view j" "geometry j1 = geometry j"
    by blast
  have s: "store_at dk (Suc 2) (jn_store j1)" using 1(2) by (simp add: jn_at_def)
  obtain st where st: "write_block (jn_store j1) ?k (padded d) = (True, st)" "view st = (view (jn_store j1))(?k := padded d)" "store_at dk 2 st"
    using cache.wr_ok [OF s length_padded, of ?k d] by (metis prod.collapse)
  let ?j = "j1\<lparr>jn_store := st\<rparr>"
  have hs: "header_sector ?j = header_sector j" "header_sector j1 = header_sector j" using 1(4) by (auto simp: header_sector_def geometry_def)
  have "?k \<noteq> header_sector j" using data_sector_ne [OF im] by (simp add: header_sector_def)
  then have "jn_at dk (Suc 1) h ?j" using 1(2) st(2,3) hs by (simp add: jn_at_def numeral_2_eq_2)
  from put_header_ok [OF this g] obtain j2 where 2: "put_header ?j ?h = (True, j2)" "jn_at dk 1 ?h j2"
    "jn_view j2 = (jn_view ?j)(header_sector j := header_bytes ?h)" "geometry j2 = geometry j" using hs 1(4) by (auto simp: geometry_def)
  from bc_flush_ok [OF 2(2)] obtain dk' j3 where 3: "bc_flush j2 = (True, j3)" "jn_at dk' 3 ?h j3" "jn_view j3 = jn_view j2" "geometry j3 = geometry j2"
    by blast
  have b: "data_block_for (jn_start j) (jn_blocks j) i = Some (jn_start j + 1 + word_of_nat i)" using i by (simp add: data_block_for_def i_def)
  have "journal_write j t d = (True, j3)"
    using j(2,3) 1(1) b st(1) t 2(1) 3(1) by (simp add: journal_write_def Let_def i_def [symmetric] linorder_not_less)
  moreover have "jn_view j3 = (jn_view j)(?k := padded d, header_sector j := header_bytes ?h)"
    using 3(3) 2(3) st(2) 1(3) by (simp add: jn_view_def)
  ultimately show ?thesis using 3(2,4) 2(4) by (intro exI [of _ dk'] exI [of _ j3]) simp
qed

lemma copied_other: "\<forall>p \<in> set ps. snd p \<noteq> k \<Longrightarrow> copied ps f k = f k"
  by (induction ps arbitrary: f) (auto simp: copied_def)

text \<open>The copying phase, with the writes it makes the device do.\<close>

lemma commit_copy_ok:
  assumes j: "jn_at dk 3 h j"
  defines "ps \<equiv> redo_pairs (jn_dev j) (jn_start j) (jn_blocks j) (replay_entry_limit (jh_num_entries h) (jn_blocks j)) (jh_targets h)"
  assumes ps: "length ps \<le> 3" "\<forall>p \<in> set ps. snd p \<noteq> header_sector j"
  shows "\<exists>pend j'. commit_copy j h = (True, j') \<and> jn_at (dk\<lparr>dk_log := dk_log dk @ pend\<rparr>) 3 h j' \<and> geometry j' = geometry j \<and>
    jn_view j' = copied ps (jn_view j) \<and> length pend \<le> length ps \<and> (\<forall>p \<in> set pend. snd p = jn_view j' (fst p))"
proof -
  have s: "store_at dk (length ps + (3 - length ps)) (jn_store j)" using j ps(1) by (simp add: jn_at_def)
  obtain st where st: "copy_sectors (\<lambda>st k. read_block st k SECTOR_SIZE) write_block ps (jn_store j) = (True, st)"
    "view st = copied ps (view (jn_store j))" "store_at dk (3 - length ps) st" using cache.copy_ok [OF s] by blast
  let ?j = "j\<lparr>jn_store := st\<rparr>" and ?p = "pending st [0..<CACHE_SIZE]"
  have "header_sector ?j = header_sector j" by (simp add: header_sector_def)
  then have jn: "jn_at dk (3 - length ps) h ?j" using j st(2,3) copied_other [OF ps(2), of "view (jn_store j)"] by (simp add: jn_at_def)
  from bc_flush_ok [OF jn] obtain j' where j': "bc_flush ?j = (True, j')" "jn_at (dk\<lparr>dk_log := dk_log dk @ ?p\<rparr>) 3 h j'"
    "jn_view j' = jn_view ?j" "geometry j' = geometry ?j" by auto
  have v: "jn_view j' = view st" using j'(3) by (simp add: jn_view_def)
  have "bc_inv st" "length (bs_entries st) = CACHE_SIZE" "dirty_count st \<le> length ps"
    using st(3) ps(1) by (auto simp: store_at_def bc_inv_def WAYS_def)
  then have "length ?p \<le> length ps" "\<forall>p \<in> set ?p. snd p = jn_view j' (fst p)" using length_pending [of st] pending_view [of st] v by auto
  moreover have "commit_copy j h = (True, j')" using st(1) j'(1) by (simp add: commit_copy_def ps_def)
  ultimately show ?thesis using j' v st(2) by (intro exI [of _ ?p] exI [of _ j']) (simp add: geometry_def jn_view_def)
qed

lemma commit_mark_ok:
  assumes j: "jn_at dk 3 h j"
  shows "\<exists>dk' j'. commit_mark j = (True, j') \<and> jn_at dk' 3 (h\<lparr>jh_state := JNL_STATE_COMMITTED\<rparr>) j' \<and> geometry j' = geometry j \<and>
    jn_view j' = (jn_view j)(header_sector j := header_bytes (h\<lparr>jh_state := JNL_STATE_COMMITTED\<rparr>))"
proof -
  let ?h = "h\<lparr>jh_state := JNL_STATE_COMMITTED\<rparr>"
  have g: "jh_magic ?h = JOURNAL_MAGIC" "length (jh_targets ?h) = MAX_ENTRIES" using j by (auto simp: jn_at_def)
  from read_header_ok [OF j] obtain j1 where 1: "read_header j = (Some h, j1)" "jn_at dk (Suc 2) h j1" "jn_view j1 = jn_view j" "geometry j1 = geometry j"
    by auto
  from put_header_ok [OF 1(2) g] obtain j2 where 2: "put_header j1 ?h = (True, j2)" "jn_at dk 2 ?h j2"
    "jn_view j2 = (jn_view j1)(header_sector j1 := header_bytes ?h)" "geometry j2 = geometry j1" by blast
  from bc_flush_ok [OF 2(2)] obtain dk' j3 where 3: "bc_flush j2 = (True, j3)" "jn_at dk' 3 ?h j3" "jn_view j3 = jn_view j2" "geometry j3 = geometry j2"
    by blast
  have "header_sector j1 = header_sector j" using 1(4) by (simp add: header_sector_def geometry_def)
  then show ?thesis using 1 2 3 by (intro exI [of _ dk'] exI [of _ j3]) (simp add: commit_mark_def)
qed

lemma commit_clear_ok:
  assumes j: "jn_at dk 3 h j"
  shows "\<exists>dk' j'. commit_clear j = (True, j') \<and> jn_at dk' 3 (h\<lparr>jh_num_entries := 0, jh_state := JNL_STATE_EMPTY\<rparr>) j' \<and> \<not> jn_active j' \<and>
    jn_view j' = (jn_view j)(header_sector j := header_bytes (h\<lparr>jh_num_entries := 0, jh_state := JNL_STATE_EMPTY\<rparr>))"
proof -
  let ?h = "h\<lparr>jh_num_entries := 0, jh_state := JNL_STATE_EMPTY\<rparr>"
  have g: "jh_magic ?h = JOURNAL_MAGIC" "length (jh_targets ?h) = MAX_ENTRIES" using j by (auto simp: jn_at_def)
  from read_header_ok [OF j] obtain j1 where 1: "read_header j = (Some h, j1)" "jn_at dk (Suc 2) h j1" "jn_view j1 = jn_view j" "geometry j1 = geometry j"
    by auto
  from put_header_ok [OF 1(2) g] obtain j2 where 2: "put_header j1 ?h = (True, j2)" "jn_at dk 2 ?h j2"
    "jn_view j2 = (jn_view j1)(header_sector j1 := header_bytes ?h)" "geometry j2 = geometry j1" by blast
  from bc_flush_ok [OF 2(2)] obtain dk' j3 where 3: "bc_flush j2 = (True, j3)" "jn_at dk' 3 ?h j3" "jn_view j3 = jn_view j2" "geometry j3 = geometry j2"
    by blast
  have "header_sector j1 = header_sector j" using 1(4) by (simp add: header_sector_def geometry_def)
  moreover have "jn_at dk' 3 ?h (j3\<lparr>jn_active := False\<rparr>)" using 3(2) by (simp add: jn_at_def header_sector_def)
  ultimately show ?thesis using 1 2 3
    by (intro exI [of _ dk'] exI [of _ "j3\<lparr>jn_active := False\<rparr>"]) (simp add: commit_clear_def jn_view_def)
qed

lemma commit_ok:
  assumes j: "jn_at dk 3 h j" "jn_dev j \<noteq> 0xFF" "jn_active j"
  defines "ps \<equiv> redo_pairs (jn_dev j) (jn_start j) (jn_blocks j) (replay_entry_limit (jh_num_entries h) (jn_blocks j)) (jh_targets h)"
  assumes ps: "length ps \<le> 3" "\<forall>p \<in> set ps. snd p \<noteq> header_sector j"
  defines "h' \<equiv> h\<lparr>jh_num_entries := 0, jh_state := JNL_STATE_EMPTY\<rparr>"
  shows "\<exists>dk' j'. journal_commit True True j = (True, j') \<and> jn_at dk' 3 h' j' \<and> \<not> jn_active j' \<and>
    jn_view j' = (copied ps (jn_view j))(header_sector j := header_bytes h')"
proof -
  from read_header_ok [OF j(1)] obtain j1 where 1: "read_header j = (Some h, j1)" "jn_at dk 3 h j1" "jn_view j1 = jn_view j" "geometry j1 = geometry j"
    by auto
  then have g1: "jn_dev j1 = jn_dev j" "jn_start j1 = jn_start j" "jn_blocks j1 = jn_blocks j" by (auto simp: geometry_def)
  have "redo_pairs (jn_dev j1) (jn_start j1) (jn_blocks j1) (replay_entry_limit (jh_num_entries h) (jn_blocks j1)) (jh_targets h) = ps"
    "header_sector j1 = header_sector j" using g1 by (simp_all add: ps_def header_sector_def)
  with commit_copy_ok [OF 1(2)] ps obtain dk2 j2 where 2: "commit_copy j1 h = (True, j2)" "jn_at dk2 3 h j2" "geometry j2 = geometry j1"
    "jn_view j2 = copied ps (jn_view j1)" by metis
  from commit_mark_ok [OF 2(2)] obtain dk3 j3 where 3: "commit_mark j2 = (True, j3)" "jn_at dk3 3 (h\<lparr>jh_state := JNL_STATE_COMMITTED\<rparr>) j3" "geometry j3 = geometry j2"
    "jn_view j3 = (jn_view j2)(header_sector j2 := header_bytes (h\<lparr>jh_state := JNL_STATE_COMMITTED\<rparr>))" by blast
  from commit_clear_ok [OF 3(2)] obtain dk4 j4 where 4: "commit_clear j3 = (True, j4)" "jn_at dk4 3 h' j4" "\<not> jn_active j4"
    "jn_view j4 = (jn_view j3)(header_sector j3 := header_bytes h')" by (auto simp: h'_def)
  have "header_sector j3 = header_sector j" "header_sector j2 = header_sector j" using 1(4) 2(3) 3(3) by (auto simp: header_sector_def geometry_def)
  then show ?thesis using j(2,3) 1(1,3) 2(1,4) 3(1,4) 4 by (intro exI [of _ dk4] exI [of _ j4]) (simp add: journal_commit_def)
qed

section \<open>A whole transaction\<close>

text \<open>A client that logs a list of blocks, and the redo block of an entry.\<close>

fun journal_writes :: "journal \<Rightarrow> (u64 \<times> bytes) list \<Rightarrow> bool \<times> journal" where
  "journal_writes j [] = (True, j)"
| "journal_writes j ((t, d) # tx) =
     (case journal_write j t d of (False, j1) \<Rightarrow> (False, j1) | (True, j1) \<Rightarrow> journal_writes j1 tx)"

definition redo_sector :: "u8 \<Rightarrow> u64 \<Rightarrow> nat \<Rightarrow> sector" where
  "redo_sector dev start i = Sector dev (start + 1 + word_of_nat i)"

lemma redo_sector_inj:
  assumes "a < MAX_ENTRIES" "b < MAX_ENTRIES"
  shows "redo_sector dev s a = redo_sector dev s b \<longleftrightarrow> a = b"
proof -
  have "unat (word_of_nat a :: u64) = a" "unat (word_of_nat b :: u64) = b"
    using assms by (simp_all add: MAX_ENTRIES_def unsigned_of_nat take_bit_nat_eq_self)
  then show ?thesis unfolding redo_sector_def by (metis add_left_cancel sector.inject)
qed

lemma redo_sector_header: "i < MAX_ENTRIES \<Longrightarrow> redo_sector dev s i \<noteq> Sector dev s"
  using data_sector_ne [of i s] by (simp add: redo_sector_def)

text \<open>The header and the redo blocks hold the transaction \<open>tx\<close>.\<close>

definition logged :: "u8 \<Rightarrow> u64 \<Rightarrow> (sector \<Rightarrow> bytes) \<Rightarrow> journal_header \<Rightarrow> (u64 \<times> bytes) list \<Rightarrow> bool" where
  "logged dev s v h tx \<longleftrightarrow> unat (jh_num_entries h) = length tx \<and>
     (\<forall>i < length tx. jh_targets h ! i = ucast (fst (tx ! i)) \<and> v (redo_sector dev s i) = padded (snd (tx ! i)))"

lemma logged_add:
  assumes lg: "logged dev s v h tx" and n: "length tx < MAX_ENTRIES" and l: "length (jh_targets h) = MAX_ENTRIES"
  shows "logged dev s (v(redo_sector dev s (length tx) := padded d, Sector dev s := b)) (add_entry h (length tx) t) (tx @ [(t, d)])"
proof -
  let ?n = "length tx" and ?v = "v(redo_sector dev s (length tx) := padded d, Sector dev s := b)"
  have "unat (jh_num_entries h) = ?n" using lg by (simp add: logged_def)
  then have "unat (jh_num_entries h + 1) = Suc ?n" using n by (subst unat_add_no_wrap) (simp_all add: MAX_ENTRIES_def)
  moreover have "jh_targets (add_entry h ?n t) ! i = ucast (fst ((tx @ [(t, d)]) ! i)) \<and> ?v (redo_sector dev s i) = padded (snd ((tx @ [(t, d)]) ! i))"
    if "i < Suc ?n" for i
  proof (cases "i = ?n")
    case True
    then show ?thesis using l n redo_sector_header [of ?n dev s] by (simp add: add_entry_def)
  next
    case False
    then have i: "i < ?n" "i < MAX_ENTRIES" using that n by auto
    then have "redo_sector dev s i \<noteq> redo_sector dev s ?n" "redo_sector dev s i \<noteq> Sector dev s" using redo_sector_inj redo_sector_header n by auto
    then show ?thesis using i lg by (simp add: logged_def add_entry_def nth_append)
  qed
  ultimately show ?thesis by (simp add: logged_def add_entry_def)
qed

lemma writes_ok:
  assumes "jn_at dk 3 h j" "geometry j = (dev, s, n, True)" "dev \<noteq> 0xFF" "length (old @ tx) \<le> capacity_for_blocks n"
    and "\<forall>x \<in> set tx. fst x \<le> 0xFFFFFFFF" "logged dev s (jn_view j) h old"
  shows "\<exists>dk' h' j'. journal_writes j tx = (True, j') \<and> jn_at dk' 3 h' j' \<and> geometry j' = (dev, s, n, True) \<and> jh_state h' = jh_state h \<and>
    logged dev s (jn_view j') h' (old @ tx) \<and>
    (\<forall>k. k \<noteq> Sector dev s \<and> (\<forall>i < length (old @ tx). k \<noteq> redo_sector dev s i) \<longrightarrow> jn_view j' k = jn_view j k)"
  using assms
proof (induction tx arbitrary: dk h j old)
  case Nil
  then show ?case by auto
next
  case (Cons x tx)
  obtain t d where x: "x = (t, d)" by (cases x)
  let ?n = "length old" and ?h = "add_entry h (length old) t"
  have g: "jn_dev j = dev" "jn_start j = s" "jn_blocks j = n" "jn_active j" "header_sector j = Sector dev s"
    using Cons.prems(2) by (auto simp: geometry_def header_sector_def)
  have n: "unat (jh_num_entries h) = ?n" "?n < capacity_for_blocks n" "?n < MAX_ENTRIES" "t \<le> 0xFFFFFFFF"
    using Cons.prems(4-6) x by (auto simp: logged_def capacity_for_blocks_def)
  obtain dk1 j1 where 1: "journal_write j t d = (True, j1)" "jn_at dk1 3 ?h j1" "geometry j1 = geometry j"
    "jn_view j1 = (jn_view j)(redo_sector dev s ?n := padded d, Sector dev s := header_bytes ?h)"
    using write_ok [OF Cons.prems(1), of t d] n g Cons.prems(3) by (auto simp: redo_sector_def)
  have "length (jh_targets h) = MAX_ENTRIES" using Cons.prems(1) by (simp add: jn_at_def)
  then have lg: "logged dev s (jn_view j1) ?h (old @ [x])" using logged_add [OF Cons.prems(6) n(3)] 1(4) x by simp
  have g1: "geometry j1 = (dev, s, n, True)" using 1(3) Cons.prems(2) by simp
  have c: "length ((old @ [x]) @ tx) \<le> capacity_for_blocks n" "\<forall>x \<in> set tx. fst x \<le> 0xFFFFFFFF" using Cons.prems(4,5) by auto
  from Cons.IH [OF 1(2) g1 Cons.prems(3) c lg] obtain dk' h' j' where 2: "journal_writes j1 tx = (True, j')" "jn_at dk' 3 h' j'"
    "geometry j' = (dev, s, n, True)" "jh_state h' = jh_state ?h" "logged dev s (jn_view j') h' (old @ x # tx)"
    "\<forall>k. k \<noteq> Sector dev s \<and> (\<forall>i < length (old @ x # tx). k \<noteq> redo_sector dev s i) \<longrightarrow> jn_view j' k = jn_view j1 k"
    by auto
  have "jn_view j' k = jn_view j k" if "k \<noteq> Sector dev s" "\<forall>i < length (old @ x # tx). k \<noteq> redo_sector dev s i" for k
    using 2(6) that 1(4) by simp
  then show ?case using 1(1) 2(1-5) x by (intro exI [of _ dk'] exI [of _ h'] exI [of _ j']) (simp add: add_entry_def)
qed

text \<open>What a transaction does to the blocks of the device; entries for block 0 are left out.\<close>

definition tx_apply :: "u8 \<Rightarrow> (u64 \<times> bytes) list \<Rightarrow> (sector \<Rightarrow> bytes) \<Rightarrow> sector \<Rightarrow> bytes" where
  "tx_apply dev tx = fold (\<lambda>(t, d) v. if t = 0 then v else v(Sector dev t := padded d)) tx"

definition in_journal :: "u8 \<Rightarrow> u64 \<Rightarrow> u64 \<Rightarrow> sector \<Rightarrow> bool" where
  "in_journal dev s n k \<longleftrightarrow> sec_dev k = dev \<and> sec_block k - s < n"

definition tx_fits :: "u8 \<Rightarrow> u64 \<Rightarrow> u64 \<Rightarrow> (u64 \<times> bytes) list \<Rightarrow> bool" where
  "tx_fits dev s n tx \<longleftrightarrow> dev \<noteq> 0xFF \<and> 0 < n \<and> length tx \<le> 3 \<and> length tx \<le> capacity_for_blocks n \<and>
     (\<forall>x \<in> set tx. fst x \<le> 0xFFFFFFFF \<and> \<not> in_journal dev s n (Sector dev (fst x)))"

lemma header_in_journal: "0 < n \<Longrightarrow> in_journal dev s n (Sector dev s)"
  by (simp add: in_journal_def)

lemma redo_in_journal: "i < capacity_for_blocks n \<Longrightarrow> in_journal dev s n (redo_sector dev s i)"
proof -
  assume i: "i < capacity_for_blocks n"
  then have "i < MAX_ENTRIES" "Suc i < unat n"
    by (auto simp: capacity_for_blocks_def saturating_sub_def unat_minus_one split: if_splits)
  moreover then have "unat (1 + word_of_nat i :: u64) = Suc i"
    by (simp add: MAX_ENTRIES_def unsigned_of_nat take_bit_nat_eq_self flip: of_nat_Suc)
  ultimately show ?thesis by (simp add: in_journal_def redo_sector_def word_less_nat_alt)
qed

lemma tx_apply_cases: "(\<forall>v. tx_apply dev tx v k = v k) \<or> (\<exists>b. \<forall>v. tx_apply dev tx v k = b)"
  by (induction tx rule: rev_induct) (auto simp: tx_apply_def split_beta)

lemma tx_apply_cong: "v k = w k \<Longrightarrow> tx_apply dev tx v k = tx_apply dev tx w k"
  using tx_apply_cases [of dev tx k] by auto

lemma tx_apply_idem: "tx_apply dev tx (tx_apply dev tx v) = tx_apply dev tx v"
  using tx_apply_cases [of dev tx] by (intro ext) metis

lemma tx_apply_other: "\<forall>x \<in> set tx. Sector dev (fst x) \<noteq> k \<Longrightarrow> tx_apply dev tx v k = v k"
  by (induction tx arbitrary: v) (auto simp: tx_apply_def)

lemma copied_fold:
  assumes "\<forall>i \<in> set is. \<forall>j \<in> set is. T j \<noteq> S i" "\<forall>i \<in> set is. f (S i) = D i"
  shows "copied (map (\<lambda>i. (S i, T i)) is) f = fold (\<lambda>i f. f(T i := D i)) is f"
  using assms
proof (induction "is" arbitrary: f)
  case (Cons a "is")
  have "copied (map (\<lambda>i. (S i, T i)) is) (f(T a := D a)) = fold (\<lambda>i f. f(T i := D i)) is (f(T a := D a))"
    using Cons.prems by (intro Cons.IH) auto
  moreover have "f (S a) = D a" using Cons.prems(2) by simp
  ultimately show ?case unfolding copied_def by (simp only: list.map fold_simps fst_conv snd_conv)
qed (simp add: copied_def)

lemma ucast_u32: "(t :: u64) \<le> 0xFFFFFFFF \<Longrightarrow> ucast (ucast t :: u32) = t"
proof -
  assume "t \<le> 0xFFFFFFFF"
  then have "unat t < 2 ^ 32" by (simp add: word_le_nat_alt)
  then have "unat (ucast (ucast t :: u32) :: u64) = unat t" by (simp add: unsigned_ucast_eq unsigned_take_bit_eq take_bit_nat_eq_self)
  then show ?thesis by (simp add: word_unat_eq_iff)
qed

lemma copied_tx:
  assumes fit: "tx_fits dev s n tx" and lg: "logged dev s v h tx" and ts: "\<forall>i < length tx. ts ! i = jh_targets h ! i"
  defines "ps \<equiv> redo_pairs dev s n (replay_entry_limit (jh_num_entries h) n) ts"
  shows "copied ps v = tx_apply dev tx v" "length ps \<le> length tx" "length ps \<le> 3" "\<forall>p \<in> set ps. snd p \<noteq> Sector dev s"
proof -
  let ?T = "\<lambda>i. Sector dev (fst (tx ! i))" and ?is = "filter (\<lambda>i. fst (tx ! i) \<noteq> 0) [0..<length tx]"
  have c: "length tx \<le> capacity_for_blocks n" "length tx \<le> 3" "0 < n" using fit by (auto simp: tx_fits_def)
  have t: "fst (tx ! i) \<le> 0xFFFFFFFF" "\<not> in_journal dev s n (?T i)" if "i < length tx" for i using fit that by (auto simp: tx_fits_def)
  have l: "replay_entry_limit (jh_num_entries h) n = length tx" using lg c(1) by (auto simp: logged_def replay_entry_limit_def capacity_for_blocks_def)
  have u: "ucast (ucast (fst (tx ! i)) :: u32) = fst (tx ! i)" if "i < length tx" for i
    using ucast_u32 [OF t(1) [OF that]] .
  have z: "(ts ! i \<noteq> 0) = (fst (tx ! i) \<noteq> 0)" "ucast (ts ! i) = fst (tx ! i)" if "i < length tx" for i
    using u [OF that] that lg ts by (auto simp: logged_def)
  have ps: "ps = map (\<lambda>i. (redo_sector dev s i, ?T i)) ?is"
    unfolding ps_def redo_pairs_def l using c(1) by (intro map_cong filter_cong) (auto simp: z data_block_for_def redo_sector_def)
  have ne: "?T j \<noteq> redo_sector dev s i" "?T j \<noteq> Sector dev s" if "i < length tx" "j < length tx" for i j
    using t(2) [OF that(2)] redo_in_journal [of i n dev s] header_in_journal [OF c(3)] that(1) c(1) by auto
  have "copied ps v = fold (\<lambda>i f. f(?T i := padded (snd (tx ! i)))) ?is v"
    unfolding ps by (rule copied_fold) (use ne lg in \<open>auto simp: logged_def\<close>)
  also have "\<dots> = fold (\<lambda>(t, d) v. if t = 0 then v else v(Sector dev t := padded d)) (map ((!) tx) [0..<length tx]) v"
    unfolding fold_filter fold_map by (rule fold_cong) (auto simp: fun_eq_iff split_beta)
  finally show "copied ps v = tx_apply dev tx v" by (simp add: tx_apply_def map_nth)
  show "length ps \<le> length tx" using length_filter_le [of "\<lambda>i. fst (tx ! i) \<noteq> 0" "[0..<length tx]"] unfolding ps by simp
  then show "length ps \<le> 3" using c(2) by simp
  show "\<forall>p \<in> set ps. snd p \<noteq> Sector dev s" using ne unfolding ps by auto
qed

text \<open>A clean cache: what it shows is what the device holds, before and after an entry is dropped.\<close>

lemma invalidate_store:
  assumes "store_at dk 3 st"
  shows "store_at dk 3 (snd (bc_invalidate st k))" "view (snd (bc_invalidate st k)) = view st"
proof -
  have "bc_inv st" "dirty_count st = 0" using assms by (auto simp: store_at_def WAYS_def)
  from invalidate_ok [OF this, of k] assms show "store_at dk 3 (snd (bc_invalidate st k))" "view (snd (bc_invalidate st k)) = view st"
    by (simp_all add: store_at_def)
qed

lemma init_ok:
  assumes st: "store_at dk 3 (jn_store j0)"
  shows "\<exists>dk' j'. journal_init j0 dev s n = (True, j') \<and> jn_at dk' 3 empty_header j' \<and> geometry j' = (dev, s, n, False) \<and>
    jn_view j' = (jn_view j0)(Sector dev s := header_bytes empty_header)"
proof -
  let ?j = "j0\<lparr>jn_dev := dev, jn_start := s, jn_blocks := n, jn_sequence := 0, jn_active := False\<rparr>"
  have e: "jh_magic empty_header = JOURNAL_MAGIC" "length (jh_targets empty_header) = MAX_ENTRIES" by (simp_all add: empty_header_def)
  have s3: "store_at dk (Suc 2) (jn_store j0)" using st by simp
  obtain st1 where 1: "write_block (jn_store j0) (Sector dev s) (header_bytes empty_header) = (True, st1)"
    "view st1 = (view (jn_store j0))(Sector dev s := header_bytes empty_header)" "store_at dk 2 st1"
    using cache.wr_ok [OF s3 length_header_bytes [OF e(2)], of "Sector dev s"] by (metis prod.collapse)
  from flush_store [OF 1(3)] obtain dk' st2 where 2: "flush_all st1 = (True, st2)" "store_at dk' 3 st2" "view st2 = view st1" by blast
  let ?j2 = "?j\<lparr>jn_store := snd (bc_invalidate st2 (Sector dev s))\<rparr>"
  have "journal_init j0 dev s n = (True, ?j2)"
    using 1(1) 2(1) by (simp add: journal_init_def put_header_def bc_flush_def header_sector_def Let_def)
  moreover have "jn_at dk' 3 empty_header ?j2" "jn_view ?j2 = (jn_view j0)(Sector dev s := header_bytes empty_header)"
    using invalidate_store [OF 2(2)] 1(2) 2(3) e by (auto simp: jn_at_def jn_view_def header_sector_def)
  ultimately show ?thesis by (intro exI [of _ dk'] exI [of _ ?j2]) (simp add: geometry_def)
qed

text \<open>Setting up the journal and logging a transaction, up to the commit.\<close>

lemma logging_ok:
  assumes "store_at dk 3 (jn_store j0)" and fit: "tx_fits dev s n tx"
  shows "\<exists>j1 j2 j3 dk' h. journal_init j0 dev s n = (True, j1) \<and> journal_begin j1 = (True, j2) \<and> journal_writes j2 tx = (True, j3) \<and>
    jn_at dk' 3 h j3 \<and> geometry j3 = (dev, s, n, True) \<and> jh_state h = JNL_STATE_ACTIVE \<and> logged dev s (jn_view j3) h tx \<and>
    (\<forall>k. \<not> in_journal dev s n k \<longrightarrow> jn_view j3 k = jn_view j0 k)"
proof -
  have f: "dev \<noteq> 0xFF" "0 < n" "length ([] @ tx) \<le> capacity_for_blocks n" "\<forall>x \<in> set tx. fst x \<le> 0xFFFFFFFF"
    using fit by (auto simp: tx_fits_def)
  let ?h = "empty_header\<lparr>jh_state := JNL_STATE_ACTIVE\<rparr>"
  from init_ok [OF assms(1)] obtain dk1 j1 where 1: "journal_init j0 dev s n = (True, j1)" "jn_at dk1 3 empty_header j1" "geometry j1 = (dev, s, n, False)"
    "jn_view j1 = (jn_view j0)(Sector dev s := header_bytes empty_header)" by blast
  have g: "jn_dev j1 = dev" "jn_start j1 = s" "jn_blocks j1 = n" "\<not> jn_active j1" using 1(3) by (auto simp: geometry_def)
  obtain dk2 j2 where 2: "journal_begin j1 = (True, j2)" "jn_at dk2 3 ?h j2" "jn_view j2 = (jn_view j1)(Sector dev s := header_bytes ?h)"
    "geometry j2 = (dev, s, n, True)" using begin_ok [OF 1(2)] g f(1) by (auto simp: header_sector_def)
  have "logged dev s (jn_view j2) ?h []" by (simp add: logged_def empty_header_def)
  from writes_ok [OF 2(2,4) f(1,3,4) this] obtain dk3 h j3 where 3: "journal_writes j2 tx = (True, j3)" "jn_at dk3 3 h j3"
    "geometry j3 = (dev, s, n, True)" "jh_state h = JNL_STATE_ACTIVE" "logged dev s (jn_view j3) h tx"
    "\<forall>k. k \<noteq> Sector dev s \<and> (\<forall>i < length tx. k \<noteq> redo_sector dev s i) \<longrightarrow> jn_view j3 k = jn_view j2 k" by auto
  have "jn_view j3 k = jn_view j0 k" if "\<not> in_journal dev s n k" for k
  proof -
    have "k \<noteq> Sector dev s" "\<forall>i < length tx. k \<noteq> redo_sector dev s i"
      using that header_in_journal [OF f(2), of dev s] redo_in_journal [of _ n dev s] f(3) by auto
    then show ?thesis using 3(6) 2(3) 1(4) by simp
  qed
  then show ?thesis using 1(1) 2(1) 3(1-5) by blast
qed

section \<open>Recovery\<close>

lemma header_fields:
  assumes "jh_magic h = JOURNAL_MAGIC" "length (jh_targets h) = MAX_ENTRIES"
  shows "le32_at (header_bytes h) 0 = JOURNAL_MAGIC" "le32_at (header_bytes h) 8 = jh_num_entries h" "le32_at (header_bytes h) 12 = jh_state h"
    "i < MAX_ENTRIES \<Longrightarrow> le32_at (header_bytes h) (20 + i * 4) = jh_targets h ! i"
proof -
  let ?b = "header_bytes h"
  have r: "parse_header ?b = Some h" by (rule header_roundtrip [OF assms])
  then show "le32_at ?b 0 = JOURNAL_MAGIC" by (simp add: parse_header_def split: if_splits)
  with r have h: "h = \<lparr>jh_magic = JOURNAL_MAGIC, jh_sequence = le32_at ?b 4, jh_num_entries = le32_at ?b 8,
        jh_state = le32_at ?b 12, jh_reserved = le32_at ?b 16, jh_targets = map (\<lambda>i. le32_at ?b (20 + i * 4)) [0..<MAX_ENTRIES]\<rparr>"
    by (simp add: parse_header_def)
  show "le32_at ?b 8 = jh_num_entries h" "le32_at ?b 12 = jh_state h" by (subst (2) h, simp)+
  show "i < MAX_ENTRIES \<Longrightarrow> le32_at ?b (20 + i * 4) = jh_targets h ! i" by (subst (2) h) simp
qed

lemma retire_header: "retire (header_bytes h) = header_bytes (h\<lparr>jh_state := JNL_STATE_EMPTY\<rparr>)"
  by (simp add: retire_def header_bytes_def)

lemma new_cache_store:
  assumes "all_usable dk" "\<forall>k. length (dk_content dk k) = SECTOR_SIZE"
  shows "store_at dk 3 (new_cache dk)"
proof -
  have "\<not> holds (new_cache dk) i k" for i k by (auto simp: holds_def new_cache_def)
  from view_miss [OF this] have "view (new_cache dk) k = dk_content dk k" for k by (simp add: new_cache_def)
  then show ?thesis using assms new_cache_inv [of dk] by (simp add: store_at_def WAYS_def new_cache_def)
qed

lemma replay_sectors_copy:
  "copy_sectors (\<lambda>st k. read_block st k SECTOR_SIZE) write_block ps st = (True, st') \<Longrightarrow> replay_sectors ps st = st'"
  by (induction ps arbitrary: st) (auto split: prod.splits option.splits bool.splits)

lemma replay_uncommitted:
  assumes st: "store_at dk 3 (jn_store j)" and h: "dk_content dk (Sector dev s) = header_bytes h" "jh_magic h = JOURNAL_MAGIC" "length (jh_targets h) = MAX_ENTRIES"
    and e: "jh_state h \<noteq> JNL_STATE_COMMITTED"
  shows "\<exists>j'. journal_replay j dev s n = (True, j') \<and> bs_disk (jn_store j') = dk"
proof -
  have "view (jn_store j) (Sector dev s) = header_bytes h" using clean_content [OF st] h(1) by simp
  then obtain st' where "read_block (jn_store j) (Sector dev s) SECTOR_SIZE = (Some (header_bytes h), st')" "store_at dk 3 st'"
    using cache.rd_ok [OF st, of "Sector dev s"] by (metis prod.collapse)
  then show ?thesis using header_fields [OF h(2,3)] e by (simp add: journal_replay_def store_at_def)
qed

lemma replay_committed:
  assumes st: "store_at dk 3 (jn_store j)" and fit: "tx_fits dev s n tx"
    and h: "dk_content dk (Sector dev s) = header_bytes h" "jh_magic h = JOURNAL_MAGIC" "length (jh_targets h) = MAX_ENTRIES"
    and c: "jh_state h = JNL_STATE_COMMITTED" and lg: "logged dev s (dk_content dk) h tx" and ne: "tx \<noteq> []"
  shows "\<exists>j'. journal_replay j dev s n = (True, j') \<and>
    dk_content (bs_disk (jn_store j')) = (tx_apply dev tx (dk_content dk))(Sector dev s := header_bytes (h\<lparr>jh_state := JNL_STATE_EMPTY\<rparr>))"
proof -
  have v: "view (jn_store j) = dk_content dk" using clean_content [OF st] by simp
  let ?b = "header_bytes h" and ?l = "replay_entry_limit (jh_num_entries h) n" and ?k = "Sector dev s"
  let ?ps = "redo_pairs dev s n ?l (map (\<lambda>i. le32_at ?b (20 + i * 4)) [0..<?l])"
  obtain st1 where 1: "read_block (jn_store j) ?k SECTOR_SIZE = (Some ?b, st1)" "view st1 = dk_content dk" "store_at dk 3 st1"
    using cache.rd_ok [OF st, of ?k] h(1) v by (metis prod.collapse)
  have l: "?l = length tx" "length tx \<le> MAX_ENTRIES" using lg fit by (auto simp: logged_def tx_fits_def replay_entry_limit_def capacity_for_blocks_def)
  have "\<forall>i < length tx. map (\<lambda>i. le32_at ?b (20 + i * 4)) [0..<?l] ! i = jh_targets h ! i" using header_fields(4) [OF h(2,3)] l by simp
  note ps = copied_tx [OF fit lg this]
  have s: "store_at dk (length ?ps + (3 - length ?ps)) st1" using 1(3) ps(3) by simp
  obtain st2 where 2: "replay_sectors ?ps st1 = st2" "view st2 = tx_apply dev tx (dk_content dk)" "store_at dk (3 - length ?ps) st2"
    using cache.copy_ok [OF s] replay_sectors_copy ps(1) 1(2) by metis
  obtain dk3 st3 where 3: "flush_all st2 = (True, st3)" "store_at dk3 (Suc 2) st3" "view st3 = view st2" using flush_store [OF 2(3)] by auto
  have r: "length (retire ?b) = SECTOR_SIZE" unfolding retire_header by (rule length_header_bytes) (simp add: h(3))
  obtain st4 where 4: "write_block st3 ?k (retire ?b) = (True, st4)" "view st4 = (view st3)(?k := retire ?b)" "store_at dk3 2 st4"
    using cache.wr_ok [OF 3(2) r, of ?k] by (metis prod.collapse)
  obtain dk5 st5 where 5: "flush_all st4 = (True, st5)" "store_at dk5 3 st5" "view st5 = view st4" using flush_store [OF 4(3)] by auto
  let ?st = "snd (bc_invalidate st5 ?k)"
  have "journal_replay j dev s n = (True, \<lparr>jn_store = ?st, jn_dev = dev, jn_start = s, jn_blocks = n, jn_sequence = 0, jn_active = False\<rparr>)"
    using 1(1) header_fields [OF h(2,3)] c l(1) ne 2(1) 3(1) 4(1) 5(1) by (simp add: journal_replay_def Let_def)
  moreover have "dk_content (bs_disk ?st) = view ?st" using clean_content invalidate_store(1) [OF 5(2), of ?k] by (auto simp: store_at_def)
  ultimately show ?thesis using invalidate_store(2) [OF 5(2), of ?k] 5(3) 4(2) 3(3) 2(2) by (simp add: retire_header)
qed

end
