(* ===== verification/JournalSafety.thy ===== *)
theory JournalSafety
  imports Journal
begin

text \<open>
  Properties of the redo journal of \<^verbatim>\<open>crates/zenus-fs/src/journal.rs\<close>: what a transaction does to the device,
  what recovery does, and where a crash leaves half a transaction.
\<close>

section \<open>Properties\<close>


definition blank_journal :: "disk \<Rightarrow> journal" where
  "blank_journal dk = \<lparr>jn_store = new_cache dk, jn_dev = 0xFF, jn_start = 0, jn_blocks = 0, jn_sequence = 0, jn_active = False\<rparr>"

lemma blank_store: "store_at blank_disk 3 (jn_store (blank_journal blank_disk))"
  using new_cache_store [OF blank_disk_usable] by (simp add: blank_journal_def blank_disk_def dk_content_def)

lemma sample_fits: "tx_fits 0 100 16 [(5, [1, 2]), (9, [3])]"
  by (simp add: tx_fits_def capacity_for_blocks_def saturating_sub_def MAX_ENTRIES_def in_journal_def)



definition committed_header :: journal_header where
  "committed_header = empty_header\<lparr>jh_num_entries := 1, jh_state := JNL_STATE_COMMITTED, jh_targets := (replicate MAX_ENTRIES 0)[0 := 5]\<rparr>"

definition committed_disk :: disk where
  "committed_disk = blank_disk\<lparr>dk_log := [(Sector 0 100, header_bytes committed_header), (Sector 0 101, padded [7])]\<rparr>"

lemma committed_content: "dk_content committed_disk =
  (\<lambda>_. replicate SECTOR_SIZE 0)(Sector 0 100 := header_bytes committed_header, Sector 0 101 := padded [7])"
  by (simp add: committed_disk_def blank_disk_def dk_content_def)


lemma updates_other: "k \<notin> fst ` set l \<Longrightarrow> fold (\<lambda>(k, v) f. f(k := v)) l f k = f k"
  by (induction l arbitrary: f) auto

text \<open>
  A list of updates that changes two sectors and is no longer than two updates each of them once.
\<close>

lemma two_updates:
  assumes "fold (\<lambda>(k, v) f. f(k := v)) l f a \<noteq> f a" "fold (\<lambda>(k, v) f. f(k := v)) l f b \<noteq> f b" "a \<noteq> b" "length l \<le> 2"
  shows "\<exists>x y l'. l = (x, y) # l' \<and> x \<in> {a, b}"
proof -
  have ab: "a \<in> fst ` set l" "b \<in> fst ` set l" using updates_other [of a l f] updates_other [of b l f] assms(1,2) by blast+
  then obtain x y l' where l: "l = (x, y) # l'" by (cases l) auto
  have "length l' \<le> 1" using assms(4) l by simp
  then show ?thesis using l ab assms(3) by (cases l') auto
qed

lemma jn_content: "jn_at dk 3 h j \<Longrightarrow> dk_content dk = jn_view j"
  using clean_content by (auto simp: jn_at_def jn_view_def)

lemma jn_length: "jn_at dk n h j \<Longrightarrow> length (jn_view j k) = SECTOR_SIZE"
  by (simp add: jn_at_def jn_view_def store_at_def)

text \<open>Recovery after a crash that lets one more sector, not the header, reach the device.\<close>

lemma crash_replay:
  assumes at: "jn_at dk 3 h j" and g: "geometry j = (dev, s, n, a)"
    and x: "x \<noteq> Sector dev s" "length y = SECTOR_SIZE" "jh_state h \<noteq> JNL_STATE_COMMITTED"
  defines "crash \<equiv> dk\<lparr>dk_log := dk_log dk @ [(x, y)]\<rparr>"
  shows "\<exists>j'. journal_replay (jc\<lparr>jn_store := new_cache crash\<rparr>) dev s n = (True, j') \<and> bs_disk (jn_store j') = crash"
proof -
  have h: "jn_view j (Sector dev s) = header_bytes h" "jh_magic h = JOURNAL_MAGIC" "length (jh_targets h) = MAX_ENTRIES" "all_usable dk"
    using at g by (auto simp: jn_at_def store_at_def jn_view_def geometry_def header_sector_def)
  have c: "dk_content crash = (jn_view j)(x := y)" using jn_content [OF at] by (simp add: crash_def content_write)
  then have "store_at crash 3 (new_cache crash)" using jn_length [OF at] x(2) h(4) by (intro new_cache_store) (simp_all add: crash_def)
  then have "store_at crash 3 (jn_store (jc\<lparr>jn_store := new_cache crash\<rparr>))" by simp
  from replay_uncommitted [OF this _ h(2,3) x(3), of dev s n] c h(1) x(1) show ?thesis by simp
qed

text \<open>
  C38: The commit writes the targets before the journal says committed, and recovery ignores a journal that says
  active. So for a transaction of two blocks that changes both targets there is a point during the commit at which the device
  holds one of the two only, and recovery from a crash there succeeds without changing anything: the transaction is torn.
\<close>

theorem journal_commit_torn:
  assumes "store_at dk 3 (jn_store j0)" "tx_fits dev s n [(t1, d1), (t2, d2)]" "t1 \<noteq> 0" "t2 \<noteq> 0" "t1 \<noteq> t2"
    and "dk_content dk (Sector dev t1) \<noteq> padded d1" "dk_content dk (Sector dev t2) \<noteq> padded d2"
  shows "\<exists>j1 j2 j3 j4 m crash. journal_init j0 dev s n = (True, j1) \<and> journal_begin j1 = (True, j2) \<and>
    journal_writes j2 [(t1, d1), (t2, d2)] = (True, j3) \<and> journal_commit False False j3 = (False, j4) \<and>
    crash = (bs_disk (jn_store j4))\<lparr>dk_log := take m (dk_log (bs_disk (jn_store j4)))\<rparr> \<and>
    (dk_content crash (Sector dev t1) = padded d1) \<noteq> (dk_content crash (Sector dev t2) = padded d2) \<and>
    (\<exists>j5. journal_replay (j4\<lparr>jn_store := new_cache crash\<rparr>) dev s n = (True, j5) \<and> bs_disk (jn_store j5) = crash)"
proof -
  let ?tx = "[(t1, d1), (t2, d2)]" and ?a = "Sector dev t1" and ?b = "Sector dev t2"
  obtain j1 j2 j3 dk' h where 1: "journal_init j0 dev s n = (True, j1)" "journal_begin j1 = (True, j2)" "journal_writes j2 ?tx = (True, j3)"
    "jn_at dk' 3 h j3" "geometry j3 = (dev, s, n, True)" "jh_state h = JNL_STATE_ACTIVE" "logged dev s (jn_view j3) h ?tx"
    "\<forall>k. \<not> in_journal dev s n k \<longrightarrow> jn_view j3 k = jn_view j0 k" using logging_ok [OF assms(1,2)] by blast
  have f: "dev \<noteq> 0xFF" "\<not> in_journal dev s n ?a" "\<not> in_journal dev s n ?b" "in_journal dev s n (Sector dev s)"
    using assms(2) header_in_journal by (auto simp: tx_fits_def)
  obtain j3' where 2: "read_header j3 = (Some h, j3')" "jn_at dk' 3 h j3'" "jn_view j3' = jn_view j3" "geometry j3' = geometry j3"
    using read_header_ok [OF 1(4)] by blast
  have g: "jn_dev j3 = dev" "jn_active j3" "jn_dev j3' = dev" "jn_start j3' = s" "jn_blocks j3' = n" "header_sector j3' = Sector dev s"
    using 1(5) 2(4) by (auto simp: geometry_def header_sector_def)
  note ps = copied_tx [OF assms(2) 1(7), of "jh_targets h"]
  obtain pend j4 where 4: "commit_copy j3' h = (True, j4)" "jn_at (dk'\<lparr>dk_log := dk_log dk' @ pend\<rparr>) 3 h j4"
    "jn_view j4 = tx_apply dev ?tx (jn_view j3)" "length pend \<le> 2" "\<forall>p \<in> set pend. snd p = jn_view j4 (fst p)"
    using commit_copy_ok [OF 2(2)] g ps 2(3) by fastforce
  have c: "journal_commit False False j3 = (False, j4)" using 2(1) 4(1) g(1,2) f(1) by (simp add: journal_commit_def)
  have v: "dk_content dk' = jn_view j3" "dk_content dk = jn_view j0" "fold (\<lambda>(k, v) f. f(k := v)) pend (jn_view j3) = jn_view j4"
    using jn_content [OF 1(4)] jn_content [OF 4(2)] clean_content [OF assms(1)] by (simp_all add: jn_view_def dk_content_def)
  have new: "jn_view j4 ?a = padded d1" "jn_view j4 ?b = padded d2" using 4(3) assms(3-5) by (simp_all add: tx_apply_def)
  have old: "jn_view j3 ?a \<noteq> padded d1" "jn_view j3 ?b \<noteq> padded d2" using 1(8) f(2,3) assms(6,7) v(2) by auto
  have "\<exists>x y l'. pend = (x, y) # l' \<and> x \<in> {?a, ?b}"
    by (rule two_updates [of _ "jn_view j3"]) (use v(3) new old assms(5) 4(4) in auto)
  then obtain x y l' where x: "pend = (x, y) # l'" "x \<in> {?a, ?b}" "y = jn_view j4 x" using 4(5) by auto
  let ?crash = "dk'\<lparr>dk_log := dk_log dk' @ [(x, y)]\<rparr>"
  have "dk_content ?crash = (jn_view j3)(x := y)" using v(1) by (simp add: content_write)
  then have "(dk_content ?crash ?a = padded d1) \<noteq> (dk_content ?crash ?b = padded d2)" using x(2,3) new old assms(5) by auto
  moreover have "bs_disk (jn_store j4) = dk'\<lparr>dk_log := dk_log dk' @ pend\<rparr>" using 4(2) by (simp add: jn_at_def store_at_def)
  then have "?crash = (bs_disk (jn_store j4))\<lparr>dk_log := take (Suc (length (dk_log dk'))) (dk_log (bs_disk (jn_store j4)))\<rparr>"
    using x(1) by simp
  moreover have "x \<noteq> Sector dev s" using x(2) f(2-4) by auto
  then have "\<exists>j5. journal_replay (j4\<lparr>jn_store := new_cache ?crash\<rparr>) dev s n = (True, j5) \<and> bs_disk (jn_store j5) = ?crash"
    using crash_replay [OF 1(4,5), of x y] 1(6) x(3) jn_length [OF 4(2)] by (simp add: JNL_STATE_ACTIVE_def JNL_STATE_COMMITTED_def)
  ultimately show ?thesis using 1(1-3) c by blast
qed

theorem journal_commit_torn_witness:
  "\<exists>j1 j2 j3 j4 m crash. journal_init (blank_journal blank_disk) 0 100 16 = (True, j1) \<and> journal_begin j1 = (True, j2) \<and>
     journal_writes j2 [(5, [1, 2]), (9, [3])] = (True, j3) \<and> journal_commit False False j3 = (False, j4) \<and>
     crash = (bs_disk (jn_store j4))\<lparr>dk_log := take m (dk_log (bs_disk (jn_store j4)))\<rparr> \<and>
     (dk_content crash (Sector 0 5) = padded [1, 2]) \<noteq> (dk_content crash (Sector 0 9) = padded [3]) \<and>
     (\<exists>j5. journal_replay (j4\<lparr>jn_store := new_cache crash\<rparr>) 0 100 16 = (True, j5) \<and> bs_disk (jn_store j5) = crash)"
proof -
  have "dk_content blank_disk k ! 0 \<noteq> padded [1, 2] ! 0" "dk_content blank_disk k ! 0 \<noteq> padded [3] ! 0" for k
    by (simp_all add: blank_disk_def dk_content_def padded_def SECTOR_SIZE_def)
  then have "dk_content blank_disk (Sector 0 5) \<noteq> padded [1, 2]" "dk_content blank_disk (Sector 0 9) \<noteq> padded [3]" by metis+
  from journal_commit_torn [OF blank_store sample_fits _ _ _ this] show ?thesis by simp
qed

end
