(* ===== verification/Paging.thy ===== *)
theory Paging
  imports FrameSafety
begin

text \<open>
  The page tables, \<^verbatim>\<open>crates/zenus-mem/src/paging.rs\<close>, a client of the frame allocator.

  Physical memory is an array of frames of 512 words, addressed by the base of the frame and an index. The kernel reaches
  it through the direct map at \<open>hhdm_offset\<close>, so a pointer \<open>(base + hhdm) as *mut u64\<close> with \<open>.add(i)\<close> is the word \<open>i\<close>
  of the frame \<open>base\<close>; every base is masked to a page boundary before it is used. TLB maintenance is not part of the state.
\<close>

unbundle bit_operations_syntax

type_synonym frame_mem = "u64 \<Rightarrow> nat \<Rightarrow> u64"

record machine =
  mc_frames :: frame_allocator
  mc_mem :: frame_mem
  mc_hhdm :: u64
  mc_level4 :: u64
  mc_kernel_cr3 :: u64
  mc_cr3 :: u64
  mc_freed :: "u64 list"
  mc_freed_count :: u64

definition ADDR_MASK :: u64 where
  "ADDR_MASK = 0x000FFFFFFFFFF000"

definition MAX_FREED_CR3 :: nat where
  "MAX_FREED_CR3 = 64"

definition write_entry :: "machine \<Rightarrow> u64 \<Rightarrow> nat \<Rightarrow> u64 \<Rightarrow> machine" where
  "write_entry mc table i v = mc\<lparr>mc_mem := (mc_mem mc)(table := (mc_mem mc table)(i := v))\<rparr>"

definition fill_page :: "machine \<Rightarrow> u64 \<Rightarrow> (nat \<Rightarrow> u64) \<Rightarrow> machine" where
  "fill_page mc frame c = mc\<lparr>mc_mem := (mc_mem mc)(frame := c)\<rparr>"

definition take_frame :: "machine \<Rightarrow> u64 option \<times> machine" where
  "take_frame mc = (case alloc_frame (mc_frames mc) of (r, fa) \<Rightarrow> (r, mc\<lparr>mc_frames := fa\<rparr>))"

definition release_frame :: "u64 \<Rightarrow> machine \<Rightarrow> machine" where
  "release_frame p mc = mc\<lparr>mc_frames := free_frame (mc_frames mc) p\<rparr>"

definition paging_init :: "machine \<Rightarrow> u64 \<Rightarrow> machine" where
  "paging_init mc hhdm_offset = mc\<lparr>mc_hhdm := hhdm_offset, mc_level4 := page_down (mc_cr3 mc), mc_kernel_cr3 := mc_cr3 mc\<rparr>"

text \<open>The four nested loops that clear the user bit, from level 3 (PML4) down to level 0 (page table).\<close>

primrec clear_user_level :: "nat \<Rightarrow> u64 \<Rightarrow> machine \<Rightarrow> machine" where
  "clear_user_level 0 table mc =
     fold (\<lambda>i mc. let e = mc_mem mc table i
       in if e AND 1 = 0 then mc else write_entry mc table i (e AND NOT 4)) [0..<512] mc"
| "clear_user_level (Suc n) table mc =
     fold (\<lambda>i mc. let e = mc_mem mc table i
       in if e AND 1 = 0 then mc
          else let mc1 = write_entry mc table i (e AND NOT 4)
          in if e AND 0x80 \<noteq> 0 then mc1 else clear_user_level n (e AND ADDR_MASK) mc1) [0..<512] mc"

definition ensure_kernel_pages_supervisor :: "machine \<Rightarrow> machine" where
  "ensure_kernel_pages_supervisor mc =
     (if mc_hhdm mc = 0 then mc
      else let cr3_phys = page_down (mc_kernel_cr3 mc)
      in if cr3_phys = 0 then mc else clear_user_level 3 cr3_phys mc)"

section \<open>Walks\<close>

definition paging_levels :: "(nat \<times> nat) list" where
  "paging_levels = [(4, 39), (3, 30), (2, 21), (1, 12)]"

definition entry_index :: "nat \<Rightarrow> u64 \<Rightarrow> nat" where
  "entry_index shift virt = unat (drop_bit shift virt AND 0x1FF)"

fun virt_to_phys_walk :: "frame_mem \<Rightarrow> (nat \<times> nat) list \<Rightarrow> u64 \<Rightarrow> u64 \<Rightarrow> u64 option" where
  "virt_to_phys_walk mem [] table virt = None"
| "virt_to_phys_walk mem ((level, shift) # ls) table virt =
     (let entry = mem table (entry_index shift virt)
      in if entry AND 1 = 0 then None
         else if entry AND 0x80 \<noteq> 0 \<and> level > 1 then
           (let page_bits = entry AND 0x000FFFFFFFFFFFFF;
                huge_mask = NOT (push_bit shift 1 - 1)
            in Some ((page_bits AND huge_mask) OR (virt AND NOT huge_mask)))
         else let next = entry AND ADDR_MASK
         in if level = 1 then Some (next OR (virt AND 0xFFF)) else virt_to_phys_walk mem ls next virt)"

definition virt_to_phys_raw :: "machine \<Rightarrow> u64 \<Rightarrow> u64 \<Rightarrow> u64 option" where
  "virt_to_phys_raw mc cr3_raw virt = virt_to_phys_walk (mc_mem mc) paging_levels (page_down cr3_raw) virt"

definition protect_entry :: "u64 \<Rightarrow> bool \<Rightarrow> bool \<Rightarrow> u64" where
  "protect_entry entry writable executable =
     (let e0 = entry AND NOT (push_bit 1 1) AND NOT (push_bit 63 1);
          e1 = (if writable then e0 OR push_bit 1 1 else e0)
      in if \<not> executable then e1 OR push_bit 63 1 else e1)"

fun protect_walk :: "(nat \<times> nat) list \<Rightarrow> u64 \<Rightarrow> u64 \<Rightarrow> bool \<Rightarrow> bool \<Rightarrow> machine \<Rightarrow> bool \<times> machine" where
  "protect_walk [] table virt writable executable mc = (False, mc)"
| "protect_walk ((level, shift) # ls) table virt writable executable mc =
     (let idx = entry_index shift virt; entry = mc_mem mc table idx
      in if entry AND 1 = 0 then (False, mc)
         else if level = 1 then (True, write_entry mc table idx (protect_entry entry writable executable))
         else protect_walk ls (entry AND ADDR_MASK) virt writable executable mc)"

definition protect_page_raw :: "machine \<Rightarrow> u64 \<Rightarrow> u64 \<Rightarrow> bool \<Rightarrow> bool \<Rightarrow> bool \<times> machine" where
  "protect_page_raw mc cr3_raw virt writable executable =
     protect_walk paging_levels (page_down cr3_raw) virt writable executable mc"

definition split_indices :: "u64 \<Rightarrow> nat list" where
  "split_indices virt = map (\<lambda>shift. entry_index shift virt) [39, 30, 21, 12]"

text \<open>The slot of the leaf entry, when every entry on the way and the leaf are present.\<close>

fun leaf_slot :: "frame_mem \<Rightarrow> nat list \<Rightarrow> u64 \<Rightarrow> (u64 \<times> nat) option" where
  "leaf_slot mem [] table = None"
| "leaf_slot mem (i # is) table =
     (let entry = mem table i
      in if entry AND 1 = 0 then None
         else if is = [] then Some (table, i)
         else leaf_slot mem is (entry AND ADDR_MASK))"

definition unmap_page_raw_keep_frame :: "machine \<Rightarrow> u64 \<Rightarrow> u64 \<Rightarrow> bool \<times> machine" where
  "unmap_page_raw_keep_frame mc cr3_raw virt =
     (case leaf_slot (mc_mem mc) (split_indices virt) (page_down cr3_raw) of
        None \<Rightarrow> (False, mc)
      | Some (table, i) \<Rightarrow> (True, write_entry mc table i 0))"

definition unmap_page_raw :: "machine \<Rightarrow> u64 \<Rightarrow> u64 \<Rightarrow> bool \<times> machine" where
  "unmap_page_raw mc cr3_raw virt =
     (case leaf_slot (mc_mem mc) (split_indices virt) (page_down cr3_raw) of
        None \<Rightarrow> (False, mc)
      | Some (table, i) \<Rightarrow>
          (True, release_frame (mc_mem mc table i AND ADDR_MASK) (write_entry mc table i 0)))"

section \<open>Address spaces\<close>

definition create_address_space :: "machine \<Rightarrow> u64 option \<times> machine" where
  "create_address_space mc =
     (case take_frame mc of
        (None, mc1) \<Rightarrow> (None, mc1)
      | (Some f, mc1) \<Rightarrow>
          (Some (f OR (mc_cr3 mc AND 0x18)),
           fill_page mc1 f (\<lambda>i. if i < 256 then 0 else mc_mem mc1 (mc_level4 mc) i)))"

text \<open>
  The four nested loops of \<open>clone_user_address_space\<close>: at each level the present entries of the source table are cloned one
  after the other and linked into the new table. A failed allocation ends everything at once.
\<close>

fun clone_entries :: "(u64 \<Rightarrow> machine \<Rightarrow> u64 option \<times> machine) \<Rightarrow> u64 \<Rightarrow> u64 \<Rightarrow> nat list \<Rightarrow> machine \<Rightarrow> bool \<times> machine" where
  "clone_entries clone dst src [] mc = (True, mc)"
| "clone_entries clone dst src (i # is) mc =
     (let e = mc_mem mc src i
      in if e AND 1 = 0 then clone_entries clone dst src is mc
         else (case clone e mc of
                 (None, mc1) \<Rightarrow> (False, mc1)
               | (Some e', mc1) \<Rightarrow> clone_entries clone dst src is (write_entry mc1 dst i e')))"

definition clone_table :: "(u64 \<Rightarrow> machine \<Rightarrow> u64 option \<times> machine) \<Rightarrow> u64 \<Rightarrow> machine \<Rightarrow> u64 option \<times> machine" where
  "clone_table clone e mc =
     (case take_frame mc of
        (None, mc1) \<Rightarrow> (None, mc1)
      | (Some f, mc1) \<Rightarrow>
          (let new = page_down f
           in case clone_entries clone new (e AND ADDR_MASK) [0..<512] (fill_page mc1 new (\<lambda>_. 0)) of
                (False, mc2) \<Rightarrow> (None, mc2)
              | (True, mc2) \<Rightarrow> (Some (page_down new OR (e AND 0xFFF AND 0xFFF AND NOT 1) OR 1), mc2)))"

definition clone_page :: "u64 \<Rightarrow> machine \<Rightarrow> u64 option \<times> machine" where
  "clone_page e mc =
     (if e AND 2 \<noteq> 0 then
        (case take_frame mc of
           (None, mc1) \<Rightarrow> (None, mc1)
         | (Some f, mc1) \<Rightarrow>
             (Some (page_down f OR (e AND 0xFFF)), fill_page mc1 f (mc_mem mc1 (e AND ADDR_MASK))))
      else (Some e, mc))"

definition clone_pt :: "u64 \<Rightarrow> machine \<Rightarrow> u64 option \<times> machine" where
  "clone_pt = clone_table clone_page"

definition clone_pd :: "u64 \<Rightarrow> machine \<Rightarrow> u64 option \<times> machine" where
  "clone_pd = clone_table clone_pt"

definition clone_pdpt :: "u64 \<Rightarrow> machine \<Rightarrow> u64 option \<times> machine" where
  "clone_pdpt = clone_table clone_pd"

definition clone_user_address_space :: "machine \<Rightarrow> u64 \<Rightarrow> u64 option \<times> machine" where
  "clone_user_address_space mc source_cr3_raw =
     (case take_frame mc of
        (None, mc1) \<Rightarrow> (None, mc1)
      | (Some f, mc1) \<Rightarrow>
          (let new = page_down f;
               kernel = page_down (mc_kernel_cr3 mc);
               mc2 = fill_page mc1 new (\<lambda>i. if i < 256 then 0 else mc_mem mc1 kernel (i - 256))
           in case clone_entries clone_pdpt new (page_down source_cr3_raw) [0..<256] mc2 of
                (False, mc3) \<Rightarrow> (None, mc3)
              | (True, mc3) \<Rightarrow> (Some (new OR (source_cr3_raw AND 0x18)), mc3)))"

definition is_already_freed :: "machine \<Rightarrow> u64 \<Rightarrow> bool" where
  "is_already_freed mc cr3_phys = (cr3_phys \<in> set (take (min (unat (mc_freed_count mc)) MAX_FREED_CR3) (mc_freed mc)))"

definition mark_freed :: "machine \<Rightarrow> u64 \<Rightarrow> machine" where
  "mark_freed mc cr3_phys =
     (let idx = unat (mc_freed_count mc); mc1 = mc\<lparr>mc_freed_count := mc_freed_count mc + 1\<rparr>
      in if idx < MAX_FREED_CR3 then mc1\<lparr>mc_freed := (mc_freed mc)[idx := cr3_phys]\<rparr> else mc1)"

text \<open>How many frames the code frees for an entry with the huge bit, at the PML4, the PDPT and the PD.\<close>

definition huge_frames :: "nat \<Rightarrow> nat" where
  "huge_frames level = (if level = 3 then 262144 else if level = 2 then 512 else 1)"

definition release_range :: "u64 \<Rightarrow> nat \<Rightarrow> machine \<Rightarrow> machine" where
  "release_range base n mc = fold (\<lambda>i. release_frame (base + word_of_nat i * PAGE_SIZE)) [0..<n] mc"

primrec destroy_level :: "nat \<Rightarrow> nat \<Rightarrow> u64 \<Rightarrow> machine \<Rightarrow> machine" where
  "destroy_level 0 n table mc =
     fold (\<lambda>i mc. let e = mc_mem mc table i
       in if e AND 1 = 0 then mc else release_frame (e AND ADDR_MASK) mc) [0..<n] mc"
| "destroy_level (Suc l) n table mc =
     fold (\<lambda>i mc. let e = mc_mem mc table i; next = e AND ADDR_MASK
       in if e AND 1 = 0 then mc
          else if e AND 0x80 \<noteq> 0 then release_range next (huge_frames (Suc l)) mc
          else release_frame next (destroy_level l 512 next mc)) [0..<n] mc"

definition destroy_address_space :: "machine \<Rightarrow> u64 \<Rightarrow> machine" where
  "destroy_address_space mc cr3_raw =
     (let cr3_phys = page_down cr3_raw; kernel = page_down (mc_kernel_cr3 mc)
      in if cr3_phys = kernel \<or> cr3_phys = 0 \<or> is_already_freed mc cr3_phys then mc
         else let mc1 = mark_freed mc cr3_phys;
                  mc2 = (if cr3_phys = page_down (mc_cr3 mc) then mc1\<lparr>mc_cr3 := kernel\<rparr> else mc1)
         in release_frame cr3_phys (destroy_level 3 256 cr3_phys mc2))"

end
