(* ===== verification/PagingSafety.thy ===== *)
theory PagingSafety
  imports Paging
begin

text \<open>
  Properties of the page tables of \<^verbatim>\<open>crates/zenus-mem/src/paging.rs\<close>: what a process sees of its memory after a fork.
\<close>

section \<open>Entries\<close>

abbreviation present :: "u64 \<Rightarrow> bool" where
  "present e \<equiv> e AND 1 \<noteq> 0"

lemma present_bit: "present e \<longleftrightarrow> bit e 0"
  by (simp add: and_one_eq mod2_eq_if bit_0)

lemma frame_mask:
  assumes "4096 dvd unat f" "unat f + 4096 \<le> PHYS_LIMIT"
  shows "f AND ADDR_MASK = f" "page_down f = f"
proof -
  have "unat f div 4096 * 4096 = unat f" using assms(1) by simp
  then show d: "page_down f = f" by (simp add: word_unat_eq_iff unat_page_down)
  have "unat f < 2 ^ 52" using assms(2) by (simp add: PHYS_LIMIT_def)
  then have "take_bit 52 f = f" by (simp add: word_unat_eq_iff unsigned_take_bit_eq take_bit_nat_eq_self)
  moreover have "f AND ADDR_MASK = take_bit 52 (page_down f)"
    by (simp add: page_down_def ADDR_MASK_def take_bit_eq_mask mask_numeral and.assoc)
  ultimately show "f AND ADDR_MASK = f" using d by simp
qed

lemma frame_bits:
  assumes "4096 dvd unat f" "unat f + 4096 \<le> PHYS_LIMIT"
  shows "f AND (0xFFF :: u64) = 0"
proof -
  have "f AND 0xFFF = (f AND ADDR_MASK) AND 0xFFF" using frame_mask(1) [OF assms] by simp
  then show ?thesis by (simp add: ADDR_MASK_def and.assoc)
qed

text \<open>An entry made of a frame and flags.\<close>

lemma entry_fields:
  assumes f: "4096 dvd unat f" "unat f + 4096 \<le> PHYS_LIMIT"
  shows "(f OR (e AND 0xFFF)) AND ADDR_MASK = f" "(f OR (e AND 0xFFF)) AND 0xFFF = e AND 0xFFF"
    "(f OR (e AND 0x18)) AND NOT 0xFFF = f"
proof -
  have m: "f AND ADDR_MASK = f" "f AND NOT 0xFFF = f" using frame_mask [OF f] by (simp_all add: page_down_def)
  show "(f OR (e AND 0xFFF)) AND ADDR_MASK = f" "(f OR (e AND 0x18)) AND NOT 0xFFF = f" using m
    by (simp_all add: bit.conj_disj_distrib2 and.assoc ADDR_MASK_def)
  show "(f OR (e AND 0xFFF)) AND 0xFFF = e AND 0xFFF" using frame_bits [OF f] by (simp add: bit.conj_disj_distrib2 and.assoc)
qed

lemma low_flags: "e AND 1 = (e AND 0xFFF) AND (1 :: u64)" "e AND 2 = (e AND 0xFFF) AND (2 :: u64)" "e AND 0x80 = (e AND 0xFFF) AND (0x80 :: u64)"
  by (simp_all add: and.assoc)

lemma table_flags: "present e \<Longrightarrow> x OR (e AND 0xFFF AND 0xFFF AND NOT 1) OR 1 = x OR (e AND 0xFFF)"
proof -
  assume "present e"
  then have "e AND 1 = 1" by (simp add: and_one_eq mod2_eq_if split: if_splits)
  moreover have "e AND (0xFFE OR 1) = (e AND 0xFFE) OR (e AND 1)" by (rule bit.conj_disj_distrib)
  ultimately have "e AND 0xFFF = (e AND 0xFFE) OR 1" by simp
  then show ?thesis by (simp add: and.assoc or.assoc)
qed

section \<open>Trees of tables\<close>

text \<open>
  \<open>leaf\<close> follows indices from an entry to the entry of a page. \<open>owned V mem n e\<close>: below the entry \<open>e\<close> there are \<open>n\<close> levels of tables, which
  lie with their pages in the frames \<open>V\<close> and have no huge pages. \<open>unshared L mem n e\<close>: the tables and the writable pages lie outside \<open>L\<close>.
\<close>

fun leaf :: "frame_mem \<Rightarrow> nat list \<Rightarrow> u64 \<Rightarrow> u64 option" where
  "leaf mem [] e = (if present e then Some e else None)"
| "leaf mem (i # is) e = (if present e then leaf mem is (mem (e AND ADDR_MASK) i) else None)"

primrec owned :: "u64 set \<Rightarrow> frame_mem \<Rightarrow> nat \<Rightarrow> u64 \<Rightarrow> bool" where
  "owned V mem 0 e \<longleftrightarrow> (present e \<longrightarrow> e AND ADDR_MASK \<in> V)"
| "owned V mem (Suc n) e \<longleftrightarrow> (present e \<longrightarrow> e AND 0x80 = 0 \<and> e AND ADDR_MASK \<in> V \<and> (\<forall>i < 512. owned V mem n (mem (e AND ADDR_MASK) i)))"

primrec unshared :: "u64 set \<Rightarrow> frame_mem \<Rightarrow> nat \<Rightarrow> u64 \<Rightarrow> bool" where
  "unshared L mem 0 e \<longleftrightarrow> (present e \<and> e AND 2 \<noteq> 0 \<longrightarrow> e AND ADDR_MASK \<notin> L)"
| "unshared L mem (Suc n) e \<longleftrightarrow> (present e \<longrightarrow> e AND ADDR_MASK \<notin> L \<and> (\<forall>i < 512. unshared L mem n (mem (e AND ADDR_MASK) i)))"

text \<open>What is seen through an entry: the flags of the page and its contents.\<close>

definition look :: "frame_mem \<Rightarrow> nat list \<Rightarrow> u64 \<Rightarrow> (u64 \<times> (nat \<Rightarrow> u64)) option" where
  "look mem is e = map_option (\<lambda>l. (l AND 0xFFF, mem (l AND ADDR_MASK))) (leaf mem is e)"

definition path :: "nat \<Rightarrow> nat list \<Rightarrow> bool" where
  "path n is \<longleftrightarrow> length is = n \<and> (\<forall>i \<in> set is. i < 512)"

lemma path_simps [simp]: "path 0 is \<longleftrightarrow> is = []" "path (Suc n) (i # is) \<longleftrightarrow> i < 512 \<and> path n is"
  by (auto simp: path_def)

lemma path_Suc: "path (Suc n) is \<Longrightarrow> \<exists>i is'. is = i # is' \<and> i < 512 \<and> path n is'"
  by (cases "is") (auto simp: path_def)

lemma owned_mono: "owned V mem n e \<Longrightarrow> V \<subseteq> W \<Longrightarrow> owned W mem n e"
  by (induction n arbitrary: e) auto

lemma unshared_mono: "unshared L mem n e \<Longrightarrow> K \<subseteq> L \<Longrightarrow> unshared K mem n e"
  by (induction n arbitrary: e) auto

text \<open>A tree is not changed by writes outside its frames.\<close>

lemma owned_agree:
  assumes "owned V mem n e" "\<forall>k \<in> V. mem' k = mem k"
  shows "owned V mem' n e" "unshared L mem' n e = unshared L mem n e" "path n is \<Longrightarrow> look mem' is e = look mem is e"
proof -
  show "owned V mem' n e" using assms by (induction n arbitrary: e) auto
  show "unshared L mem' n e = unshared L mem n e" using assms by (induction n arbitrary: e) auto
  show "path n is \<Longrightarrow> look mem' is e = look mem is e" using assms
  proof (induction n arbitrary: e "is")
    case 0
    then show ?case by (auto simp: look_def)
  next
    case (Suc n)
    obtain i is' where i: "is = i # is'" "i < 512" "path n is'" using path_Suc [OF Suc.prems(1)] by blast
    show ?case
    proof (cases "present e")
      case True
      then have "mem' (e AND ADDR_MASK) = mem (e AND ADDR_MASK)" "owned V mem n (mem (e AND ADDR_MASK) i)" using Suc.prems(2,3) i(2) by auto
      then show ?thesis using Suc.IH [OF i(3) _ Suc.prems(3)] i(1) True by (simp add: look_def)
    qed (simp add: look_def i(1))
  qed
qed

lemma look_absent: "\<not> present e \<Longrightarrow> look mem is e = None"
  by (cases "is") (simp_all add: look_def)

lemma owned_absent [simp]: "owned V mem n 0" "unshared V mem n 0"
  by (cases n; simp)+

section \<open>Cloning\<close>

text \<open>
  The entry \<open>e'\<close> in \<open>mem'\<close> is a copy of the entry \<open>e\<close> in \<open>mem\<close>: it shows the same pages, and its tables and pages lie in \<open>V\<close> or the new frames \<open>N\<close>,
  the tables and the writable pages outside \<open>L\<close>.
\<close>

definition copy_of :: "u64 set \<Rightarrow> u64 set \<Rightarrow> nat \<Rightarrow> frame_mem \<Rightarrow> u64 \<Rightarrow> frame_mem \<Rightarrow> u64 \<Rightarrow> bool" where
  "copy_of L W n mem e mem' e' \<longleftrightarrow> owned W mem' n e' \<and> unshared L mem' n e' \<and> (\<forall>is. path n is \<longrightarrow> look mem' is e' = look mem is e)"

definition new_frames :: "u64 set \<Rightarrow> machine \<Rightarrow> machine \<Rightarrow> u64 set \<Rightarrow> bool" where
  "new_frames L mc mc' N \<longleftrightarrow> source_inv (mc_frames mc') (L \<union> N) \<and> N \<inter> L = {}"

definition clone_ok :: "nat \<Rightarrow> (u64 \<Rightarrow> machine \<Rightarrow> u64 option \<times> machine) \<Rightarrow> bool" where
  "clone_ok n cl \<longleftrightarrow> (\<forall>L V e mc e' mc'. source_inv (mc_frames mc) L \<longrightarrow> V \<subseteq> L \<longrightarrow> owned V (mc_mem mc) n e \<longrightarrow> present e \<longrightarrow> cl e mc = (Some e', mc') \<longrightarrow>
     (\<exists>N. new_frames L mc mc' N \<and> (\<forall>k. k \<notin> N \<longrightarrow> mc_mem mc' k = mc_mem mc k) \<and> copy_of L (V \<union> N) n (mc_mem mc) e (mc_mem mc') e'))"

lemma copy_of_later:
  assumes "copy_of L W n mem e mem1 e'" "\<forall>k \<in> W. mem2 k = mem1 k" "W \<subseteq> W'"
  shows "copy_of L W' n mem e mem2 e'"
  using assms owned_agree [of W mem1 n e' mem2] owned_mono [of W mem2 n e' W'] by (auto simp: copy_of_def)

lemma copy_of_source:
  assumes "copy_of K W n mem e mem' e'" "owned V mem0 n e" "\<forall>k \<in> V. mem k = mem0 k" "L \<subseteq> K" "W \<subseteq> W'"
  shows "copy_of L W' n mem0 e mem' e'"
  using assms owned_agree(3) [OF assms(2,3)] owned_mono [of W mem' n e' W'] unshared_mono [of K mem' n e' L] by (auto simp: copy_of_def)

lemma take_frame_fresh:
  assumes "take_frame mc = (Some f, mc1)" "source_inv (mc_frames mc) L"
  shows "f \<notin> L" "4096 dvd unat f" "unat f + 4096 \<le> PHYS_LIMIT" "source_inv (mc_frames mc1) (insert f L)" "mc_mem mc1 = mc_mem mc"
proof -
  obtain fa where fa: "alloc_frame (mc_frames mc) = (Some f, fa)" "mc1 = mc\<lparr>mc_frames := fa\<rparr>"
    using assms(1) by (auto simp: take_frame_def split: prod.splits)
  show "f \<notin> L" "4096 dvd unat f" "unat f + 4096 \<le> PHYS_LIMIT" "source_inv (mc_frames mc1) (insert f L)" "mc_mem mc1 = mc_mem mc"
    using frames.alloc_fresh [OF assms(2) fa(1)] fa(2) by auto
qed

lemma write_entry_sel [simp]:
  "mc_mem (write_entry mc t i v) = (mc_mem mc)(t := (mc_mem mc t)(i := v))" "mc_frames (write_entry mc t i v) = mc_frames mc"
  by (simp_all add: write_entry_def)

lemma fill_page_sel [simp]:
  "mc_mem (fill_page mc f c) = (mc_mem mc)(f := c)" "mc_frames (fill_page mc f c) = mc_frames mc"
  by (simp_all add: fill_page_def)

lemma clone_page_ok: "clone_ok 0 clone_page"
  unfolding clone_ok_def
proof (intro allI impI)
  fix L V e mc e' mc'
  assume a: "source_inv (mc_frames mc) L" "V \<subseteq> L" "owned V (mc_mem mc) 0 e" "present e" "clone_page e mc = (Some e', mc')"
  show "\<exists>N. new_frames L mc mc' N \<and> (\<forall>k. k \<notin> N \<longrightarrow> mc_mem mc' k = mc_mem mc k) \<and> copy_of L (V \<union> N) 0 (mc_mem mc) e (mc_mem mc') e'"
  proof (cases "e AND 2 = 0")
    case True
    then have "e' = e" "mc' = mc" using a(5) by (simp_all add: clone_page_def)
    then show ?thesis using a True by (intro exI [of _ "{}"]) (simp add: new_frames_def copy_of_def)
  next
    case False
    then obtain f mc1 where f: "take_frame mc = (Some f, mc1)" "e' = page_down f OR (e AND 0xFFF)" "mc' = fill_page mc1 f (mc_mem mc1 (e AND ADDR_MASK))"
      using a(5) by (auto simp: clone_page_def split: prod.splits option.splits)
    note fr = take_frame_fresh [OF f(1) a(1)]
    have e': "e' AND ADDR_MASK = f" "e' AND 0xFFF = e AND 0xFFF" "present e'"
      using entry_fields [OF fr(2,3), of e] frame_mask [OF fr(2,3)] f(2) a(4) low_flags(1) [of e] low_flags(1) [of e'] by auto
    have "copy_of L (V \<union> {f}) 0 (mc_mem mc) e (mc_mem mc') e'"
      using e' f(3) fr(1,5) a(4) by (simp add: copy_of_def look_def)
    then show ?thesis using fr f(3) by (intro exI [of _ "{f}"]) (simp add: new_frames_def)
  qed
qed

text \<open>Cloning the entries of one table \<open>src\<close> of the parent into the new table \<open>dst\<close>.\<close>

lemma clone_entries_ok:
  assumes cl: "clone_ok n cl"
  shows "source_inv (mc_frames mc) L \<Longrightarrow> V \<subseteq> L \<Longrightarrow> src \<in> V \<Longrightarrow> dst \<in> L - V \<Longrightarrow> distinct is \<Longrightarrow> \<forall>i \<in> set is. owned V (mc_mem mc) n (mc_mem mc src i) \<Longrightarrow>
    \<forall>i \<in> set is. mc_mem mc dst i = 0 \<Longrightarrow> clone_entries cl dst src is mc = (True, mc') \<Longrightarrow>
    \<exists>N. new_frames L mc mc' N \<and> (\<forall>k. k \<notin> N \<and> k \<noteq> dst \<longrightarrow> mc_mem mc' k = mc_mem mc k) \<and>
      (\<forall>i. i \<notin> set is \<longrightarrow> mc_mem mc' dst i = mc_mem mc dst i) \<and>
      (\<forall>i \<in> set is. copy_of L (V \<union> N) n (mc_mem mc) (mc_mem mc src i) (mc_mem mc') (mc_mem mc' dst i))"
proof (induction "is" arbitrary: mc L)
  case Nil
  then show ?case by (intro exI [of _ "{}"]) (simp add: new_frames_def)
next
  case (Cons i "is")
  let ?e = "mc_mem mc src i"
  show ?case
  proof (cases "present ?e")
    case False
    then have c: "clone_entries cl dst src is mc = (True, mc')" using Cons.prems(8) by simp
    have d: "distinct is" "i \<notin> set is" "\<forall>i \<in> set is. owned V (mc_mem mc) n (mc_mem mc src i)" "\<forall>i \<in> set is. mc_mem mc dst i = 0"
      using Cons.prems(5-7) by auto
    obtain N where N: "new_frames L mc mc' N" "\<forall>k. k \<notin> N \<and> k \<noteq> dst \<longrightarrow> mc_mem mc' k = mc_mem mc k"
      "\<forall>i. i \<notin> set is \<longrightarrow> mc_mem mc' dst i = mc_mem mc dst i"
      "\<forall>i \<in> set is. copy_of L (V \<union> N) n (mc_mem mc) (mc_mem mc src i) (mc_mem mc') (mc_mem mc' dst i)"
      using Cons.IH [OF Cons.prems(1-4) d(1,3,4) c] by blast
    have "mc_mem mc' dst i = 0" using N(3) d(2) Cons.prems(7) by simp
    then have "copy_of L (V \<union> N) n (mc_mem mc) ?e (mc_mem mc') (mc_mem mc' dst i)"
      using False look_absent [of ?e] look_absent [of 0] by (simp add: copy_of_def)
    then show ?thesis using N by (intro exI [of _ N]) auto
  next
    case True
    then obtain e' mc1 where c: "cl ?e mc = (Some e', mc1)" "clone_entries cl dst src is (write_entry mc1 dst i e') = (True, mc')"
      using Cons.prems(8) by (auto simp: Let_def split: prod.splits option.splits)
    let ?mc2 = "write_entry mc1 dst i e'"
    have o: "owned V (mc_mem mc) n ?e" using Cons.prems(6) by simp
    obtain N1 where N1: "new_frames L mc mc1 N1" "\<forall>k. k \<notin> N1 \<longrightarrow> mc_mem mc1 k = mc_mem mc k" "copy_of L (V \<union> N1) n (mc_mem mc) ?e (mc_mem mc1) e'"
      using cl Cons.prems(1,2) o True c(1) unfolding clone_ok_def by blast
    have L1: "source_inv (mc_frames ?mc2) (L \<union> N1)" "N1 \<inter> L = {}" using N1(1) by (auto simp: new_frames_def)
    have V: "\<forall>k \<in> V. mc_mem ?mc2 k = mc_mem mc k" "mc_mem mc1 dst = mc_mem mc dst" using L1(2) Cons.prems(2,4) N1(2) by auto
    have p: "V \<subseteq> L \<union> N1" "dst \<in> L \<union> N1 - V" "distinct is" "i \<notin> set is" "\<forall>j \<in> set is. mc_mem ?mc2 dst j = 0" "mc_mem ?mc2 src = mc_mem mc src"
      using Cons.prems(2-5,7) V by auto
    have os: "\<forall>j \<in> set is. owned V (mc_mem ?mc2) n (mc_mem ?mc2 src j)" unfolding p(6) using owned_agree(1) [of V "mc_mem mc" n _ "mc_mem ?mc2", OF _ V(1)] Cons.prems(6) by (simp del: write_entry_sel)
    obtain N2 where N2: "new_frames (L \<union> N1) ?mc2 mc' N2" "\<forall>k. k \<notin> N2 \<and> k \<noteq> dst \<longrightarrow> mc_mem mc' k = mc_mem ?mc2 k"
      "\<forall>j. j \<notin> set is \<longrightarrow> mc_mem mc' dst j = mc_mem ?mc2 dst j"
      "\<forall>j \<in> set is. copy_of (L \<union> N1) (V \<union> N2) n (mc_mem ?mc2) (mc_mem ?mc2 src j) (mc_mem mc') (mc_mem mc' dst j)"
      using Cons.IH [OF L1(1) p(1) Cons.prems(3) p(2,3) os p(5) c(2)] by blast
    have d: "N2 \<inter> (L \<union> N1) = {}" "source_inv (mc_frames mc') (L \<union> (N1 \<union> N2))" using N2(1) by (auto simp: new_frames_def Un_assoc)
    have "\<forall>k \<in> V \<union> N1. mc_mem mc' k = mc_mem mc1 k" using N2(2) d(1) p(2) L1(2) Cons.prems(2,4) by auto
    then have "copy_of L (V \<union> (N1 \<union> N2)) n (mc_mem mc) ?e (mc_mem mc') (mc_mem mc' dst i)"
      using copy_of_later [OF N1(3), of "mc_mem mc'" "V \<union> (N1 \<union> N2)"] N2(3) p(4) by auto
    moreover have "copy_of L (V \<union> (N1 \<union> N2)) n (mc_mem mc) (mc_mem mc src j) (mc_mem mc') (mc_mem mc' dst j)" if "j \<in> set is" for j
    proof -
      have "copy_of (L \<union> N1) (V \<union> N2) n (mc_mem ?mc2) (mc_mem mc src j) (mc_mem mc') (mc_mem mc' dst j)" using N2(4) that p(6) by metis
      from copy_of_source [OF this _ V(1), of L "V \<union> (N1 \<union> N2)"] show ?thesis using Cons.prems(6) that by auto
    qed
    ultimately show ?thesis using d L1(2) N1(2) N2(2,3) V(2) by (intro exI [of _ "N1 \<union> N2"]) (auto simp: new_frames_def)
  qed
qed

lemma clone_table_ok:
  assumes cl: "clone_ok n cl"
  shows "clone_ok (Suc n) (clone_table cl)"
  unfolding clone_ok_def
proof (intro allI impI)
  fix L V e mc e' mc'
  assume a: "source_inv (mc_frames mc) L" "V \<subseteq> L" "owned V (mc_mem mc) (Suc n) e" "present e" "clone_table cl e mc = (Some e', mc')"
  let ?src = "e AND ADDR_MASK"
  obtain f mc1 where f: "take_frame mc = (Some f, mc1)" using a(5) by (auto simp: clone_table_def split: prod.splits option.splits)
  note fr = take_frame_fresh [OF f a(1)]
  let ?mc2 = "fill_page mc1 f (\<lambda>_. 0)"
  have c: "clone_entries cl f ?src [0..<512] ?mc2 = (True, mc')" "e' = f OR (e AND 0xFFF)"
    using a(5) f frame_mask(2) [OF fr(2,3)] table_flags [OF a(4), of f] by (auto simp: clone_table_def Let_def split: prod.splits bool.splits)
  have e': "e' AND ADDR_MASK = f" "e' AND 0xFFF = e AND 0xFFF" "present e'" "e' AND 0x80 = 0"
    using entry_fields [OF fr(2,3), of e] c(2) a(3,4) low_flags [of e] low_flags [of e'] by auto
  have V: "\<forall>k \<in> V. mc_mem ?mc2 k = mc_mem mc k" "?src \<in> V" "V \<subseteq> insert f L" "f \<in> insert f L - V" using fr(1,5) a(2-4) by auto
  have os: "\<forall>i < 512. owned V (mc_mem mc) n (mc_mem mc ?src i)" using a(3,4) by simp
  have src: "mc_mem ?mc2 ?src = mc_mem mc ?src" using V(1,2) by blast
  have os2: "\<forall>i \<in> set [0..<512]. owned V (mc_mem ?mc2) n (mc_mem ?mc2 ?src i)" unfolding src using owned_agree(1) [of V "mc_mem mc" n _ "mc_mem ?mc2", OF _ V(1)] os by (simp del: fill_page_sel)
  have z: "\<forall>i \<in> set [0..<512]. mc_mem ?mc2 f i = 0" and si: "source_inv (mc_frames ?mc2) (insert f L)" using fr(4) by simp_all
  obtain N where N: "new_frames (insert f L) ?mc2 mc' N" "\<forall>k. k \<notin> N \<and> k \<noteq> f \<longrightarrow> mc_mem mc' k = mc_mem ?mc2 k"
    "\<forall>i \<in> set [0..<512]. copy_of (insert f L) (V \<union> N) n (mc_mem ?mc2) (mc_mem ?mc2 ?src i) (mc_mem mc') (mc_mem mc' f i)"
    using clone_entries_ok [OF cl si V(3,2,4) distinct_upt os2 z c(1)] by blast
  have cp: "copy_of L (V \<union> insert f N) n (mc_mem mc) (mc_mem mc ?src i) (mc_mem mc') (mc_mem mc' f i)" if "i < 512" for i
  proof -
    have "i \<in> set [0..<512]" using that by simp
    from copy_of_source [OF bspec [OF N(3) this, unfolded src] _ V(1), of L "V \<union> insert f N"] show ?thesis using os that by auto
  qed
  have "look (mc_mem mc') is e' = look (mc_mem mc) is e" if pt: "path (Suc n) is" for "is"
  proof -
    obtain i is' where i: "is = i # is'" "i < 512" "path n is'" using path_Suc [OF pt] by blast
    then have "look (mc_mem mc') is' (mc_mem mc' f i) = look (mc_mem mc) is' (mc_mem mc ?src i)" using cp [OF i(2)] by (simp add: copy_of_def)
    then show ?thesis using i(1) e'(1,3) a(4) by (simp add: look_def)
  qed
  then have "copy_of L (V \<union> insert f N) (Suc n) (mc_mem mc) e (mc_mem mc') e'"
    using cp e' fr(1) by (auto simp: copy_of_def)
  then show "\<exists>N. new_frames L mc mc' N \<and> (\<forall>k. k \<notin> N \<longrightarrow> mc_mem mc' k = mc_mem mc k) \<and> copy_of L (V \<union> N) (Suc n) (mc_mem mc) e (mc_mem mc') e'"
    using N(1,2) fr(1,5) by (intro exI [of _ "insert f N"]) (auto simp: new_frames_def)
qed

lemma clone_pdpt_ok: "clone_ok 3 clone_pdpt"
  unfolding clone_pdpt_def clone_pd_def clone_pt_def numeral_3_eq_3 by (intro clone_table_ok clone_page_ok)

text \<open>The copy of a writable page loses the no-execute bit, bit 63.\<close>

lemma copied_page_executable:
  assumes "source_inv (mc_frames mc) L" "e AND 2 \<noteq> 0" "clone_page e mc = (Some e', mc')"
  shows "\<not> bit e' 63"
proof -
  obtain f mc1 where f: "take_frame mc = (Some f, mc1)" "e' = page_down f OR (e AND 0xFFF)"
    using assms(2,3) by (auto simp: clone_page_def split: prod.splits option.splits)
  note fr = take_frame_fresh [OF f(1) assms(1)]
  have "e' = (f AND ADDR_MASK) OR (e AND 0xFFF)" using f(2) frame_mask [OF fr(2,3)] by simp
  then show ?thesis by (simp add: ADDR_MASK_def bit_simps)
qed

section \<open>Translation\<close>

lemma entry_index_less: "entry_index shift virt < 512"
proof -
  have "drop_bit shift virt AND 0x1FF = take_bit 9 (drop_bit shift virt)" by (simp add: take_bit_eq_mask mask_numeral)
  then show ?thesis using take_bit_nat_less_exp [of 9 "unat (drop_bit shift virt)"] by (simp add: entry_index_def unsigned_take_bit_eq)
qed

text \<open>Without huge pages, the translation is the page of the leaf and the offset in it.\<close>

lemma virt_to_phys_leaf:
  assumes "owned V (mc_mem mc) 3 (mc_mem mc (page_down cr3) (entry_index 39 virt))"
  shows "virt_to_phys_raw mc cr3 virt =
    map_option (\<lambda>l. (l AND ADDR_MASK) OR (virt AND 0xFFF))
      (leaf (mc_mem mc) [entry_index 30 virt, entry_index 21 virt, entry_index 12 virt] (mc_mem mc (page_down cr3) (entry_index 39 virt)))"
  using assms entry_index_less [of 30 virt] entry_index_less [of 21 virt] entry_index_less [of 12 virt]
  by (auto simp: virt_to_phys_raw_def paging_levels_def numeral_3_eq_3 Let_def)

lemma page_of_leaf: "page_down ((l AND ADDR_MASK) OR (virt AND 0xFFF)) = l AND ADDR_MASK" "((l AND ADDR_MASK) OR (virt AND 0xFFF)) AND 0xFFF = virt AND 0xFFF"
  by (simp_all add: page_down_def bit.conj_disj_distrib2 and.assoc ADDR_MASK_def)

lemma unshared_leaf:
  assumes "unshared L mem n e" "path n is" "leaf mem is e = Some l" "l AND 2 \<noteq> 0"
  shows "l AND ADDR_MASK \<notin> L"
  using assms
proof (induction n arbitrary: e "is")
  case 0
  then show ?case by (auto split: if_splits)
next
  case (Suc n)
  obtain i is' where i: "is = i # is'" "i < 512" "path n is'" using path_Suc [OF Suc.prems(2)] by blast
  then have "leaf mem is' (mem (e AND ADDR_MASK) i) = Some l" "unshared L mem n (mem (e AND ADDR_MASK) i)" using Suc.prems(1,3) by (auto split: if_splits)
  then show ?case using Suc.IH i(3) Suc.prems(4) by blast
qed

section \<open>Properties\<close>

text \<open>The leaf entry of a user address and whether it is writable.\<close>

definition leaf_writable :: "machine \<Rightarrow> u64 \<Rightarrow> u64 \<Rightarrow> bool" where
  "leaf_writable mc cr3 virt =
     (case leaf (mc_mem mc) [entry_index 30 virt, entry_index 21 virt, entry_index 12 virt] (mc_mem mc (page_down cr3) (entry_index 39 virt)) of
        None \<Rightarrow> False | Some l \<Rightarrow> l AND 2 \<noteq> 0)"

text \<open>An address space whose user half has no huge pages and lies, with the kernel's top table, in frames that are in use.\<close>

definition user_space :: "u64 set \<Rightarrow> machine \<Rightarrow> u64 \<Rightarrow> bool" where
  "user_space L mc cr3 \<longleftrightarrow> source_inv (mc_frames mc) L \<and> page_down cr3 \<in> L \<and> page_down (mc_kernel_cr3 mc) \<in> L \<and>
     (\<forall>i < 256. owned L (mc_mem mc) 3 (mc_mem mc (page_down cr3) i))"

lemma clone_spec:
  assumes us: "user_space L mc cr3" and cl: "clone_user_address_space mc cr3 = (Some cr3', mc')"
  shows "\<exists>N f. page_down cr3' = f \<and> f \<notin> L \<and> (\<forall>k \<in> L. mc_mem mc' k = mc_mem mc k) \<and>
    (\<forall>i < 256. copy_of L (L \<union> N) 3 (mc_mem mc) (mc_mem mc (page_down cr3) i) (mc_mem mc') (mc_mem mc' f i)) \<and>
    (\<forall>i < 256. mc_mem mc' f (256 + i) = mc_mem mc (page_down (mc_kernel_cr3 mc)) i)"
proof -
  have u: "source_inv (mc_frames mc) L" "page_down cr3 \<in> L" "page_down (mc_kernel_cr3 mc) \<in> L"
    "\<forall>i < 256. owned L (mc_mem mc) 3 (mc_mem mc (page_down cr3) i)" using us by (auto simp: user_space_def)
  obtain f mc1 where f: "take_frame mc = (Some f, mc1)" using cl by (auto simp: clone_user_address_space_def split: prod.splits option.splits)
  note fr = take_frame_fresh [OF f u(1)]
  let ?mc2 = "fill_page mc1 f (\<lambda>i. if i < 256 then 0 else mc_mem mc1 (page_down (mc_kernel_cr3 mc)) (i - 256))" and ?src = "page_down cr3"
  have c: "clone_entries clone_pdpt f ?src [0..<256] ?mc2 = (True, mc')" "cr3' = f OR (cr3 AND 0x18)"
    using cl f frame_mask(2) [OF fr(2,3)] by (auto simp: clone_user_address_space_def Let_def split: prod.splits bool.splits)
  have V: "\<forall>k \<in> L. mc_mem ?mc2 k = mc_mem mc k" "L \<subseteq> insert f L" "f \<in> insert f L - L" using fr(1,5) by auto
  have src: "mc_mem ?mc2 ?src = mc_mem mc ?src" using V(1) u(2) by blast
  have os2: "\<forall>i \<in> set [0..<256]. owned L (mc_mem ?mc2) 3 (mc_mem ?mc2 ?src i)"
    unfolding src using owned_agree(1) [of L "mc_mem mc" 3 _ "mc_mem ?mc2", OF _ V(1)] u(4) by (simp del: fill_page_sel)
  have z: "\<forall>i \<in> set [0..<256]. mc_mem ?mc2 f i = 0" and si: "source_inv (mc_frames ?mc2) (insert f L)" using fr(4) by simp_all
  obtain N where N: "new_frames (insert f L) ?mc2 mc' N" "\<forall>k. k \<notin> N \<and> k \<noteq> f \<longrightarrow> mc_mem mc' k = mc_mem ?mc2 k"
    "\<forall>i. i \<notin> set [0..<256] \<longrightarrow> mc_mem mc' f i = mc_mem ?mc2 f i"
    "\<forall>i \<in> set [0..<256]. copy_of (insert f L) (L \<union> N) 3 (mc_mem ?mc2) (mc_mem ?mc2 ?src i) (mc_mem mc') (mc_mem mc' f i)"
    using clone_entries_ok [OF clone_pdpt_ok si V(2) u(2) V(3) distinct_upt os2 z c(1)] by blast
  have "copy_of L (L \<union> N) 3 (mc_mem mc) (mc_mem mc ?src i) (mc_mem mc') (mc_mem mc' f i)" if "i < 256" for i
  proof -
    have "i \<in> set [0..<256]" using that by simp
    from copy_of_source [OF bspec [OF N(4) this, unfolded src] _ V(1), of L "L \<union> N"] show ?thesis using u(4) that by auto
  qed
  moreover have "\<forall>k \<in> L. mc_mem mc' k = mc_mem mc k" using N(1,2) fr(1,5) by (auto simp: new_frames_def disjoint_iff)
  moreover have "\<forall>i < 256. mc_mem mc' f (256 + i) = mc_mem mc (page_down (mc_kernel_cr3 mc)) i" using N(3) fr(5) by simp
  moreover have "page_down cr3' = f" using entry_fields(3) [OF fr(2,3)] c(2) by (simp add: page_down_def)
  ultimately show ?thesis using fr(1) by (intro exI [of _ N] exI [of _ f]) blast
qed

text \<open>
  C39: After a successful clone of an address space, every frame that was in use keeps its contents, and at every user address the child sees what the
  parent saw: the address is mapped in the one iff it is in the other, at the same offset of a page with the same contents.
  Where the parent may write, the page of the child is a new frame, so that later writes of one are not seen by the other.
\<close>

theorem clone_user_memory:
  assumes "user_space L mc cr3" "clone_user_address_space mc cr3 = (Some cr3', mc')"
  shows "(\<forall>k \<in> L. mc_mem mc' k = mc_mem mc k) \<and>
    (\<forall>virt. entry_index 39 virt < 256 \<longrightarrow>
      (case virt_to_phys_raw mc cr3 virt of
         None \<Rightarrow> virt_to_phys_raw mc' cr3' virt = None
       | Some p \<Rightarrow> \<exists>q. virt_to_phys_raw mc' cr3' virt = Some q \<and> q AND 0xFFF = p AND 0xFFF \<and>
           mc_mem mc' (page_down q) = mc_mem mc (page_down p) \<and> (leaf_writable mc cr3 virt \<longrightarrow> page_down q \<notin> L)))"
proof -
  obtain N where N: "\<forall>k \<in> L. mc_mem mc' k = mc_mem mc k"
    "\<forall>i < 256. copy_of L (L \<union> N) 3 (mc_mem mc) (mc_mem mc (page_down cr3) i) (mc_mem mc') (mc_mem mc' (page_down cr3') i)"
    using clone_spec [OF assms] by blast
  have "case virt_to_phys_raw mc cr3 virt of
         None \<Rightarrow> virt_to_phys_raw mc' cr3' virt = None
       | Some p \<Rightarrow> \<exists>q. virt_to_phys_raw mc' cr3' virt = Some q \<and> q AND 0xFFF = p AND 0xFFF \<and>
           mc_mem mc' (page_down q) = mc_mem mc (page_down p) \<and> (leaf_writable mc cr3 virt \<longrightarrow> page_down q \<notin> L)"
    if i: "entry_index 39 virt < 256" for virt
  proof -
    let ?is = "[entry_index 30 virt, entry_index 21 virt, entry_index 12 virt]"
    let ?e = "mc_mem mc (page_down cr3) (entry_index 39 virt)" and ?e' = "mc_mem mc' (page_down cr3') (entry_index 39 virt)"
    have p: "path 3 ?is" using entry_index_less by (simp add: path_def)
    have c: "owned (L \<union> N) (mc_mem mc') 3 ?e'" "unshared L (mc_mem mc') 3 ?e'" "look (mc_mem mc') ?is ?e' = look (mc_mem mc) ?is ?e"
      using N(2) i p by (auto simp: copy_of_def)
    have o: "owned L (mc_mem mc) 3 ?e" using assms(1) i by (simp add: user_space_def)
    note v = virt_to_phys_leaf [OF o] virt_to_phys_leaf [OF c(1)]
    show ?thesis
    proof (cases "leaf (mc_mem mc) ?is ?e")
      case None
      then show ?thesis using v c(3) by (simp add: look_def)
    next
      case (Some l)
      then obtain l' where l': "leaf (mc_mem mc') ?is ?e' = Some l'" "l' AND 0xFFF = l AND 0xFFF" "mc_mem mc' (l' AND ADDR_MASK) = mc_mem mc (l AND ADDR_MASK)"
        using c(3) by (auto simp: look_def)
      have "l' AND ADDR_MASK \<notin> L" if "l AND 2 \<noteq> 0"
        using unshared_leaf [OF c(2) p l'(1)] that l'(2) low_flags(2) [of l] low_flags(2) [of l'] by simp
      then show ?thesis using v Some l' by (simp add: page_of_leaf leaf_writable_def)
    qed
  qed
  then show ?thesis using N(1) by blast
qed

text \<open>
  C40: The child of a fork does not get the kernel half: the entries 256 to 511 of its top table are the entries 0 to 255 of the kernel's, the source of
  the copy being the start of the table. An address of the kernel half whose slot, 256 entries down, is empty in the kernel's table is not
  mapped in the child, whatever the kernel maps there.
\<close>

theorem clone_kernel_half:
  assumes "user_space L mc cr3" "clone_user_address_space mc cr3 = (Some cr3', mc')"
  shows "(\<forall>i < 256. mc_mem mc' (page_down cr3') (256 + i) = mc_mem mc (page_down (mc_kernel_cr3 mc)) i) \<and>
    (\<forall>virt. 256 \<le> entry_index 39 virt \<and> \<not> present (mc_mem mc (page_down (mc_kernel_cr3 mc)) (entry_index 39 virt - 256)) \<longrightarrow>
      virt_to_phys_raw mc' cr3' virt = None)"
proof -
  have k: "\<forall>i < 256. mc_mem mc' (page_down cr3') (256 + i) = mc_mem mc (page_down (mc_kernel_cr3 mc)) i" using clone_spec [OF assms] by blast
  have "virt_to_phys_raw mc' cr3' virt = None"
    if "256 \<le> entry_index 39 virt" "\<not> present (mc_mem mc (page_down (mc_kernel_cr3 mc)) (entry_index 39 virt - 256))" for virt
    using k [rule_format, of "entry_index 39 virt - 256"] that entry_index_less [of 39 virt] by (simp add: virt_to_phys_raw_def paging_levels_def)
  then show ?thesis using k by blast
qed

text \<open>A process with one page, the last one of the user half, and a kernel with one entry in its half.\<close>

lemma clone_entries_skip: "\<forall>i \<in> set is. \<not> present (mc_mem mc src i) \<Longrightarrow> clone_entries cl dst src (is @ js) mc = clone_entries cl dst src js mc"
  by (induction "is") auto

lemma clone_entries_last:
  "\<forall>i < 511. \<not> present (mc_mem mc src i) \<Longrightarrow> clone_entries cl dst src [0..<512] mc = clone_entries cl dst src [511] mc"
  "\<forall>i < 255. \<not> present (mc_mem mc src i) \<Longrightarrow> clone_entries cl dst src [0..<256] mc = clone_entries cl dst src [255] mc"
  using clone_entries_skip [of "[0..<511]" mc src cl dst "[511]"] clone_entries_skip [of "[0..<255]" mc src cl dst "[255]"]
    upt_add_eq_append [of 0 511 1] upt_add_eq_append [of 0 255 1] by (simp_all add: upt_rec [of 511] upt_rec [of 255])

definition sample_memory :: frame_mem where
  "sample_memory = (\<lambda>f i. if f = 0x1000 \<and> i = 255 then 0x2007 else if f = 0x2000 \<and> i = 511 then 0x3007 else if f = 0x3000 \<and> i = 511 then 0x4007
     else if f = 0x4000 \<and> i = 511 then 0x5007 else if f = 0x5000 then 0xAB else if f = 0x7000 \<and> i = 256 then 0x8003 else 0)"

definition sample_machine :: machine where
  "sample_machine = \<lparr>mc_frames = empty_allocator\<lparr>free_stack := [0x9000, 0xA000, 0xB000, 0xC000, 0xD000]\<rparr>, mc_mem = sample_memory,
     mc_hhdm = 0, mc_level4 = 0x7000, mc_kernel_cr3 = 0x7000, mc_cr3 = 0x1000, mc_freed = [], mc_freed_count = 0\<rparr>"

lemma sample_clone: "fst (clone_user_address_space sample_machine 0x1000) = Some 0xD000"
  by (simp add: clone_user_address_space_def clone_pdpt_def clone_pd_def clone_pt_def clone_table_def clone_page_def take_frame_def alloc_frame_def sample_machine_def
    page_down_def ADDR_MASK_def clone_entries_last sample_memory_def fill_page_def write_entry_def Let_def)

lemma sample_space: "user_space {0x1000, 0x2000, 0x3000, 0x4000, 0x5000, 0x7000} sample_machine 0x1000"
proof -
  let ?L = "{0x1000, 0x2000, 0x3000, 0x4000, 0x5000, 0x7000} :: u64 set"
  have "source_inv (mc_frames sample_machine) ?L"
    by (simp add: source_inv_def fa_inv_def sample_machine_def servable_def covered_def fa_wf_def fa_shape_def live_regions_def list_ok_def empty_allocator_def PHYS_LIMIT_def)
  moreover have "owned ?L (mc_mem sample_machine) 3 (mc_mem sample_machine 0x1000 i)" for i
  proof -
    have m: "sample_memory 0x1000 i = (if i = 255 then 0x2007 else 0)" "sample_memory 0x2000 i = (if i = 511 then 0x3007 else 0)"
      "sample_memory 0x3000 i = (if i = 511 then 0x4007 else 0)" "sample_memory 0x4000 i = (if i = 511 then 0x5007 else 0)" for i
      by (simp_all add: sample_memory_def)
    have "owned ?L sample_memory 0 (sample_memory 0x4000 i)" for i by (simp add: m ADDR_MASK_def)
    then have "owned ?L sample_memory (Suc 0) (sample_memory 0x3000 i)" for i unfolding m(3) by (simp add: ADDR_MASK_def)
    then have "owned ?L sample_memory (Suc (Suc 0)) (sample_memory 0x2000 i)" for i unfolding m(2) by (simp add: ADDR_MASK_def del: owned.simps(1))
    then show ?thesis unfolding numeral_3_eq_3 sample_machine_def machine.select_convs m(1) by (simp add: ADDR_MASK_def)
  qed
  ultimately show ?thesis by (simp add: user_space_def sample_machine_def page_down_def)
qed

lemma sample_clone_pair: "clone_user_address_space sample_machine 0x1000 = (Some 0xD000, snd (clone_user_address_space sample_machine 0x1000))"
  using sample_clone by (simp add: prod_eq_iff)

theorem clone_user_memory_witness:
  "\<exists>q. virt_to_phys_raw (snd (clone_user_address_space sample_machine 0x1000)) 0xD000 0x7FFFFFFFF010 = Some q \<and> q AND 0xFFF = 0x10 \<and>
     mc_mem (snd (clone_user_address_space sample_machine 0x1000)) (page_down q) 0 = 0xAB \<and> page_down q \<noteq> 0x5000"
proof -
  have ix: "entry_index 39 0x7FFFFFFFF010 = 255" "entry_index 30 0x7FFFFFFFF010 = 511" "entry_index 21 0x7FFFFFFFF010 = 511" "entry_index 12 0x7FFFFFFFF010 = 511"
    by code_simp+
  have "virt_to_phys_raw sample_machine 0x1000 0x7FFFFFFFF010 = Some 0x5010" "leaf_writable sample_machine 0x1000 0x7FFFFFFFF010"
    "mc_mem sample_machine 0x5000 0 = 0xAB"
    by (simp_all add: virt_to_phys_raw_def paging_levels_def leaf_writable_def ix sample_machine_def sample_memory_def page_down_def ADDR_MASK_def)
  moreover have "page_down 0x5010 = 0x5000" by (simp add: page_down_def)
  ultimately show ?thesis using clone_user_memory [OF sample_space sample_clone_pair] ix(1)
    by (elim conjE allE [of _ "0x7FFFFFFFF010"]) auto
qed

theorem clone_kernel_half_witness:
  "present (mc_mem sample_machine 0x7000 256) \<and> entry_index 39 0xFFFF800000000000 = 256 \<and>
   virt_to_phys_raw (snd (clone_user_address_space sample_machine 0x1000)) 0xD000 0xFFFF800000000000 = None"
proof -
  have ix: "entry_index 39 0xFFFF800000000000 = 256" by code_simp
  have "\<not> present (mc_mem sample_machine (page_down (mc_kernel_cr3 sample_machine)) 0)" "present (mc_mem sample_machine 0x7000 256)"
    by (simp_all add: sample_machine_def sample_memory_def page_down_def)
  then show ?thesis using clone_kernel_half [OF sample_space sample_clone_pair] ix by simp
qed

end
